(* ===== verification/Prelude.thy ===== *)
theory Prelude
  imports Main "HOL-Library.Word" "HOL-Library.Code_Target_Numeral"
    "HOL-Library.Multiset"
begin

text \<open>
  Shared vocabulary of the development: machine integers and byte strings, the parts of Rust's
  core library the sources use (checked and saturating \<^verbatim>\<open>usize\<close> arithmetic, slice searching and
  splitting, \<^verbatim>\<open>bitflags\<close>, fixed-width integers to and from bytes), and the two interfaces several
  components share: a fixed-width record codec and an incremental parser whose verdict never changes
  once it is given.
\<close>

unbundle bit_operations_syntax

named_theorems flag_simps \<open>membership tests on bitflags values\<close>
named_theorems codec_simps \<open>lengths and round trips of byte codecs\<close>

section \<open>Integers and bytes\<close>

type_synonym byte = "8 word"
type_synonym bytes = "byte list"
type_synonym u16 = "16 word"
type_synonym u32 = "32 word"
type_synonym u64 = "64 word"

text \<open>Byte-string literals: \<^verbatim>\<open>b"..."\<close> of the sources is \<open>s2b ''...''\<close>.\<close>

definition s2b :: "string \<Rightarrow> bytes" where
  "s2b s = map of_char s"

abbreviation (input) CR :: byte where "CR \<equiv> 13"
abbreviation (input) LF :: byte where "LF \<equiv> 10"
abbreviation (input) SP :: byte where "SP \<equiv> 32"
abbreviation (input) HT :: byte where "HT \<equiv> 9"

lemma s2b_Nil [simp]: "s2b [] = []"
  by (simp add: s2b_def)

lemma s2b_Cons [simp]: "s2b (c # cs) = of_char c # s2b cs"
  by (simp add: s2b_def)

lemma length_s2b [simp]: "length (s2b s) = length s"
  by (simp add: s2b_def)

subsection \<open>\<^verbatim>\<open>usize\<close> arithmetic on a 64-bit target\<close>

text \<open>
  A \<^verbatim>\<open>usize\<close> is a natural number below \<open>usize_bound\<close>; the operations of the sources that
  test for overflow are written out.
\<close>

definition usize_bound :: nat where
  "usize_bound = 2 ^ 64"

definition usize_max :: nat where
  "usize_max = usize_bound - 1"

definition checked_add :: "nat \<Rightarrow> nat \<Rightarrow> nat option" where
  "checked_add a b = (if a + b < usize_bound then Some (a + b) else None)"

definition checked_mul :: "nat \<Rightarrow> nat \<Rightarrow> nat option" where
  "checked_mul a b = (if a * b < usize_bound then Some (a * b) else None)"

definition checked_sub :: "nat \<Rightarrow> nat \<Rightarrow> nat option" where
  "checked_sub a b = (if b \<le> a then Some (a - b) else None)"

definition saturating_add :: "nat \<Rightarrow> nat \<Rightarrow> nat" where
  "saturating_add a b = min (a + b) usize_max"

definition saturating_mul :: "nat \<Rightarrow> nat \<Rightarrow> nat" where
  "saturating_mul a b = min (a * b) usize_max"

text \<open>\<^verbatim>\<open>saturating_sub\<close> is truncating subtraction on the naturals.\<close>

abbreviation (input) saturating_sub :: "nat \<Rightarrow> nat \<Rightarrow> nat" where
  "saturating_sub a b \<equiv> a - b"

lemma checked_add_Some [simp]:
  "checked_add a b = Some c \<longleftrightarrow> c = a + b \<and> a + b < usize_bound"
  by (auto simp: checked_add_def)

lemma checked_add_None [simp]: "checked_add a b = None \<longleftrightarrow> usize_bound \<le> a + b"
  by (auto simp: checked_add_def)

lemma checked_mul_Some [simp]:
  "checked_mul a b = Some c \<longleftrightarrow> c = a * b \<and> a * b < usize_bound"
  by (auto simp: checked_mul_def)

lemma checked_mul_None [simp]: "checked_mul a b = None \<longleftrightarrow> usize_bound \<le> a * b"
  by (auto simp: checked_mul_def)

lemma checked_sub_Some [simp]: "checked_sub a b = Some c \<longleftrightarrow> b \<le> a \<and> c = a - b"
  by (auto simp: checked_sub_def)

lemma checked_sub_None [simp]: "checked_sub a b = None \<longleftrightarrow> a < b"
  by (auto simp: checked_sub_def)

lemma saturating_add_le: "saturating_add a b \<le> a + b"
  by (simp add: saturating_add_def)

lemma saturating_add_bound: "saturating_add a b \<le> usize_max"
  by (simp add: saturating_add_def)

lemma le_saturating_add: "c \<le> a + b \<Longrightarrow> c \<le> usize_max \<Longrightarrow> c \<le> saturating_add a b"
  by (simp add: saturating_add_def)

subsection \<open>Fixed-width integers as bytes\<close>

text \<open>
  \<open>be_bytes n v\<close> is the big-endian rendering of \<open>v\<close> in \<open>n\<close> bytes (\<^verbatim>\<open>to_be_bytes\<close>),
  \<open>be_val\<close> its inverse (\<^verbatim>\<open>from_be_bytes\<close>); little-endian is the reverse.
\<close>

fun be_bytes :: "nat \<Rightarrow> nat \<Rightarrow> bytes" where
  "be_bytes 0 v = []"
| "be_bytes (Suc n) v = be_bytes n (v div 256) @ [word_of_nat v]"

definition be_val :: "bytes \<Rightarrow> nat" where
  "be_val bs = foldl (\<lambda>acc b. acc * 256 + unat b) 0 bs"

definition le_bytes :: "nat \<Rightarrow> nat \<Rightarrow> bytes" where
  "le_bytes n v = rev (be_bytes n v)"

definition le_val :: "bytes \<Rightarrow> nat" where
  "le_val bs = be_val (rev bs)"

lemma length_be_bytes [simp]: "length (be_bytes n v) = n"
  by (induction n arbitrary: v) auto

lemma length_le_bytes [simp]: "length (le_bytes n v) = n"
  by (simp add: le_bytes_def)

lemma be_val_Nil [simp]: "be_val [] = 0"
  by (simp add: be_val_def)

lemma be_val_snoc [simp]: "be_val (bs @ [b]) = be_val bs * 256 + unat b"
  by (simp add: be_val_def)

lemma unat_byte_lt [simp]: "unat (b :: byte) < 256"
  using unsigned_less [of b, where ?'a = nat] by simp

lemma unat_word_of_nat_eq: "n < 2 ^ LENGTH('a) \<Longrightarrow> unat (word_of_nat n :: 'a::len word) = n"
  by (simp add: unsigned_of_nat take_bit_nat_eq_self)

lemma be_val_bound: "be_val bs < 256 ^ length bs"
proof (induction bs rule: rev_induct)
  case Nil
  then show ?case by simp
next
  case (snoc b bs)
  have "be_val bs * 256 + unat b < (be_val bs + 1) * 256"
    using unat_byte_lt [of b] by simp
  also have "\<dots> \<le> 256 ^ length bs * 256"
    using snoc by (intro mult_right_mono) auto
  finally show ?case by (simp add: mult.commute)
qed

lemma be_val_be_bytes [codec_simps]: "be_val (be_bytes n v) = v mod 256 ^ n"
proof (induction n arbitrary: v)
  case 0
  then show ?case by simp
next
  case (Suc n)
  have "unat (word_of_nat v :: byte) = v mod 256"
    by (simp add: unat_of_nat)
  then show ?case
    using Suc by (simp add: mod_mult2_eq mult.commute)
qed

lemma be_bytes_be_val [codec_simps]: "length bs = n \<Longrightarrow> be_bytes n (be_val bs) = bs"
proof (induction bs arbitrary: n rule: rev_induct)
  case Nil
  then show ?case by simp
next
  case (snoc b bs)
  have "(be_val bs * 256 + unat b) div 256 = be_val bs"
    using unat_byte_lt [of b] by simp
  moreover have "(word_of_nat (be_val bs * 256 + unat b) :: byte) = b"
  proof -
    have "(256 :: byte) = 0" by (rule word_uint_eqI) simp
    then show ?thesis
      by (simp only: of_nat_add of_nat_mult of_nat_numeral mult_zero_right add_0) simp
  qed
  ultimately show ?case
    using snoc by auto
qed


lemma le_val_bound: "le_val bs < 256 ^ length bs"
  using be_val_bound [of "rev bs"] by (simp add: le_val_def)

lemma le_val_le_bytes [codec_simps]: "le_val (le_bytes n v) = v mod 256 ^ n"
  by (simp add: le_val_def le_bytes_def be_val_be_bytes)

lemma le_bytes_le_val [codec_simps]: "length bs = n \<Longrightarrow> le_bytes n (le_val bs) = bs"
  by (simp add: le_val_def le_bytes_def be_bytes_be_val)

section \<open>Slices\<close>

text \<open>
  \<open>position p xs\<close> is \<^verbatim>\<open>iter().position\<close>; \<open>rposition\<close> its twin from the right;
  \<open>find_sub pat xs\<close> is \<^verbatim>\<open>windows(n).position(|w| w == pat)\<close>; \<open>split_on\<close> is
  \<^verbatim>\<open>slice::split\<close>, which always yields at least one piece; \<open>get_from\<close> is \<^verbatim>\<open>get(i..)\<close>.
\<close>

fun position :: "('a \<Rightarrow> bool) \<Rightarrow> 'a list \<Rightarrow> nat option" where
  "position p [] = None"
| "position p (x # xs) = (if p x then Some 0 else map_option Suc (position p xs))"

definition rposition :: "('a \<Rightarrow> bool) \<Rightarrow> 'a list \<Rightarrow> nat option" where
  "rposition p xs = map_option (\<lambda>i. length xs - 1 - i) (position p (rev xs))"

definition starts_with :: "'a list \<Rightarrow> 'a list \<Rightarrow> bool" where
  "starts_with pre xs \<longleftrightarrow> take (length pre) xs = pre"

definition strip_prefix :: "'a list \<Rightarrow> 'a list \<Rightarrow> 'a list option" where
  "strip_prefix pre xs = (if starts_with pre xs then Some (drop (length pre) xs) else None)"

definition strip_suffix :: "'a list \<Rightarrow> 'a list \<Rightarrow> 'a list option" where
  "strip_suffix suf xs = map_option rev (strip_prefix (rev suf) (rev xs))"

fun find_sub :: "'a list \<Rightarrow> 'a list \<Rightarrow> nat option" where
  "find_sub pat [] = None"
| "find_sub pat (x # xs) =
     (if starts_with pat (x # xs) then Some 0 else map_option Suc (find_sub pat xs))"

fun split_on :: "('a \<Rightarrow> bool) \<Rightarrow> 'a list \<Rightarrow> 'a list list" where
  "split_on p [] = [[]]"
| "split_on p (x # xs) =
     (if p x then [] # split_on p xs
      else (case split_on p xs of [] \<Rightarrow> [[x]] | y # ys \<Rightarrow> (x # y) # ys))"

definition get_from :: "'a list \<Rightarrow> nat \<Rightarrow> 'a list option" where
  "get_from xs i = (if i \<le> length xs then Some (drop i xs) else None)"

text \<open>The slice \<^verbatim>\<open>xs[i..j]\<close> of indices that are in range.\<close>

definition slice :: "'a list \<Rightarrow> nat \<Rightarrow> nat \<Rightarrow> 'a list" where
  "slice xs i j = take (j - i) (drop i xs)"

lemma position_Some:
  "position p xs = Some i \<Longrightarrow> i < length xs \<and> p (xs ! i) \<and> (\<forall>j<i. \<not> p (xs ! j))"
proof (induction xs arbitrary: i)
  case Nil
  then show ?case by simp
next
  case (Cons x xs)
  then show ?case by (auto split: if_splits simp: nth_Cons split: nat.splits)
qed

lemma position_None: "position p xs = None \<longleftrightarrow> (\<forall>x \<in> set xs. \<not> p x)"
  by (induction xs) auto

lemma position_append:
  "position p (xs @ ys) =
     (case position p xs of Some i \<Rightarrow> Some i
      | None \<Rightarrow> map_option (\<lambda>i. length xs + i) (position p ys))"
  by (induction xs; cases "position p ys") (auto split: option.splits)

lemma position_take: "position p xs = Some i \<Longrightarrow> \<forall>x \<in> set (take i xs). \<not> p x"
  by (fastforce dest: position_Some simp: in_set_conv_nth)

lemma position_eq_Some:
  "i < length xs \<Longrightarrow> p (xs ! i) \<Longrightarrow> \<forall>x \<in> set (take i xs). \<not> p x \<Longrightarrow> position p xs = Some i"
proof (induction xs arbitrary: i)
  case Nil
  then show ?case by simp
next
  case (Cons x xs)
  then show ?case by (cases i) auto
qed

lemma split_on_nonempty [simp]: "split_on p xs \<noteq> []"
  by (induction xs) (auto split: list.splits)

lemma split_on_append:
  "\<forall>x \<in> set xs. \<not> p x \<Longrightarrow> p s \<Longrightarrow> split_on p (xs @ s # ys) = xs # split_on p ys"
  by (induction xs) auto

lemma split_on_no_split: "\<forall>x \<in> set xs. \<not> p x \<Longrightarrow> split_on p xs = [xs]"
  by (induction xs) auto

lemma split_on_pieces: "ys \<in> set (split_on p xs) \<Longrightarrow> y \<in> set ys \<Longrightarrow> y \<in> set xs \<and> \<not> p y"
proof (induction xs arbitrary: ys)
  case Nil
  then show ?case by simp
next
  case (Cons x xs)
  show ?case
  proof (cases "p x")
    case True
    with Cons show ?thesis by auto
  next
    case False
    obtain z zs where z: "split_on p xs = z # zs"
      by (cases "split_on p xs") auto
    with Cons.prems False have "y = x \<or> (\<exists>ws \<in> set (split_on p xs). y \<in> set ws)"
      by auto
    with Cons.IH False show ?thesis by auto
  qed
qed

lemma starts_with_append: "starts_with pre (pre @ xs)"
  by (simp add: starts_with_def)

lemma starts_with_extend: "starts_with pre xs \<Longrightarrow> starts_with pre (xs @ ys)"
  unfolding starts_with_def by (metis append_take_drop_id append.assoc append_eq_conv_conj)

lemma find_sub_Some:
  "find_sub pat xs = Some i \<Longrightarrow> i + length pat \<le> length xs \<and> starts_with pat (drop i xs)"
proof (induction xs arbitrary: i)
  case Nil
  then show ?case by simp
next
  case (Cons x xs)
  have "starts_with pat (x # xs) \<Longrightarrow> length pat \<le> Suc (length xs)"
    unfolding starts_with_def by (metis length_Cons length_take min.cobounded1)
  then show ?case
    using Cons by (fastforce split: if_splits)
qed

section \<open>Results\<close>

text \<open>
  A fallible operation returns \<open>'err + 'a\<close>, \<open>Inl\<close> the error. \<open>traverse f xs\<close> runs \<open>f\<close> over
  \<open>xs\<close> and stops at the first error, as a loop whose body ends in \<^verbatim>\<open>?\<close> does.
\<close>

definition bind_res :: "'err + 'a \<Rightarrow> ('a \<Rightarrow> 'err + 'b) \<Rightarrow> 'err + 'b" where
  "bind_res r f = (case r of Inl e \<Rightarrow> Inl e | Inr x \<Rightarrow> f x)"

lemma bind_res_simps [simp]: "bind_res (Inl e) f = Inl e" "bind_res (Inr x) f = f x"
  by (simp_all add: bind_res_def)

lemma bind_res_Inr: "bind_res r f = Inr y \<longleftrightarrow> (\<exists>x. r = Inr x \<and> f x = Inr y)"
  by (cases r) auto

fun traverse :: "('a \<Rightarrow> 'err + 'b) \<Rightarrow> 'a list \<Rightarrow> 'err + 'b list" where
  "traverse f [] = Inr []"
| "traverse f (x # xs) =
     (case f x of Inl e \<Rightarrow> Inl e
      | Inr y \<Rightarrow> (case traverse f xs of Inl e \<Rightarrow> Inl e | Inr ys \<Rightarrow> Inr (y # ys)))"

lemma traverse_Inr: "traverse f xs = Inr ys \<longleftrightarrow> list_all2 (\<lambda>x y. f x = Inr y) xs ys"
proof (induction xs arbitrary: ys)
  case Nil
  then show ?case by auto
next
  case (Cons x xs)
  have "traverse f (x # xs) = Inr ys \<longleftrightarrow> (\<exists>y zs. f x = Inr y \<and> ys = y # zs \<and> traverse f xs = Inr zs)"
    by (auto split: sum.splits)
  then show ?case
    by (auto simp: Cons.IH list_all2_Cons1)
qed

lemma traverse_map: "traverse f (map g xs) = traverse (f \<circ> g) xs"
  by (induction xs) (auto split: sum.splits)

lemma traverse_Inl: "traverse f xs = Inl e \<Longrightarrow> \<exists>x \<in> set xs. f x = Inl e"
  by (induction xs) (auto split: sum.splits)

lemma traverse_cong: "(\<And>x. x \<in> set xs \<Longrightarrow> f x = g x) \<Longrightarrow> traverse f xs = traverse g xs"
  by (induction xs) (auto split: sum.splits)

lemma traverse_all_Inr: "(\<And>x. x \<in> set xs \<Longrightarrow> f x = Inr (g x)) \<Longrightarrow> traverse f xs = Inr (map g xs)"
  by (induction xs) auto

lemma ex_nat_0_Suc: "(\<exists>n. P n) \<longleftrightarrow> P 0 \<or> (\<exists>n. P (Suc n))"
  by (metis not0_implies_Suc)

section \<open>Sorting by a small key\<close>

lemma sort_key_buckets:
  fixes f :: "'a \<Rightarrow> nat"
  assumes "\<And>x. f x < n"
  shows "sort_key f xs = concat (map (\<lambda>k. filter (\<lambda>x. f x = k) xs) [0..<n])"
proof (rule properties_for_sort_key)
  have "mset (concat (map (\<lambda>k. filter (\<lambda>x. f x = k) xs) [0..<m])) = {#x \<in># mset xs. f x < m#}" for m
    by (induction m) (auto simp: multiset_eq_iff less_Suc_eq)
  then show "mset (concat (map (\<lambda>k. filter (\<lambda>x. f x = k) xs) [0..<n])) = mset xs"
    using assms by (simp add: multiset_eq_iff)
  have one: "filter (\<lambda>x. f k = f x) (concat (map (\<lambda>k. filter (\<lambda>x. f x = k) xs) [0..<m]))
      = (if f k < m then filter (\<lambda>x. f k = f x) xs else [])" for m k
    by (induction m) (auto simp: less_Suc_eq intro!: filter_cong)
  show "filter (\<lambda>x. f k = f x) (concat (map (\<lambda>k. filter (\<lambda>x. f x = k) xs) [0..<n]))
      = filter (\<lambda>x. f k = f x) xs" for k
    using assms by (simp add: one)
  have "sorted (map f (filter (\<lambda>x. f x = m) xs))" for m
    by (induction xs) auto
  then have "sorted (map f (concat (map (\<lambda>k. filter (\<lambda>x. f x = k) xs) [0..<m])))" for m
    by (induction m) (auto simp: sorted_append)
  then show "sorted (map f (concat (map (\<lambda>k. filter (\<lambda>x. f x = k) xs) [0..<n])))" .
qed

section \<open>Bit flags\<close>

text \<open>The tests and set operations of the \<^verbatim>\<open>bitflags\<close> types, on the raw bits.\<close>

definition contains :: "'a::len word \<Rightarrow> 'a word \<Rightarrow> bool" where
  "contains fs f \<longleftrightarrow> fs AND f = f"

definition intersects :: "'a::len word \<Rightarrow> 'a word \<Rightarrow> bool" where
  "intersects fs f \<longleftrightarrow> fs AND f \<noteq> 0"

definition difference :: "'a::len word \<Rightarrow> 'a word \<Rightarrow> 'a word" where
  "difference fs f = fs AND NOT f"

lemma contains_bits: "contains fs f \<longleftrightarrow> (\<forall>n. bit f n \<longrightarrow> bit fs n)"
  unfolding contains_def by (auto simp: bit_eq_iff bit_simps dest: bit_imp_le_length)

lemma intersects_bits: "intersects fs f \<longleftrightarrow> (\<exists>n. bit fs n \<and> bit f n)"
  unfolding intersects_def by (auto simp: bit_eq_iff bit_simps dest: bit_imp_le_length)

lemma contains_exp: "n < LENGTH('a) \<Longrightarrow> contains (f :: 'a::len word) (2 ^ n) \<longleftrightarrow> bit f n"
  by (auto simp: contains_bits bit_simps)

lemma intersects_exp: "n < LENGTH('a) \<Longrightarrow> intersects (f :: 'a::len word) (2 ^ n) \<longleftrightarrow> bit f n"
  by (auto simp: intersects_bits bit_simps)

lemma and_exp_ne_zero: "n < LENGTH('a) \<Longrightarrow> f AND 2 ^ n \<noteq> 0 \<longleftrightarrow> bit f n" for f :: "'a::len word"
  using intersects_exp [of n f] by (simp add: intersects_def)

lemma bit_exp_word: "m < LENGTH('a) \<Longrightarrow> bit (2 ^ m :: 'a::len word) n \<longleftrightarrow> n = m"
  by (auto simp: bit_simps)

lemma bit_mask_word: "m \<le> LENGTH('a) \<Longrightarrow> bit (mask m :: 'a::len word) n \<longleftrightarrow> n < m"
  by (auto simp: bit_simps)

lemma intersects_or_right [flag_simps]: "intersects f (a OR b) \<longleftrightarrow> intersects f a \<or> intersects f b"
  by (auto simp: intersects_bits bit_simps)

lemma bit_difference [flag_simps]: "bit (difference a b) n \<longleftrightarrow> bit a n \<and> \<not> bit b n"
  by (auto simp: difference_def bit_simps dest: bit_imp_le_length)

lemma contains_refl [simp, flag_simps]: "contains f f"
  by (simp add: contains_bits)

lemma contains_trans: "contains a b \<Longrightarrow> contains b c \<Longrightarrow> contains a c"
  by (simp add: contains_bits)

lemma contains_or_left [flag_simps]: "contains a (b OR c) \<longleftrightarrow> contains a b \<and> contains a c"
  by (auto simp: contains_bits bit_simps)

lemma contains_antisym: "contains a b \<Longrightarrow> contains b a \<Longrightarrow> a = b"
  by (auto simp: contains_bits bit_eq_iff)

section \<open>Interfaces\<close>

subsection \<open>Fixed-width entries\<close>

text \<open>
  The contract of a table of fixed-width entries behind a header, as the two ACL wire formats
  have it: \<open>enc\<close> renders one entry, \<open>dec\<close> reads the entry at an offset, and \<open>canon d p\<close> says
  that the bytes at \<open>p\<close> are a rendering \<open>enc\<close> can produce. The loops over the table and both
  round trips are proved once from it.
\<close>

locale entry_codec =
  fixes width :: nat
    and enc :: "'e \<Rightarrow> 'x + bytes"
    and dec :: "bytes \<Rightarrow> nat \<Rightarrow> 'x + 'e"
    and wf :: "'e \<Rightarrow> bool"
    and canon :: "bytes \<Rightarrow> nat \<Rightarrow> bool"
  assumes enc_length: "enc e = Inr b \<Longrightarrow> length b = width"
    and dec_enc: "wf e \<Longrightarrow> enc e = Inr b \<Longrightarrow> length pre = p \<Longrightarrow> dec (pre @ b @ post) p = Inr e"
    and enc_dec: "dec d p = Inr e \<Longrightarrow> canon d p \<Longrightarrow> p + width \<le> length d \<Longrightarrow>
      enc e = Inr (take width (drop p d))"
begin

lemma length_table:
  assumes "traverse enc es = Inr bss"
  shows "length (concat bss) = length es * width"
proof -
  from assms have "list_all2 (\<lambda>e b. enc e = Inr b) es bss"
    by (simp add: traverse_Inr)
  then show ?thesis
    by induction (auto simp: enc_length)
qed

lemma decode_table_aux:
  assumes "list_all2 (\<lambda>e b. enc e = Inr b) es bss" "\<forall>e \<in> set es. wf e" "length hdr = h"
  shows "traverse (\<lambda>i. dec (hdr @ concat bss) (h + i * width)) [0..<length es] = Inr es"
  using assms
proof (induction es bss arbitrary: hdr h rule: list_all2_induct)
  case Nil
  then show ?case by simp
next
  case (Cons e es b bss)
  then have b: "length b = width" by (simp add: enc_length)
  have first: "dec (hdr @ b @ concat bss) h = Inr e"
    using Cons.hyps Cons.prems by (intro dec_enc) auto
  have rest: "traverse (\<lambda>i. dec ((hdr @ b) @ concat bss) (h + width + i * width)) [0..<length es] = Inr es"
    using Cons.prems b by (intro Cons.IH) auto
  have idx: "[0..<Suc (length es)] = 0 # map Suc [0..<length es]"
    by (simp add: map_Suc_upt upt_conv_Cons del: upt_Suc)
  show ?case
    using first rest by (simp add: idx traverse_map comp_def add.assoc del: upt_Suc)
qed

lemma decode_table:
  assumes "traverse enc es = Inr bss" "\<forall>e \<in> set es. wf e" "length hdr = h"
  shows "traverse (\<lambda>i. dec (hdr @ concat bss) (h + i * width)) [0..<length es] = Inr es"
  using assms by (intro decode_table_aux) (auto simp: traverse_Inr)

lemma concat_slices:
  "concat (map (\<lambda>i. take width (drop (h + i * width) d)) [0..<m]) = take (m * width) (drop h d)"
proof (induction m)
  case 0
  then show ?case by simp
next
  case (Suc m)
  have "take (Suc m * width) (drop h d) = take (m * width + width) (drop h d)"
    by (simp add: add.commute)
  also have "\<dots> = take (m * width) (drop h d) @ take width (drop (h + m * width) d)"
    unfolding take_add drop_drop by (simp add: add.commute)
  finally show ?case
    using Suc by simp
qed

lemma encode_table:
  assumes dec: "traverse (\<lambda>i. dec d (h + i * width)) [0..<n] = Inr es"
    and canon: "\<forall>i<n. canon d (h + i * width)"
    and len: "length d = h + n * width"
  shows "\<exists>bss. traverse enc es = Inr bss \<and> concat bss = drop h d"
proof -
  have "enc (es ! i) = Inr (take width (drop (h + i * width) d))" if i: "i < n" for i
  proof (rule enc_dec)
    show "dec d (h + i * width) = Inr (es ! i)"
      using dec i by (auto simp: traverse_Inr list_all2_conv_all_nth)
    show "h + i * width + width \<le> length d"
      using len i mult_le_mono1 [of "Suc i" n width] by simp
  qed (use canon i in simp)
  then have "traverse enc es = Inr (map (\<lambda>i. take width (drop (h + i * width) d)) [0..<n])"
    using dec by (auto simp: traverse_Inr list_all2_conv_all_nth)
  then show ?thesis
    using len by (auto simp: concat_slices)
qed

end

subsection \<open>Incremental parsers\<close>

text \<open>
  The contract of a parser that is asked again each time bytes arrive: it either answers that it
  is still pending or gives a verdict, and a verdict given on some bytes is the verdict on every
  extension of them. From that one law the verdict of a connection does not depend on how the
  transport cut the bytes into arrivals: \<open>first_verdict\<close> is the pump asking after each arrival.
\<close>

fun first_verdict :: "(bytes \<Rightarrow> 'v) \<Rightarrow> ('v \<Rightarrow> bool) \<Rightarrow> bytes \<Rightarrow> bytes list \<Rightarrow> 'v option" where
  "first_verdict parse pending acc [] = (if pending (parse acc) then None else Some (parse acc))"
| "first_verdict parse pending acc (s # ss) =
     (if pending (parse acc) then first_verdict parse pending (acc @ s) ss else Some (parse acc))"

locale incremental =
  fixes parse :: "bytes \<Rightarrow> 'v" and pending :: "'v \<Rightarrow> bool"
  assumes decided_stable: "\<not> pending (parse xs) \<Longrightarrow> parse (xs @ ys) = parse xs"
begin

lemma pending_prefix: "pending (parse (xs @ ys)) \<Longrightarrow> pending (parse xs)"
  using decided_stable [of xs ys] by metis

lemma segmentation_independent:
  "first_verdict parse pending acc ss =
     (if pending (parse (acc @ concat ss)) then None else Some (parse (acc @ concat ss)))"
proof (induction ss arbitrary: acc)
  case Nil
  then show ?case by simp
next
  case (Cons s ss)
  then show ?case
    using pending_prefix [of acc "s @ concat ss"] decided_stable [of acc "s @ concat ss"]
    by (cases "pending (parse acc)") simp_all
qed

lemma same_bytes_same_verdict:
  "concat ss = concat ts \<Longrightarrow> first_verdict parse pending [] ss = first_verdict parse pending [] ts"
  by (simp add: segmentation_independent)

end

end
