(* ===== verification/Tn_Error.thy ===== *)
theory Tn_Error
  imports Prelude
begin

text \<open>
  The crate's error vocabulary (\<^verbatim>\<open>src/errno.rs\<close>, \<^verbatim>\<open>src/error.rs\<close>) and the contract of the
  \<^verbatim>\<open>tn_enum!\<close> macro (\<^verbatim>\<open>src/macros.rs\<close>): a closed enumeration with an explicit integer
  representation and a partial conversion back.
\<close>

section \<open>Error numbers and errors\<close>

text \<open>
  The error numbers the modelled code distinguishes; every other one is \<open>OtherErrno\<close> with its
  number, which the code only passes on.
\<close>

datatype errno =
    EINVAL | ENODATA | EOPNOTSUPP | ERANGE | E2BIG | EINTR | ELOOP | OtherErrno int

datatype error =
    Errno errno
  | Validation string
  | Parse string

section \<open>Decimal rendering of integers\<close>

fun show_nat :: "nat \<Rightarrow> string" where
  "show_nat n =
     (if n < 10 then [char_of (48 + n)] else show_nat (n div 10) @ [char_of (48 + n mod 10)])"

declare show_nat.simps [simp del]

definition show_int :: "int \<Rightarrow> string" where
  "show_int i = (if i < 0 then ''-'' @ show_nat (nat (- i)) else show_nat (nat i))"

section \<open>Closed enumerations with a representation\<close>

text \<open>
  What \<^verbatim>\<open>tn_enum!\<close> generates: \<open>repr\<close> is the cast \<^verbatim>\<open>as $repr\<close> and \<open>try_from\<close> the \<^verbatim>\<open>TryFrom\<close>
  implementation, \<open>None\<close> standing for its \<^verbatim>\<open>Errno::EINVAL\<close>.
\<close>

locale tn_enum =
  fixes repr :: "'v \<Rightarrow> 'w::len word" and try_from :: "'w word \<Rightarrow> 'v option"
  assumes try_from_repr: "try_from (repr v) = Some v"
    and repr_try_from: "try_from w = Some v \<Longrightarrow> repr v = w"
begin

lemma repr_eq_iff: "repr v = repr v' \<longleftrightarrow> v = v'"
  using try_from_repr by (metis option.inject)

lemma try_from_None: "try_from w = None \<longleftrightarrow> w \<notin> range repr"
  using try_from_repr repr_try_from by (metis not_None_eq rangeE rangeI)

end

end
