(* ===== verification/Acl_Nfs4.thy ===== *)
theory Acl_Nfs4
  imports Tn_Error
begin

text \<open>
  NFS4 ACLs: \<^verbatim>\<open>src/sync_fs/acl/nfs4.rs\<close>. The big-endian XDR codec of \<^verbatim>\<open>system.nfs4_acl_xdr\<close>, the
  Windows-canonical ordering, ZFS's inheritance arithmetic and the structural validation.
  The lemmas give both round trips of the codec (through the \<open>entry_codec\<close> contract of the
  prelude), the ordering and stability of \<open>from_aces\<close>, the exact acceptance condition of
  \<open>validate\<close>, and the agreement of the two inheritance functions with the ZFS code the source
  transcribes.
\<close>

unbundle bit_operations_syntax

section \<open>Types and constants\<close>

definition HDR_SZ :: nat where "HDR_SZ = 8"
definition ACE_SZ :: nat where "ACE_SZ = 20"
definition ACEI4_SPECIAL_WHO :: u32 where "ACEI4_SPECIAL_WHO = 1"

datatype Nfs4AceType = Allow | Deny | Audit | Alarm

fun Nfs4AceType_repr :: "Nfs4AceType \<Rightarrow> u32" where
  "Nfs4AceType_repr Allow = 0"
| "Nfs4AceType_repr Deny = 1"
| "Nfs4AceType_repr Audit = 2"
| "Nfs4AceType_repr Alarm = 3"

definition Nfs4AceType_try_from :: "u32 \<Rightarrow> Nfs4AceType option" where
  "Nfs4AceType_try_from v =
     (if v = 0 then Some Allow else if v = 1 then Some Deny
      else if v = 2 then Some Audit else if v = 3 then Some Alarm else None)"

datatype Nfs4Who = Named | Owner | Group | Everyone

fun Nfs4Who_repr :: "Nfs4Who \<Rightarrow> u32" where
  "Nfs4Who_repr Named = 0"
| "Nfs4Who_repr Owner = 1"
| "Nfs4Who_repr Nfs4Who.Group = 2"
| "Nfs4Who_repr Everyone = 3"

text \<open>The permission bits of \<^verbatim>\<open>Nfs4Perm\<close>.\<close>

definition READ_DATA :: u32 where "READ_DATA = 0x00000001"
definition WRITE_DATA :: u32 where "WRITE_DATA = 0x00000002"
definition APPEND_DATA :: u32 where "APPEND_DATA = 0x00000004"
definition READ_NAMED_ATTRS :: u32 where "READ_NAMED_ATTRS = 0x00000008"
definition WRITE_NAMED_ATTRS :: u32 where "WRITE_NAMED_ATTRS = 0x00000010"
definition EXECUTE :: u32 where "EXECUTE = 0x00000020"
definition DELETE_CHILD :: u32 where "DELETE_CHILD = 0x00000040"
definition READ_ATTRIBUTES :: u32 where "READ_ATTRIBUTES = 0x00000080"
definition WRITE_ATTRIBUTES :: u32 where "WRITE_ATTRIBUTES = 0x00000100"
definition DELETE :: u32 where "DELETE = 0x00010000"
definition READ_ACL :: u32 where "READ_ACL = 0x00020000"
definition WRITE_ACL :: u32 where "WRITE_ACL = 0x00040000"
definition WRITE_OWNER :: u32 where "WRITE_OWNER = 0x00080000"
definition SYNCHRONIZE :: u32 where "SYNCHRONIZE = 0x00100000"

text \<open>The ACE flags of \<^verbatim>\<open>Nfs4Flag\<close> and the ACL flags of \<^verbatim>\<open>Nfs4AclFlag\<close>.\<close>

definition FILE_INHERIT :: u32 where "FILE_INHERIT = 0x01"
definition DIRECTORY_INHERIT :: u32 where "DIRECTORY_INHERIT = 0x02"
definition NO_PROPAGATE_INHERIT :: u32 where "NO_PROPAGATE_INHERIT = 0x04"
definition INHERIT_ONLY :: u32 where "INHERIT_ONLY = 0x08"
definition SUCCESSFUL_ACCESS :: u32 where "SUCCESSFUL_ACCESS = 0x10"
definition FAILED_ACCESS :: u32 where "FAILED_ACCESS = 0x20"
definition IDENTIFIER_GROUP :: u32 where "IDENTIFIER_GROUP = 0x40"
definition INHERITED :: u32 where "INHERITED = 0x80"

definition INHERIT_MASK :: u32 where
  "INHERIT_MASK = FILE_INHERIT OR DIRECTORY_INHERIT OR NO_PROPAGATE_INHERIT OR INHERIT_ONLY"

definition INHERITABLE :: u32 where
  "INHERITABLE = FILE_INHERIT OR DIRECTORY_INHERIT"

definition UNREPRESENTABLE :: u32 where
  "UNREPRESENTABLE = SUCCESSFUL_ACCESS OR FAILED_ACCESS"

definition AUTO_INHERIT :: u32 where "AUTO_INHERIT = 0x00000001"
definition PROTECTED :: u32 where "PROTECTED = 0x00000002"
definition DEFAULTED :: u32 where "DEFAULTED = 0x00000004"
definition ACL_IS_TRIVIAL :: u32 where "ACL_IS_TRIVIAL = 0x00010000"
definition ACL_IS_DIR :: u32 where "ACL_IS_DIR = 0x00020000"

lemmas nfs4_flag_defs =
  FILE_INHERIT_def DIRECTORY_INHERIT_def NO_PROPAGATE_INHERIT_def INHERIT_ONLY_def
  SUCCESSFUL_ACCESS_def FAILED_ACCESS_def IDENTIFIER_GROUP_def INHERITED_def
  INHERIT_MASK_def INHERITABLE_def UNREPRESENTABLE_def

record Nfs4Ace =
  ace_type :: Nfs4AceType
  ace_flags :: u32
  access_mask :: u32
  who_type :: Nfs4Who
  who_id :: int

record Nfs4Acl =
  acl_flags :: u32
  aces :: "Nfs4Ace list"

definition Nfs4Ace_new ::
    "Nfs4AceType \<Rightarrow> u32 \<Rightarrow> u32 \<Rightarrow> Nfs4Who \<Rightarrow> int \<Rightarrow> Nfs4Ace" where
  "Nfs4Ace_new ty fl am who wid =
     \<lparr>ace_type = ty, ace_flags = fl, access_mask = am, who_type = who,
      who_id = (if who = Named then wid else -1)\<rparr>"

section \<open>The XDR codec\<close>

text \<open>
  \<^verbatim>\<open>be32\<close> indexes and would panic out of range; \<open>from_xattr\<close> checks the exact length first, so
  every read it makes is inside the buffer (\<open>nfs4_reads_in_range\<close> below).
\<close>

definition be32 :: "bytes \<Rightarrow> nat \<Rightarrow> u32" where
  "be32 b i = word_of_nat (be_val (slice b i (i + 4)))"

definition be32_bytes :: "u32 \<Rightarrow> bytes" where
  "be32_bytes w = be_bytes 4 (unat w)"

definition named_who :: "int \<Rightarrow> error + u32" where
  "named_who wid =
     (if 0 \<le> wid \<and> wid < 2 ^ 32 then Inr (word_of_int wid)
      else Inl (Validation (''named NFS4 ACE id '' @ show_int wid @ '' is not a valid uid/gid'')))"

definition decode_ace :: "bytes \<Rightarrow> nat \<Rightarrow> error + Nfs4Ace" where
  "decode_ace data p =
     (case Nfs4AceType_try_from (be32 data p) of
        None \<Rightarrow> Inl (Parse ''invalid NFS4 ACE type'')
      | Some ty \<Rightarrow>
          (let flags = be32 data (p + 4);
               iflag = be32 data (p + 8);
               amask = be32 data (p + 12);
               who_raw = be32 data (p + 16);
               who = (if iflag AND ACEI4_SPECIAL_WHO \<noteq> 0 then
                        (if who_raw = 1 then Some (Owner, -1)
                         else if who_raw = 2 then Some (Nfs4Who.Group, -1)
                         else if who_raw = 3 then Some (Everyone, -1)
                         else None)
                      else Some (Named, uint who_raw))
           in case who of
                None \<Rightarrow> Inl (Parse ''invalid NFS4 special principal'')
              | Some (wt, wid) \<Rightarrow>
                  Inr \<lparr>ace_type = ty, ace_flags = flags, access_mask = amask,
                       who_type = wt, who_id = wid\<rparr>))"

definition from_xattr :: "bytes \<Rightarrow> error + Nfs4Acl" where
  "from_xattr data =
     (if data = [] then Inr \<lparr>acl_flags = ACL_IS_TRIVIAL, aces = []\<rparr>
      else if length data < HDR_SZ then
        Inl (Parse (''NFS4 ACL truncated: '' @ show_nat (length data) @ '' bytes''))
      else
        (let flags = be32 data 0;
             naces = unat (be32 data 4);
             need = Option.bind (checked_mul naces ACE_SZ) (\<lambda>n. checked_add n HDR_SZ)
         in if need \<noteq> Some (length data) then
              Inl (Parse (''NFS4 ACL is '' @ show_nat (length data) @ '' bytes for a declared ''
                          @ show_nat naces @ '' ACEs''))
            else
              (case traverse (\<lambda>i. decode_ace data (HDR_SZ + i * ACE_SZ)) [0..<naces] of
                 Inl e \<Rightarrow> Inl e
               | Inr as \<Rightarrow> Inr \<lparr>acl_flags = flags, aces = as\<rparr>)))"

definition encode_ace :: "Nfs4Ace \<Rightarrow> error + bytes" where
  "encode_ace a =
     (case (if who_type a = Named
            then (case named_who (who_id a) of Inl e \<Rightarrow> Inl e | Inr w \<Rightarrow> Inr (0, w))
            else Inr (1, Nfs4Who_repr (who_type a))) of
        Inl e \<Rightarrow> Inl e
      | Inr (iflag, who) \<Rightarrow>
          Inr (be32_bytes (Nfs4AceType_repr (ace_type a)) @ be32_bytes (ace_flags a)
               @ be32_bytes iflag @ be32_bytes (access_mask a) @ be32_bytes who))"

definition to_xattr :: "Nfs4Acl \<Rightarrow> error + bytes" where
  "to_xattr acl =
     (case traverse encode_ace (aces acl) of
        Inl e \<Rightarrow> Inl e
      | Inr bss \<Rightarrow>
          Inr (be32_bytes (acl_flags acl) @ be32_bytes (word_of_nat (length (aces acl)))
               @ concat bss))"

section \<open>Ordering, inheritance, validation\<close>

definition bucket_key :: "Nfs4Ace \<Rightarrow> nat" where
  "bucket_key a =
     of_bool (contains (ace_flags a) INHERITED) * 2 + of_bool (ace_type a = Allow)"

text \<open>\<^verbatim>\<open>sort_by_key\<close> is a stable sort, as the library's \<open>sort_key\<close> is.\<close>

definition from_aces :: "Nfs4Ace list \<Rightarrow> u32 \<Rightarrow> Nfs4Acl" where
  "from_aces as flags = \<lparr>acl_flags = flags, aces = sort_key bucket_key as\<rparr>"

definition trivial :: "Nfs4Acl \<Rightarrow> bool" where
  "trivial acl \<longleftrightarrow> contains (acl_flags acl) ACL_IS_TRIVIAL"

definition ace_is_inheritable :: "u32 \<Rightarrow> bool \<Rightarrow> bool" where
  "ace_is_inheritable flags is_dir =
     (if is_dir \<and> contains flags DIRECTORY_INHERIT then True
      else if contains flags FILE_INHERIT then \<not> (is_dir \<and> contains flags NO_PROPAGATE_INHERIT)
      else False)"

definition inherited_flags :: "u32 \<Rightarrow> bool \<Rightarrow> u32" where
  "inherited_flags f is_dir =
     (if is_dir \<and> \<not> contains f NO_PROPAGATE_INHERIT then
        (if contains f DIRECTORY_INHERIT then difference f INHERIT_ONLY OR INHERITED
         else (f OR INHERIT_ONLY) OR INHERITED)
      else difference f INHERIT_MASK OR INHERITED)"

definition generate_inherited_acl :: "Nfs4Acl \<Rightarrow> bool \<Rightarrow> error + Nfs4Acl" where
  "generate_inherited_acl acl is_dir =
     (let as = map (\<lambda>a. a\<lparr>ace_flags := inherited_flags (ace_flags a) is_dir\<rparr>)
                 (filter (\<lambda>a. ace_is_inheritable (ace_flags a) is_dir) (aces acl))
      in if as = [] then
           Inl (Validation ''parent ACL has no inheritable ACEs for this object type'')
         else Inr \<lparr>acl_flags = (if is_dir then ACL_IS_DIR else 0), aces = as\<rparr>)"

text \<open>One iteration of the loop of \<^verbatim>\<open>Nfs4Acl::validate\<close>: the checks of one ACE.\<close>

fun show_ace_type :: "Nfs4AceType \<Rightarrow> string" where
  "show_ace_type Allow = ''Allow''"
| "show_ace_type Deny = ''Deny''"
| "show_ace_type Audit = ''Audit''"
| "show_ace_type Alarm = ''Alarm''"

definition validate_ace :: "bool \<Rightarrow> Nfs4Ace \<Rightarrow> error + unit" where
  "validate_ace is_dir a =
     bind_res (if who_type a = Named then named_who (who_id a) else Inr 0) (\<lambda>_.
       if ace_type a = Deny \<and> who_type a \<noteq> Named then
         Inl (Validation (''DENY entries are not permitted for special principals ''
                          @ ''(OWNER@, GROUP@, EVERYONE@)''))
       else if ace_type a = Audit \<or> ace_type a = Alarm then
         Inl (Validation (show_ace_type (ace_type a) @ '' entries cannot be stored: ZFS ''
                          @ ''implements only ALLOW and DENY and refuses the rest with EINVAL''))
       else if intersects (ace_flags a) UNREPRESENTABLE then
         Inl (Validation (''SUCCESSFUL_ACCESS/FAILED_ACCESS cannot be stored: ZFS masks them out ''
                          @ ''of the ACE flags it writes, so they would read back cleared''))
       else if is_dir \<and> contains (ace_flags a) INHERIT_ONLY
               \<and> \<not> intersects (ace_flags a) INHERITABLE then
         Inl (Validation (''INHERIT_ONLY requires FILE_INHERIT or DIRECTORY_INHERIT ''
                          @ ''to also be set''))
       else if is_dir \<and> contains (ace_flags a) NO_PROPAGATE_INHERIT
               \<and> \<not> intersects (ace_flags a) INHERITABLE then
         Inl (Validation (''NO_PROPAGATE_INHERIT requires FILE_INHERIT or ''
                          @ ''DIRECTORY_INHERIT to also be set''))
       else Inr ())"

fun validate_loop :: "bool \<Rightarrow> Nfs4Ace list \<Rightarrow> bool \<Rightarrow> bool \<Rightarrow> error + (bool \<times> bool)" where
  "validate_loop is_dir [] has_propagate has_inheritable = Inr (has_propagate, has_inheritable)"
| "validate_loop is_dir (a # as) has_propagate has_inheritable =
     bind_res (validate_ace is_dir a) (\<lambda>_.
       validate_loop is_dir as
         (has_propagate \<or> intersects (ace_flags a) INHERIT_MASK)
         (has_inheritable \<or> intersects (ace_flags a) INHERITABLE))"

definition validate :: "Nfs4Acl \<Rightarrow> bool \<Rightarrow> error + unit" where
  "validate acl is_dir =
     bind_res (validate_loop is_dir (aces acl) False False) (\<lambda>(has_propagate, has_inheritable).
       if has_propagate \<and> \<not> is_dir then
         Inl (Validation (''FILE_INHERIT/DIRECTORY_INHERIT/NO_PROPAGATE_INHERIT/''
                          @ ''INHERIT_ONLY flags are only valid on directories''))
       else if is_dir \<and> \<not> has_inheritable then
         Inl (Validation
           (if trivial acl then
              ''directory ACL must contain at least one ACE with FILE_INHERIT or ''
              @ ''DIRECTORY_INHERIT; this is the trivial ACL ZFS synthesises from the mode bits, ''
              @ ''which carries none and so cannot be written back unchanged''
            else
              ''directory ACL must contain at least one ACE with FILE_INHERIT or ''
              @ ''DIRECTORY_INHERIT''))
       else Inr ())"


section \<open>Words on the wire\<close>

lemma length_be32_bytes [simp]: "length (be32_bytes w) = 4"
  by (simp add: be32_bytes_def)

lemma be32_be32_bytes [codec_simps]:
  "length pre = p \<Longrightarrow> be32 (pre @ be32_bytes w @ post) p = w"
  using unsigned_less [of w, where ?'a = nat]
  by (simp add: be32_def be32_bytes_def slice_def be_val_be_bytes)

lemma be32_bytes_be32 [codec_simps]:
  "p + 4 \<le> length d \<Longrightarrow> be32_bytes (be32 d p) = take 4 (drop p d)"
  using be_val_bound [of "slice d p (p + 4)"]
  by (simp add: be32_def be32_bytes_def slice_def unat_word_of_nat_eq be_bytes_be_val)

interpretation ace_type_enum: tn_enum Nfs4AceType_repr Nfs4AceType_try_from
proof
  fix v show "Nfs4AceType_try_from (Nfs4AceType_repr v) = Some v"
    by (cases v) (simp_all add: Nfs4AceType_try_from_def)
next
  fix w v assume "Nfs4AceType_try_from w = Some v" then show "Nfs4AceType_repr v = w"
    by (auto simp: Nfs4AceType_try_from_def split: if_splits)
qed

section \<open>The codec is an entry codec\<close>

text \<open>
  \<open>ace_wf\<close> is what \<^verbatim>\<open>Nfs4Ace::new\<close> establishes: a special principal carries the id -1.
  \<open>ace_canon\<close> says that the \<^verbatim>\<open>iflag\<close> word of an encoded entry has no bit but bit 0, the only one
  the decoder looks at.
\<close>

definition ace_wf :: "Nfs4Ace \<Rightarrow> bool" where
  "ace_wf a \<longleftrightarrow> (who_type a \<noteq> Named \<longrightarrow> who_id a = -1)"

definition ace_canon :: "bytes \<Rightarrow> nat \<Rightarrow> bool" where
  "ace_canon d p \<longleftrightarrow> be32 d (p + 8) = 0 \<or> be32 d (p + 8) = 1"

lemma ace_wf_new: "ace_wf (Nfs4Ace_new ty fl am who wid)"
  by (simp add: ace_wf_def Nfs4Ace_new_def)

lemma nfs4_encode_ace_length: "encode_ace a = Inr b \<Longrightarrow> length b = 20"
  by (auto simp: encode_ace_def split: sum.splits prod.splits)

lemma named_who_Inr: "named_who i = Inr w \<longleftrightarrow> 0 \<le> i \<and> i < 2 ^ 32 \<and> w = word_of_int i"
  by (auto simp: named_who_def)

lemma nfs4_ace_words:
  assumes "length pre = p"
    and "d = pre @ (be32_bytes a @ be32_bytes b @ be32_bytes c @ be32_bytes e @ be32_bytes f) @ post"
  shows "be32 d p = a" "be32 d (p + 4) = b" "be32 d (p + 8) = c" "be32 d (p + 12) = e"
    "be32 d (p + 16) = f"
  using assms
    be32_be32_bytes [of pre p a "be32_bytes b @ be32_bytes c @ be32_bytes e @ be32_bytes f @ post"]
    be32_be32_bytes [of "pre @ be32_bytes a" "p + 4" b "be32_bytes c @ be32_bytes e @ be32_bytes f @ post"]
    be32_be32_bytes [of "pre @ be32_bytes a @ be32_bytes b" "p + 8" c "be32_bytes e @ be32_bytes f @ post"]
    be32_be32_bytes [of "pre @ be32_bytes a @ be32_bytes b @ be32_bytes c" "p + 12" e "be32_bytes f @ post"]
    be32_be32_bytes [of "pre @ be32_bytes a @ be32_bytes b @ be32_bytes c @ be32_bytes e" "p + 16" f post]
  by simp_all

lemma decode_encode_ace:
  assumes wf: "ace_wf a" and enc: "encode_ace a = Inr b" and p: "length pre = p"
  shows "decode_ace (pre @ b @ post) p = Inr a"
proof (cases "who_type a = Named")
  case True
  with enc obtain w where w: "named_who (who_id a) = Inr w"
    and b: "b = be32_bytes (Nfs4AceType_repr (ace_type a)) @ be32_bytes (ace_flags a)
              @ be32_bytes 0 @ be32_bytes (access_mask a) @ be32_bytes w"
    by (auto simp: encode_ace_def split: sum.splits)
  from w have "uint w = who_id a"
    by (auto simp: named_who_Inr uint_word_of_int)
  with True show ?thesis
    unfolding decode_ace_def b nfs4_ace_words [OF p refl]
    by (simp add: ace_type_enum.try_from_repr)
next
  case False
  with enc have b: "b = be32_bytes (Nfs4AceType_repr (ace_type a)) @ be32_bytes (ace_flags a)
      @ be32_bytes 1 @ be32_bytes (access_mask a) @ be32_bytes (Nfs4Who_repr (who_type a))"
    by (auto simp: encode_ace_def)
  from False wf show ?thesis
    unfolding decode_ace_def b nfs4_ace_words [OF p refl]
    by (cases "who_type a")
      (simp_all add: ace_type_enum.try_from_repr ACEI4_SPECIAL_WHO_def ace_wf_def)
qed

lemma nfs4_take_words:
  "take 20 ys = take 4 ys @ take 4 (drop 4 ys) @ take 4 (drop 8 ys) @ take 4 (drop 12 ys)
     @ take 4 (drop 16 ys)"
  using take_add [of 4 16 ys] take_add [of 4 12 "drop 4 ys"] take_add [of 4 8 "drop 8 ys"]
    take_add [of 4 4 "drop 12 ys"] by simp

lemma encode_decode_ace:
  assumes dec: "decode_ace d p = Inr a" and canon: "ace_canon d p" and len: "p + 20 \<le> length d"
  shows "encode_ace a = Inr (take 20 (drop p d))"
proof -
  have words: "take 20 (drop p d) = be32_bytes (be32 d p) @ be32_bytes (be32 d (p + 4))
      @ be32_bytes (be32 d (p + 8)) @ be32_bytes (be32 d (p + 12)) @ be32_bytes (be32 d (p + 16))"
    using len by (subst nfs4_take_words) (simp add: be32_bytes_be32 add.commute)
  from dec obtain ty where ty: "Nfs4AceType_try_from (be32 d p) = Some ty"
    by (auto simp: decode_ace_def split: option.splits)
  then have "Nfs4AceType_repr ty = be32 d p"
    by (rule ace_type_enum.repr_try_from)
  with dec ty canon unsigned_less [of "be32 d (p + 16)", where ?'a = int] show ?thesis
    unfolding words
    by (auto simp: decode_ace_def encode_ace_def Let_def ace_canon_def ACEI4_SPECIAL_WHO_def
        named_who_def split: if_splits)
qed

interpretation nfs4_codec: entry_codec 20 encode_ace decode_ace ace_wf ace_canon
  by unfold_locales
    (auto simp: nfs4_encode_ace_length intro: decode_encode_ace encode_decode_ace)


lemma nfs4_need:
  "unat (n :: u32) * 20 + 8 < usize_bound"
  using unsigned_less [of n, where ?'a = nat] by (simp add: usize_bound_def)

lemma nfs4_need_eq:
  "Option.bind (checked_mul (unat (n :: u32)) ACE_SZ) (\<lambda>k. checked_add k HDR_SZ)
     = Some (unat n * 20 + 8)"
  using nfs4_need [of n] by (simp add: bind_eq_Some_conv ACE_SZ_def HDR_SZ_def)

lemma from_xattr_eq:
  assumes "data \<noteq> []"
  shows "from_xattr data =
    (if length data < 8 then Inl (Parse (''NFS4 ACL truncated: '' @ show_nat (length data) @ '' bytes''))
     else if length data \<noteq> unat (be32 data 4) * 20 + 8 then
       Inl (Parse (''NFS4 ACL is '' @ show_nat (length data) @ '' bytes for a declared ''
                   @ show_nat (unat (be32 data 4)) @ '' ACEs''))
     else map_sum (\<lambda>e. e) (\<lambda>as. \<lparr>acl_flags = be32 data 0, aces = as\<rparr>)
            (traverse (\<lambda>i. decode_ace data (8 + i * 20)) [0..<unat (be32 data 4)]))"
  using assms unfolding from_xattr_def Let_def nfs4_need_eq
  by (auto simp: HDR_SZ_def ACE_SZ_def split: sum.splits)

lemma from_xattr_Nil [simp]: "from_xattr [] = Inr \<lparr>acl_flags = ACL_IS_TRIVIAL, aces = []\<rparr>"
  by (simp add: from_xattr_def)

lemma from_xattr_Inr:
  assumes "from_xattr b = Inr acl" "b \<noteq> []"
  shows "length b = unat (be32 b 4) * 20 + 8" "acl_flags acl = be32 b 0"
    "traverse (\<lambda>i. decode_ace b (8 + i * 20)) [0..<unat (be32 b 4)] = Inr (aces acl)"
    "length (aces acl) = unat (be32 b 4)"
  using assms
  by (auto simp: from_xattr_eq map_sum_def traverse_Inr dest: list_all2_lengthD
      split: if_splits sum.splits)

text \<open>Both round trips of the codec, through the entry-codec contract.\<close>

lemma nfs4_decode_to_xattr:
  assumes enc: "to_xattr acl = Inr b" and wf: "\<forall>a \<in> set (aces acl). ace_wf a"
    and small: "length (aces acl) < 2 ^ 32"
  shows "from_xattr b = Inr acl"
proof -
  from enc obtain bss where bss: "traverse encode_ace (aces acl) = Inr bss"
    and b: "b = be32_bytes (acl_flags acl) @ be32_bytes (word_of_nat (length (aces acl))) @ concat bss"
    by (auto simp: to_xattr_def split: sum.splits)
  have n: "unat (word_of_nat (length (aces acl)) :: u32) = length (aces acl)"
    using small by (simp add: unat_word_of_nat_eq)
  have w0: "be32 b 0 = acl_flags acl" and w4: "be32 b 4 = word_of_nat (length (aces acl))"
    using be32_be32_bytes [of "[]" 0 "acl_flags acl"]
      be32_be32_bytes [of "be32_bytes (acl_flags acl)" 4]
    by (simp_all add: b)
  have len: "length b = length (aces acl) * 20 + 8"
    using nfs4_codec.length_table [OF bss] by (simp add: b)
  have tab: "traverse (\<lambda>i. decode_ace b (8 + i * 20)) [0..<length (aces acl)] = Inr (aces acl)"
    using nfs4_codec.decode_table [OF bss wf, of "be32_bytes (acl_flags acl)
        @ be32_bytes (word_of_nat (length (aces acl)))" 8] by (simp add: b)
  from len have "b \<noteq> []" by auto
  then show ?thesis
    by (simp add: from_xattr_eq w0 w4 n len tab)
qed

lemma nfs4_encode_from_xattr:
  assumes dec: "from_xattr b = Inr acl" and "b \<noteq> []"
    and canon: "\<forall>i < length (aces acl). ace_canon b (8 + i * 20)"
  shows "to_xattr acl = Inr b"
proof -
  note d = from_xattr_Inr [OF dec \<open>b \<noteq> []\<close>]
  obtain bss where "traverse encode_ace (aces acl) = Inr bss" "concat bss = drop 8 b"
    using nfs4_codec.encode_table [OF d(3)] canon d by auto
  moreover have "be32_bytes (be32 b 0) @ be32_bytes (be32 b 4) @ drop 8 b = b"
    using d(1) take_add [of 4 4 b] append_take_drop_id [of 8 b]
    by (simp add: be32_bytes_be32 flip: append_assoc)
  ultimately show ?thesis
    by (simp add: to_xattr_def d)
qed


lemma from_xattr_wf:
  assumes "from_xattr b = Inr acl" "a \<in> set (aces acl)"
  shows "ace_wf a \<and> (who_type a = Named \<longrightarrow> 0 \<le> who_id a \<and> who_id a < 2 ^ 32)"
proof -
  have dec: "ace_wf a \<and> (who_type a = Named \<longrightarrow> 0 \<le> who_id a \<and> who_id a < 2 ^ 32)"
    if "decode_ace b p = Inr a" for p
    using that unsigned_less [of "be32 b (p + 16)", where ?'a = int]
    by (auto simp: decode_ace_def ace_wf_def Let_def split: option.splits if_splits)
  from assms obtain i where "decode_ace b (8 + i * 20) = Inr a"
    using from_xattr_Inr(3) [of b acl]
    by (cases "b = []") (auto simp: traverse_Inr list_all2_conv_all_nth in_set_conv_nth)
  then show ?thesis by (rule dec)
qed

lemma from_xattr_length:
  assumes "from_xattr b = Inr acl"
  shows "length (aces acl) < 2 ^ 32"
  using assms from_xattr_Inr(4) [of b acl] unsigned_less [of "be32 b 4", where ?'a = nat]
  by (cases "b = []") auto

lemma to_xattr_total:
  assumes "\<forall>a \<in> set (aces acl). who_type a = Named \<longrightarrow> 0 \<le> who_id a \<and> who_id a < 2 ^ 32"
  obtains b where "to_xattr acl = Inr b" "length b = 8 + 20 * length (aces acl)"
proof -
  have "\<exists>b. encode_ace a = Inr b" if "a \<in> set (aces acl)" for a
    using assms that by (auto simp: encode_ace_def named_who_def)
  then obtain f where "\<And>a. a \<in> set (aces acl) \<Longrightarrow> encode_ace a = Inr (f a)"
    by metis
  then have tr: "traverse encode_ace (aces acl) = Inr (map f (aces acl))"
    by (rule traverse_all_Inr)
  show thesis
    using that nfs4_codec.length_table [OF tr] by (simp add: to_xattr_def tr)
qed

section \<open>Flags as bits\<close>

lemma nfs4_contains [flag_simps]:
  "contains f FILE_INHERIT \<longleftrightarrow> bit f 0" "contains f DIRECTORY_INHERIT \<longleftrightarrow> bit f 1"
  "contains f NO_PROPAGATE_INHERIT \<longleftrightarrow> bit f 2" "contains f INHERIT_ONLY \<longleftrightarrow> bit f 3"
  "contains f INHERITED \<longleftrightarrow> bit f 7"
  using contains_exp [of 0 f] contains_exp [of 1 f] contains_exp [of 2 f] contains_exp [of 3 f]
    contains_exp [of 7 f]
  by (simp_all add: nfs4_flag_defs)

lemma nfs4_intersects [flag_simps]:
  "intersects f FILE_INHERIT \<longleftrightarrow> bit f 0" "intersects f DIRECTORY_INHERIT \<longleftrightarrow> bit f 1"
  "intersects f NO_PROPAGATE_INHERIT \<longleftrightarrow> bit f 2" "intersects f INHERIT_ONLY \<longleftrightarrow> bit f 3"
  "intersects f SUCCESSFUL_ACCESS \<longleftrightarrow> bit f 4" "intersects f FAILED_ACCESS \<longleftrightarrow> bit f 5"
  using intersects_exp [of 0 f] intersects_exp [of 1 f] intersects_exp [of 2 f]
    intersects_exp [of 3 f] intersects_exp [of 4 f] intersects_exp [of 5 f]
  by (simp_all add: nfs4_flag_defs)

lemma nfs4_intersects_sets [flag_simps]:
  "intersects f INHERITABLE \<longleftrightarrow> bit f 0 \<or> bit f 1"
  "intersects f INHERIT_MASK \<longleftrightarrow> bit f 0 \<or> bit f 1 \<or> bit f 2 \<or> bit f 3"
  "intersects f UNREPRESENTABLE \<longleftrightarrow> bit f 4 \<or> bit f 5"
  by (auto simp: INHERITABLE_def INHERIT_MASK_def UNREPRESENTABLE_def intersects_or_right
      nfs4_intersects)

lemma bit_flag_numerals:
  "bit (0x80 :: u32) n \<longleftrightarrow> n = 7" "bit (0x8 :: u32) n \<longleftrightarrow> n = 3"
  "bit (0xF :: u32) n \<longleftrightarrow> n < 4" "bit (0x8F :: u32) n \<longleftrightarrow> n < 4 \<or> n = 7"
proof -
  have eqs: "(0x80 :: u32) = 2 ^ 7" "(0x8 :: u32) = 2 ^ 3" "(0xF :: u32) = mask 4"
    "(0x8F :: u32) = mask 4 OR 2 ^ 7"
    by (simp_all add: mask_eq_exp_minus_1)
  show "bit (0x80 :: u32) n \<longleftrightarrow> n = 7"
    unfolding eqs(1) by (rule bit_exp_word) simp
  show "bit (0x8 :: u32) n \<longleftrightarrow> n = 3"
    unfolding eqs(2) by (rule bit_exp_word) simp
  show "bit (0xF :: u32) n \<longleftrightarrow> n < 4"
    unfolding eqs(3) by (rule bit_mask_word) simp
  show "bit (0x8F :: u32) n \<longleftrightarrow> n < 4 \<or> n = 7"
    unfolding eqs(4) bit_or_iff using bit_mask_word [of 4, where ?'a = 32] bit_exp_word [of 7, where ?'a = 32]
    by (simp del: power_numeral)
qed

lemma bit_nfs4_flags [flag_simps]:
  "bit INHERIT_ONLY n \<longleftrightarrow> n = 3" "bit INHERITED n \<longleftrightarrow> n = 7"
  "bit INHERIT_MASK n \<longleftrightarrow> n < 4"
  by (simp_all add: nfs4_flag_defs bit_flag_numerals del: bit_numeral_word_iff)

lemma bit_inherited_flags:
  "bit (inherited_flags f is_dir) n \<longleftrightarrow>
     n = 7 \<or> (if is_dir \<and> \<not> bit f 2 then if n = 3 then \<not> bit f 1 else bit f n
              else 4 \<le> n \<and> bit f n)"
  by (auto simp: inherited_flags_def flag_simps bit_or_iff)

section \<open>The ZFS reference for inheritance\<close>

text \<open>
  The C code of ZFS that the comments of \<^verbatim>\<open>ace_is_inheritable\<close> and \<^verbatim>\<open>inherited_flags\<close> transcribe,
  with ZFS's own bit values.
\<close>

definition zfs_ace_can_use :: "u32 \<Rightarrow> bool \<Rightarrow> bool" where
  "zfs_ace_can_use iflags isdir =
     (if isdir \<and> iflags AND 0x2 \<noteq> 0 then True
      else if iflags AND 0x1 \<noteq> 0 then \<not> (isdir \<and> iflags AND 0x4 \<noteq> 0)
      else False)"

definition zfs_newflags :: "u32 \<Rightarrow> bool \<Rightarrow> u32" where
  "zfs_newflags iflags isdir =
     (let newflags = iflags OR 0x80
      in if \<not> isdir \<or> iflags AND 0x4 \<noteq> 0 then (newflags AND NOT 0x8F) OR 0x80
         else if iflags AND (0x1 OR 0x2) = 0x1 then (newflags OR 0x8) OR 0x80
         else (newflags AND NOT 0x8) OR 0x80)"

lemma and_numeral_ne_zero:
  "f AND 1 \<noteq> 0 \<longleftrightarrow> bit f 0" "f AND 2 \<noteq> 0 \<longleftrightarrow> bit f 1" "f AND 4 \<noteq> 0 \<longleftrightarrow> bit f 2" for f :: u32
  using and_exp_ne_zero [of 0 f] and_exp_ne_zero [of 1 f] and_exp_ne_zero [of 2 f] by simp_all

lemma zfs_ace_can_use_eq: "zfs_ace_can_use f is_dir = ace_is_inheritable f is_dir"
  by (simp add: zfs_ace_can_use_def ace_is_inheritable_def flag_simps and_numeral_ne_zero)

lemma and_mask_two_eq_one: "f AND mask 2 = 1 \<longleftrightarrow> bit f 0 \<and> \<not> bit f 1" for f :: u32
proof
  assume "f AND mask 2 = 1"
  then have "bit (f AND mask 2) n \<longleftrightarrow> bit (1 :: u32) n" for n by simp
  from this [of 0] this [of 1] show "bit f 0 \<and> \<not> bit f 1"
    by (simp add: bit_simps)
next
  assume "bit f 0 \<and> \<not> bit f 1"
  then show "f AND mask 2 = 1"
    by (intro bit_eqI) (auto simp: bit_simps less_2_cases_iff)
qed

lemma and_three_eq_one: "f AND (1 OR 2) = 1 \<longleftrightarrow> bit f 0 \<and> \<not> bit f 1" for f :: u32
  using and_mask_two_eq_one [of f] by (simp add: mask_eq_exp_minus_1)

lemma zfs_newflags_eq:
  assumes "ace_is_inheritable f is_dir"
  shows "zfs_newflags f is_dir = inherited_flags f is_dir"
  using assms
  unfolding zfs_newflags_def Let_def and_numeral_ne_zero and_three_eq_one
    difference_def [symmetric]
  by (intro bit_eqI)
    (auto simp: bit_inherited_flags ace_is_inheritable_def nfs4_contains
      bit_flag_numerals bit_or_iff bit_difference
      simp del: bit_numeral_word_iff split: if_splits)


section \<open>Validation\<close>

text \<open>
  What the write path may store, written over the bits of the flags: the specification that
  \<open>validate\<close> is compared with.
\<close>

definition ace_storable :: "bool \<Rightarrow> Nfs4Ace \<Rightarrow> bool" where
  "ace_storable is_dir a \<longleftrightarrow>
     ace_type a \<in> {Allow, Deny} \<and>
     (if who_type a = Named then 0 \<le> who_id a \<and> who_id a < 2 ^ 32 else ace_type a = Allow) \<and>
     \<not> bit (ace_flags a) 4 \<and> \<not> bit (ace_flags a) 5 \<and>
     (if is_dir then bit (ace_flags a) 2 \<or> bit (ace_flags a) 3 \<longrightarrow> bit (ace_flags a) 0 \<or> bit (ace_flags a) 1
      else \<forall>n \<in> {0, 1, 2, 3}. \<not> bit (ace_flags a) n)"

lemma validate_ace_Inr:
  "validate_ace is_dir a = Inr u \<longleftrightarrow>
     ace_type a \<in> {Allow, Deny} \<and>
     (if who_type a = Named then 0 \<le> who_id a \<and> who_id a < 2 ^ 32 else ace_type a = Allow) \<and>
     \<not> bit (ace_flags a) 4 \<and> \<not> bit (ace_flags a) 5 \<and>
     (is_dir \<longrightarrow> bit (ace_flags a) 2 \<or> bit (ace_flags a) 3 \<longrightarrow> bit (ace_flags a) 0 \<or> bit (ace_flags a) 1)"
  by (cases "ace_type a"; cases "who_type a = Named"; cases is_dir)
    (auto simp: validate_ace_def named_who_def flag_simps)

lemma validate_loop_Inr:
  "validate_loop is_dir as p i = Inr (p', i') \<longleftrightarrow>
     (\<forall>a \<in> set as. validate_ace is_dir a = Inr ()) \<and>
     p' = (p \<or> (\<exists>a \<in> set as. intersects (ace_flags a) INHERIT_MASK)) \<and>
     i' = (i \<or> (\<exists>a \<in> set as. intersects (ace_flags a) INHERITABLE))"
  by (induction as arbitrary: p i) (auto simp: bind_res_Inr)

lemma nfs4_validate_Inr:
  "Acl_Nfs4.validate acl is_dir = Inr () \<longleftrightarrow>
     (\<forall>a \<in> set (aces acl). ace_storable is_dir a) \<and>
     (is_dir \<longrightarrow> (\<exists>a \<in> set (aces acl). bit (ace_flags a) 0 \<or> bit (ace_flags a) 1))"
  by (cases is_dir)
    (auto simp: validate_def bind_res_Inr validate_loop_Inr validate_ace_Inr ace_storable_def
      nfs4_intersects_sets split: prod.splits if_splits)

lemma ace_storable_named:
  "ace_storable is_dir a \<Longrightarrow> who_type a = Named \<longrightarrow> 0 \<le> who_id a \<and> who_id a < 2 ^ 32"
  by (auto simp: ace_storable_def)

section \<open>Canonical order\<close>

lemma bucket_key_lt: "bucket_key a < 4"
  by (auto simp: bucket_key_def)

lemma bucket_key_iff:
  "bucket_key a = 0 \<longleftrightarrow> \<not> bit (ace_flags a) 7 \<and> ace_type a \<noteq> Allow"
  "bucket_key a = 1 \<longleftrightarrow> \<not> bit (ace_flags a) 7 \<and> ace_type a = Allow"
  "bucket_key a = 2 \<longleftrightarrow> bit (ace_flags a) 7 \<and> ace_type a \<noteq> Allow"
  "bucket_key a = 3 \<longleftrightarrow> bit (ace_flags a) 7 \<and> ace_type a = Allow"
  by (auto simp: bucket_key_def nfs4_contains of_bool_def)

section \<open>Properties\<close>

text \<open>
  C4. Encoding is total on what the write path accepts and loses nothing: an ACL that
  \<open>validate\<close> accepts, whose special entries carry the id -1 and whose entry count fits the
  32-bit count field, encodes to exactly 8 + 20 n bytes, and decoding these bytes gives the
  same ACL.
\<close>

theorem nfs4_validated_roundtrip:
  assumes "Acl_Nfs4.validate acl is_dir = Inr ()"
    and "\<forall>a \<in> set (aces acl). ace_wf a"
    and "length (aces acl) < 2 ^ 32"
  shows "\<exists>b. to_xattr acl = Inr b \<and> length b = 8 + 20 * length (aces acl) \<and> Acl_Nfs4.from_xattr b = Inr acl"
proof -
  from assms(1) have "\<forall>a \<in> set (aces acl). who_type a = Named \<longrightarrow> 0 \<le> who_id a \<and> who_id a < 2 ^ 32"
    unfolding nfs4_validate_Inr using ace_storable_named by blast
  then obtain b where "to_xattr acl = Inr b" "length b = 8 + 20 * length (aces acl)"
    by (rule to_xattr_total)
  with nfs4_decode_to_xattr assms(2,3) show ?thesis by blast
qed

definition sample_acl :: Nfs4Acl where
  "sample_acl = \<lparr>acl_flags = 0, aces =
     [Nfs4Ace_new Allow (FILE_INHERIT OR DIRECTORY_INHERIT) 0x1601BF Owner 0,
      Nfs4Ace_new Deny (FILE_INHERIT OR NO_PROPAGATE_INHERIT) 0x2 Named 3000]\<rparr>"

lemmas sample_acl_simps =
  sample_acl_def Nfs4Ace_new_def ace_wf_def nfs4_flag_defs

theorem nfs4_validated_roundtrip_witness:
  "\<exists>b. to_xattr sample_acl = Inr b \<and> length b = 48 \<and> Acl_Nfs4.from_xattr b = Inr sample_acl"
  using nfs4_validated_roundtrip [of sample_acl True]
  by (simp add: nfs4_validate_Inr ace_storable_def sample_acl_simps)

text \<open>
  Decoding never yields an ACL that cannot be written: whatever \<open>from_xattr\<close> accepts
  re-encodes, the re-encoding decodes to the same ACL, and it is byte for byte the input when
  the input is not the empty sentinel and its \<^verbatim>\<open>iflag\<close> words are 0 or 1.
\<close>

theorem nfs4_decoded_roundtrip:
  assumes "Acl_Nfs4.from_xattr d = Inr acl"
  shows "\<exists>b. to_xattr acl = Inr b \<and> Acl_Nfs4.from_xattr b = Inr acl \<and>
    (d \<noteq> [] \<and> (\<forall>i < length (aces acl). ace_canon d (8 + i * 20)) \<longrightarrow> b = d)"
proof -
  have wf: "\<forall>a \<in> set (aces acl). ace_wf a"
    and ids: "\<forall>a \<in> set (aces acl). who_type a = Named \<longrightarrow> 0 \<le> who_id a \<and> who_id a < 2 ^ 32"
    using from_xattr_wf [OF assms] by auto
  from ids obtain b where "to_xattr acl = Inr b" by (rule to_xattr_total)
  moreover from this wf from_xattr_length [OF assms] have "Acl_Nfs4.from_xattr b = Inr acl"
    by (rule nfs4_decode_to_xattr)
  ultimately show ?thesis
    using nfs4_encode_from_xattr [OF assms] by auto
qed

definition sample_blob :: bytes where
  "sample_blob = be32_bytes 0 @ be32_bytes 1 @ be32_bytes 0 @ be32_bytes 3 @ be32_bytes 1
     @ be32_bytes 0x20 @ be32_bytes 3"

lemma sample_blob_eq: "sample_blob = [0,0,0,0, 0,0,0,1, 0,0,0,0, 0,0,0,3, 0,0,0,1, 0,0,0,32, 0,0,0,3]"
  by code_simp

lemma sample_canon: "ace_canon sample_blob 8"
  by code_simp

theorem nfs4_decoded_roundtrip_witness:
  "to_xattr \<lparr>acl_flags = 0, aces =
     [\<lparr>ace_type = Allow, ace_flags = 3, access_mask = 0x20, who_type = Everyone, who_id = -1\<rparr>]\<rparr>
   = Inr sample_blob"
proof -
  let ?acl = "\<lparr>acl_flags = 0, aces =
     [\<lparr>ace_type = Allow, ace_flags = 3, access_mask = 0x20, who_type = Everyone, who_id = -1\<rparr>]\<rparr>"
  have "Acl_Nfs4.from_xattr sample_blob = Inr ?acl"
    by code_simp
  from nfs4_decoded_roundtrip [OF this] sample_canon show ?thesis
    using sample_blob_eq by auto
qed

text \<open>
  The exact acceptance condition of \<open>validate\<close>: every entry is an ALLOW or, for a named
  principal with a 32-bit id, a DENY; no audit flag is set; no inheritance bit is set on a
  file, and on a directory the two modifier bits come with an inheritable bit; and a directory
  has at least one inheritable entry.
\<close>

theorem nfs4_validate_iff:
  "Acl_Nfs4.validate acl is_dir = Inr () \<longleftrightarrow>
     list_all (ace_storable is_dir) (aces acl) \<and>
     (is_dir \<longrightarrow> list_ex (\<lambda>a. bit (ace_flags a) 0 \<or> bit (ace_flags a) 1) (aces acl))"
  by (simp add: nfs4_validate_Inr list_all_iff list_ex_iff)

theorem nfs4_validate_iff_witness:
  "Acl_Nfs4.validate sample_acl True = Inr () \<and> Acl_Nfs4.validate sample_acl False \<noteq> Inr ()"
  unfolding nfs4_validate_iff
  by (simp add: ace_storable_def sample_acl_simps)


text \<open>
  \<open>from_aces\<close> puts the entries in Windows-canonical order and is stable: explicit
  non-ALLOW entries, explicit ALLOW, inherited non-ALLOW, inherited ALLOW, each group in its
  original order and nothing lost or duplicated.
\<close>

theorem nfs4_from_aces_canonical:
  "Acl_Nfs4.from_aces as flags =
     \<lparr>acl_flags = flags,
      aces = filter (\<lambda>a. \<not> bit (ace_flags a) 7 \<and> ace_type a \<noteq> Allow) as
           @ filter (\<lambda>a. \<not> bit (ace_flags a) 7 \<and> ace_type a = Allow) as
           @ filter (\<lambda>a. bit (ace_flags a) 7 \<and> ace_type a \<noteq> Allow) as
           @ filter (\<lambda>a. bit (ace_flags a) 7 \<and> ace_type a = Allow) as\<rparr>"
proof -
  have "sort_key bucket_key as = concat (map (\<lambda>k. filter (\<lambda>a. bucket_key a = k) as) [0..<4])"
    by (rule sort_key_buckets) (rule bucket_key_lt)
  also have "[0..<4] = [0, 1, 2, 3 :: nat]"
    by (simp add: upt_rec)
  finally show ?thesis
    by (simp add: from_aces_def bucket_key_iff del: One_nat_def)
qed

text \<open>
  C6. The inherited ACL is the one ZFS computes: the entries ZFS's \<^verbatim>\<open>zfs_ace_can_use\<close> admits for
  the child, in order, with ZFS's new flags and everything else untouched; and the operation
  fails exactly when ZFS passes nothing down.
\<close>

theorem nfs4_inherit_matches_zfs:
  "Acl_Nfs4.generate_inherited_acl acl is_dir =
     (let child = map (\<lambda>a. a\<lparr>ace_flags := zfs_newflags (ace_flags a) is_dir\<rparr>)
                    (filter (\<lambda>a. zfs_ace_can_use (ace_flags a) is_dir) (aces acl))
      in if child = [] then Inl (Validation ''parent ACL has no inheritable ACEs for this object type'')
         else Inr \<lparr>acl_flags = (if is_dir then 0x20000 else 0), aces = child\<rparr>)"
proof -
  have "map (\<lambda>a. a\<lparr>ace_flags := zfs_newflags (ace_flags a) is_dir\<rparr>)
          (filter (\<lambda>a. zfs_ace_can_use (ace_flags a) is_dir) (aces acl))
      = map (\<lambda>a. a\<lparr>ace_flags := inherited_flags (ace_flags a) is_dir\<rparr>)
          (filter (\<lambda>a. ace_is_inheritable (ace_flags a) is_dir) (aces acl))"
    by (auto simp: zfs_ace_can_use_eq zfs_newflags_eq)
  then show ?thesis
    by (simp add: generate_inherited_acl_def ACL_IS_DIR_def)
qed

text \<open>
  When a prediction is writable: if the parent directory's ACL validates, the ACL predicted
  for a child file always validates, and the one predicted for a child directory validates
  exactly when some directory-inheritable parent entry does not carry \<^verbatim>\<open>NO_PROPAGATE_INHERIT\<close>.
\<close>

theorem nfs4_inherited_writable:
  assumes parent: "Acl_Nfs4.validate acl True = Inr ()"
    and child: "Acl_Nfs4.generate_inherited_acl acl is_dir = Inr c"
  shows "Acl_Nfs4.validate c is_dir = Inr () \<longleftrightarrow>
    \<not> is_dir \<or> (\<exists>a \<in> set (aces acl). ace_is_inheritable (ace_flags a) True
                                   \<and> \<not> contains (ace_flags a) NO_PROPAGATE_INHERIT)"
proof -
  have aces: "aces c = map (\<lambda>a. a\<lparr>ace_flags := inherited_flags (ace_flags a) is_dir\<rparr>)
      (filter (\<lambda>a. ace_is_inheritable (ace_flags a) is_dir) (aces acl))"
    using child by (auto simp: generate_inherited_acl_def Let_def split: if_splits)
  have "ace_storable is_dir (a\<lparr>ace_flags := inherited_flags (ace_flags a) is_dir\<rparr>)"
    if "a \<in> set (aces acl)" "ace_is_inheritable (ace_flags a) is_dir" for a
    using parent that
    by (auto simp: nfs4_validate_Inr ace_storable_def bit_inherited_flags ace_is_inheritable_def
        nfs4_contains split: if_splits)
  then show ?thesis
    by (auto simp: nfs4_validate_Inr aces bit_inherited_flags ace_is_inheritable_def nfs4_contains
        split: if_splits)
qed

theorem nfs4_inherited_writable_witness:
  "\<exists>c. Acl_Nfs4.generate_inherited_acl sample_acl True = Inr c \<and> Acl_Nfs4.validate c True = Inr ()"
proof -
  have ok: "Acl_Nfs4.validate sample_acl True = Inr ()" by code_simp
  have "\<not> isl (Acl_Nfs4.generate_inherited_acl sample_acl True)" by code_simp
  then obtain c where c: "Acl_Nfs4.generate_inherited_acl sample_acl True = Inr c"
    by (metis sum.collapse(2))
  have "\<exists>a \<in> set (aces sample_acl). ace_is_inheritable (ace_flags a) True
      \<and> \<not> contains (ace_flags a) NO_PROPAGATE_INHERIT"
    by code_simp
  with nfs4_inherited_writable [OF ok c] c show ?thesis by blast
qed

end
