(* ===== verification/Acl_Posix.thy ===== *)
theory Acl_Posix
  imports Tn_Error "HOL-Library.Product_Lexorder"
begin

text \<open>
  POSIX.1e ACLs: \<^verbatim>\<open>src/sync_fs/acl/posix.rs\<close>. The little-endian codec of
  \<^verbatim>\<open>system.posix_acl_access\<close> and \<^verbatim>\<open>system.posix_acl_default\<close>, the create-mode intersection of an
  inherited ACL, the ACL synthesised from mode bits, and the structural validation.
  The lemmas give both round trips of the codec, the shape of a validated entry list (which is
  the language of a five-state automaton), and a closed form of the create-mode intersection.
\<close>

unbundle bit_operations_syntax

section \<open>Types and constants\<close>

definition HDR_SZ :: nat where "HDR_SZ = 4"
definition ACE_SZ :: nat where "ACE_SZ = 8"
definition VERSION :: u32 where "VERSION = 2"
definition SPECIAL_ID :: u32 where "SPECIAL_ID = 0xFFFFFFFF"

datatype PosixTag = UserObj | User | GroupObj | Group | Mask | Other

fun PosixTag_repr :: "PosixTag \<Rightarrow> u16" where
  "PosixTag_repr UserObj = 0x01"
| "PosixTag_repr User = 0x02"
| "PosixTag_repr GroupObj = 0x04"
| "PosixTag_repr PosixTag.Group = 0x08"
| "PosixTag_repr Mask = 0x10"
| "PosixTag_repr Other = 0x20"

definition PosixTag_try_from :: "u16 \<Rightarrow> PosixTag option" where
  "PosixTag_try_from v =
     (if v = 0x01 then Some UserObj else if v = 0x02 then Some User
      else if v = 0x04 then Some GroupObj else if v = 0x08 then Some PosixTag.Group
      else if v = 0x10 then Some Mask else if v = 0x20 then Some Other else None)"

definition is_special :: "PosixTag \<Rightarrow> bool" where
  "is_special t \<longleftrightarrow> t = UserObj \<or> t = GroupObj \<or> t = Mask \<or> t = Other"

text \<open>The permission bits of \<^verbatim>\<open>PosixPerm\<close>.\<close>

definition EXECUTE :: u16 where "EXECUTE = 0x1"
definition WRITE :: u16 where "WRITE = 0x2"
definition READ :: u16 where "READ = 0x4"
definition PosixPerm_all :: u16 where "PosixPerm_all = EXECUTE OR WRITE OR READ"

definition PosixPerm_from_bits_truncate :: "u16 \<Rightarrow> u16" where
  "PosixPerm_from_bits_truncate b = b AND PosixPerm_all"

record PosixAce =
  tag :: PosixTag
  perms :: u16
  aid :: int
  default_ace :: bool

record PosixAcl =
  access :: "PosixAce list"
  default_acl :: "PosixAce list option"
  synthesized :: bool

section \<open>The create-mode intersection\<close>

text \<open>
  The three expressions \<^verbatim>\<open>create_masq\<close> is built from: the permissions a class has in the mode,
  \<^verbatim>\<open>from_bits_truncate(((m >> sh) as u16) & RWX)\<close>; the mode narrowed to a class's permissions,
  \<^verbatim>\<open>m & ((bits << sh) | !class)\<close>; and the returned mode.
\<close>

definition mode_class :: "nat \<Rightarrow> u32 \<Rightarrow> u16" where
  "mode_class sh m = PosixPerm_from_bits_truncate (ucast (drop_bit sh m) AND 7)"

definition mode_narrow :: "u32 \<Rightarrow> nat \<Rightarrow> u16 \<Rightarrow> u32 \<Rightarrow> u32" where
  "mode_narrow m sh p cls = m AND (push_bit sh (ucast p) OR NOT cls)"

definition mode_splice :: "u32 \<Rightarrow> u32 \<Rightarrow> u32" where
  "mode_splice mode m = (mode AND NOT 0x1FF) OR (m AND 0x1FF)"

text \<open>
  The loop of \<^verbatim>\<open>create_masq\<close> from index \<open>i\<close> on: the entries rewritten, the mode narrowed, and the
  indices of the last \<^verbatim>\<open>GroupObj\<close> and the last \<^verbatim>\<open>Mask\<close> entry seen.
\<close>

fun create_masq_loop ::
    "nat \<Rightarrow> PosixAce list \<Rightarrow> u32 \<Rightarrow> nat option \<Rightarrow> nat option
      \<Rightarrow> PosixAce list \<times> u32 \<times> nat option \<times> nat option" where
  "create_masq_loop i [] m group_obj mask_obj = ([], m, group_obj, mask_obj)"
| "create_masq_loop i (a # as) m group_obj mask_obj =
     (let (a', m', g', k') =
        (case tag a of
           UserObj \<Rightarrow>
             (let p = perms a AND mode_class 6 m
              in (a\<lparr>perms := p\<rparr>, mode_narrow m 6 p 0x1C0, group_obj, mask_obj))
         | Other \<Rightarrow>
             (let p = perms a AND mode_class 0 m
              in (a\<lparr>perms := p\<rparr>, mode_narrow m 0 p 0x7, group_obj, mask_obj))
         | GroupObj \<Rightarrow> (a, m, Some i, mask_obj)
         | Mask \<Rightarrow> (a, m, group_obj, Some i)
         | User \<Rightarrow> (a, m, group_obj, mask_obj)
         | PosixTag.Group \<Rightarrow> (a, m, group_obj, mask_obj));
      (as', r) = create_masq_loop (Suc i) as m' g' k'
      in (a' # as', r))"

definition create_masq :: "PosixAce list \<Rightarrow> u32 \<Rightarrow> error + (PosixAce list \<times> u32)" where
  "create_masq acc mode =
     (let (as, m, group_obj, mask_obj) = create_masq_loop 0 acc mode None None
      in case (if mask_obj \<noteq> None then mask_obj else group_obj) of
           None \<Rightarrow> Inl (Validation ''ACL has neither a MASK nor a GROUP_OBJ entry'')
         | Some g \<Rightarrow>
             (let a = as ! g;
                  p = perms a AND mode_class 3 m;
                  m' = mode_narrow m 3 p 0x38
              in Inr (as[g := a\<lparr>perms := p\<rparr>], mode_splice mode m')))"

section \<open>The codec\<close>

definition le16 :: "bytes \<Rightarrow> nat \<Rightarrow> u16" where
  "le16 b i = word_of_nat (le_val (slice b i (i + 2)))"

definition le32 :: "bytes \<Rightarrow> nat \<Rightarrow> u32" where
  "le32 b i = word_of_nat (le_val (slice b i (i + 4)))"

definition le16_bytes :: "u16 \<Rightarrow> bytes" where
  "le16_bytes w = le_bytes 2 (unat w)"

definition le32_bytes :: "u32 \<Rightarrow> bytes" where
  "le32_bytes w = le_bytes 4 (unat w)"

definition parse_ace :: "bool \<Rightarrow> bytes \<Rightarrow> nat \<Rightarrow> error + PosixAce" where
  "parse_ace is_default data p =
     (case PosixTag_try_from (le16 data p) of
        None \<Rightarrow> Inl (Parse ''unknown POSIX ACL tag'')
      | Some t \<Rightarrow>
          (let ps = le16 data (p + 2); xid = le32 data (p + 4)
           in if is_special t then
                Inr \<lparr>tag = t, perms = ps, aid = -1, default_ace = is_default\<rparr>
              else if xid = SPECIAL_ID then
                Inl (Parse ''POSIX ACL named entry carries the undefined-id sentinel'')
              else Inr \<lparr>tag = t, perms = ps, aid = uint xid, default_ace = is_default\<rparr>))"

definition parse_aces :: "bytes \<Rightarrow> bool \<Rightarrow> error + PosixAce list" where
  "parse_aces data is_default =
     (if data = [] then Inr []
      else if length data < HDR_SZ then Inl (Parse ''POSIX ACL too short'')
      else if le32 data 0 \<noteq> VERSION then Inl (Parse ''unsupported POSIX ACL version'')
      else if \<not> ACE_SZ dvd (length data - HDR_SZ) then Inl (Parse ''POSIX ACL has a partial entry'')
      else traverse (\<lambda>i. parse_ace is_default data (HDR_SZ + i * ACE_SZ))
             [0..<(length data - HDR_SZ) div ACE_SZ])"

definition encode_ace :: "PosixAce \<Rightarrow> error + bytes" where
  "encode_ace a =
     (case (if is_special (tag a) then Inr SPECIAL_ID
            else if 0 \<le> aid a \<and> aid a < 2 ^ 32 \<and> word_of_int (aid a) \<noteq> SPECIAL_ID
              then Inr (word_of_int (aid a))
            else Inl (Validation (''POSIX ACL entry id '' @ show_int (aid a)
                                  @ '' is not a valid uid/gid''))) of
        Inl e \<Rightarrow> Inl e
      | Inr xid \<Rightarrow>
          Inr (le16_bytes (PosixTag_repr (tag a)) @ le16_bytes (perms a) @ le32_bytes xid))"

definition encode_aces :: "PosixAce list \<Rightarrow> error + bytes" where
  "encode_aces as =
     (case traverse encode_ace as of
        Inl e \<Rightarrow> Inl e
      | Inr bss \<Rightarrow> Inr (le32_bytes VERSION @ concat bss))"

definition from_xattr :: "bytes \<Rightarrow> bytes option \<Rightarrow> error + PosixAcl" where
  "from_xattr acc dflt =
     bind_res (parse_aces acc False) (\<lambda>as.
       bind_res (case dflt of
                   Some d \<Rightarrow> bind_res (parse_aces d True) (\<lambda>ds. Inr (Some ds))
                 | None \<Rightarrow> Inr None) (\<lambda>ds.
         Inr \<lparr>access = as, default_acl = ds, synthesized = False\<rparr>))"

definition sort_key_ace :: "PosixAce \<Rightarrow> u16 \<times> int" where
  "sort_key_ace a = (PosixTag_repr (tag a), aid a)"

definition from_aces :: "PosixAce list \<Rightarrow> PosixAcl" where
  "from_aces as =
     (let acc = sort_key sort_key_ace (filter (\<lambda>a. \<not> default_ace a) as);
          dflt = sort_key sort_key_ace (filter default_ace as)
      in \<lparr>access = acc, default_acl = (if dflt \<noteq> [] then Some dflt else None),
          synthesized = False\<rparr>)"

definition access_bytes :: "PosixAcl \<Rightarrow> error + bytes" where
  "access_bytes acl = encode_aces (access acl)"

definition default_bytes :: "PosixAcl \<Rightarrow> error + bytes option" where
  "default_bytes acl =
     (case default_acl acl of
        None \<Rightarrow> Inr None
      | Some ds \<Rightarrow> bind_res (encode_aces ds) (\<lambda>b. Inr (Some b)))"

definition trivial :: "PosixAcl \<Rightarrow> bool" where
  "trivial acl \<longleftrightarrow> synthesized acl \<and> default_acl acl = None"

definition set_default_from_xattr :: "PosixAcl \<Rightarrow> bytes \<Rightarrow> error + PosixAcl" where
  "set_default_from_xattr acl data =
     bind_res (parse_aces data True) (\<lambda>ds. Inr (acl\<lparr>default_acl := Some ds\<rparr>))"

section \<open>Inheritance, synthesis, validation\<close>

definition generate_inherited_acl :: "PosixAcl \<Rightarrow> bool \<Rightarrow> u32 \<Rightarrow> error + (PosixAcl \<times> u32)" where
  "generate_inherited_acl acl is_dir mode =
     (if access acl = [] \<and> default_acl acl = None then
        Inl (Validation ''cannot generate inherited ACL from trivial ACL'')
      else case default_acl acl of
        None \<Rightarrow> Inl (Validation ''cannot generate inherited ACL: no default ACL'')
      | Some dflt \<Rightarrow>
          bind_res (create_masq (map (\<lambda>a. a\<lparr>default_ace := False\<rparr>) dflt) mode)
            (\<lambda>(acc, new_mode).
               Inr (\<lparr>access = acc,
                     default_acl =
                       (if is_dir then Some (map (\<lambda>a. a\<lparr>default_ace := True\<rparr>) dflt) else None),
                     synthesized = False\<rparr>, new_mode)))"

definition equivalent_to_mode :: "PosixAcl \<Rightarrow> bool" where
  "equivalent_to_mode acl \<longleftrightarrow>
     \<not> list_ex (\<lambda>a. tag a = User \<or> tag a = PosixTag.Group \<or> tag a = Mask) (access acl)"

definition synthesize_from_mode :: "u32 \<Rightarrow> PosixAcl" where
  "synthesize_from_mode mode =
     (let mk = (\<lambda>t three. \<lparr>tag = t, perms = ucast (three AND (7 :: u32)), aid = -1,
                           default_ace = False\<rparr>)
      in \<lparr>access = [mk UserObj (drop_bit 6 mode), mk GroupObj (drop_bit 3 mode), mk Other mode],
          default_acl = None, synthesized = True\<rparr>)"

definition validate_named_id :: "int \<Rightarrow> string \<Rightarrow> string \<Rightarrow> string \<Rightarrow> error + unit" where
  "validate_named_id i label t kind =
     (if i < 0 then
        Inl (Validation (label @ '' ACL: named '' @ t @ '' entry has no '' @ kind))
      else if \<not> i < 2 ^ 32 \<or> i = uint SPECIAL_ID then
        Inl (Validation (label @ '' ACL: named '' @ t @ '' entry '' @ kind @ '' '' @ show_int i
                         @ '' is not a valid '' @ kind))
      else Inr ())"

text \<open>
  The counters of \<^verbatim>\<open>validate_entries\<close>. They are \<^verbatim>\<open>u32\<close> in the source and count list entries, of
  which there are always fewer than \<open>2 ^ 32\<close>; here they are natural numbers.
\<close>

record tag_counts =
  n_user_obj :: nat
  n_group_obj :: nat
  n_other :: nat
  n_mask :: nat
  n_named :: nat

definition count_tag :: "string \<Rightarrow> PosixAce \<Rightarrow> tag_counts \<Rightarrow> error + tag_counts" where
  "count_tag label a c =
     (case tag a of
        UserObj \<Rightarrow> Inr (c\<lparr>n_user_obj := n_user_obj c + 1\<rparr>)
      | GroupObj \<Rightarrow> Inr (c\<lparr>n_group_obj := n_group_obj c + 1\<rparr>)
      | Other \<Rightarrow> Inr (c\<lparr>n_other := n_other c + 1\<rparr>)
      | Mask \<Rightarrow> Inr (c\<lparr>n_mask := n_mask c + 1\<rparr>)
      | User \<Rightarrow> bind_res (validate_named_id (aid a) label ''USER'' ''uid'')
                  (\<lambda>_. Inr (c\<lparr>n_named := n_named c + 1\<rparr>))
      | PosixTag.Group \<Rightarrow> bind_res (validate_named_id (aid a) label ''GROUP'' ''gid'')
                  (\<lambda>_. Inr (c\<lparr>n_named := n_named c + 1\<rparr>)))"

fun validate_entries_loop ::
    "string \<Rightarrow> PosixAce list \<Rightarrow> u16 \<Rightarrow> tag_counts \<Rightarrow> error + tag_counts" where
  "validate_entries_loop label [] prev_tag c = Inr c"
| "validate_entries_loop label (a # as) prev_tag c =
     (if \<not> contains PosixPerm_all (perms a) then
        Inl (Validation (label @ '' ACL: entry has permission bits outside rwx''))
      else if PosixTag_repr (tag a) < prev_tag then
        Inl (Validation (label @ '' ACL entries are not in canonical tag order''))
      else bind_res (count_tag label a c) (validate_entries_loop label as (PosixTag_repr (tag a))))"

definition validate_entries :: "PosixAce list \<Rightarrow> string \<Rightarrow> error + unit" where
  "validate_entries as label =
     bind_res (validate_entries_loop label as 0
                 \<lparr>n_user_obj = 0, n_group_obj = 0, n_other = 0, n_mask = 0, n_named = 0\<rparr>) (\<lambda>c.
       if n_user_obj c \<noteq> 1 then
         Inl (Validation (label @ '' ACL must have exactly one USER_OBJ entry''))
       else if n_group_obj c \<noteq> 1 then
         Inl (Validation (label @ '' ACL must have exactly one GROUP_OBJ entry''))
       else if n_other c \<noteq> 1 then
         Inl (Validation (label @ '' ACL must have exactly one OTHER entry''))
       else if n_named c > 0 \<and> n_mask c \<noteq> 1 then
         Inl (Validation (label @ '' ACL must have exactly one MASK entry when named USER ''
                          @ ''or GROUP entries are present''))
       else if n_mask c > 1 then
         Inl (Validation (label @ '' ACL has more than one MASK entry''))
       else Inr ())"

definition validate :: "PosixAcl \<Rightarrow> bool \<Rightarrow> error + unit" where
  "validate acl is_dir =
     bind_res (validate_entries (access acl) ''access'') (\<lambda>_.
       case default_acl acl of
         None \<Rightarrow> Inr ()
       | Some dflt \<Rightarrow>
           if \<not> is_dir then Inl (Validation ''default ACL is only valid on directories'')
           else validate_entries dflt ''default'')"


section \<open>The codec is an entry codec\<close>

lemma length_le16_bytes [simp]: "length (le16_bytes w) = 2"
  by (simp add: le16_bytes_def)

lemma length_le32_bytes [simp]: "length (le32_bytes w) = 4"
  by (simp add: le32_bytes_def)

lemma le16_le16_bytes: "length pre = p \<Longrightarrow> le16 (pre @ le16_bytes w @ post) p = w"
  using unsigned_less [of w, where ?'a = nat]
  by (simp add: le16_def le16_bytes_def slice_def le_val_le_bytes)

lemma le32_le32_bytes: "length pre = p \<Longrightarrow> le32 (pre @ le32_bytes w @ post) p = w"
  using unsigned_less [of w, where ?'a = nat]
  by (simp add: le32_def le32_bytes_def slice_def le_val_le_bytes)

lemma le16_bytes_le16: "p + 2 \<le> length d \<Longrightarrow> le16_bytes (le16 d p) = take 2 (drop p d)"
  using le_val_bound [of "slice d p (p + 2)"]
  by (simp add: le16_def le16_bytes_def slice_def unat_word_of_nat_eq le_bytes_le_val)

lemma le32_bytes_le32: "p + 4 \<le> length d \<Longrightarrow> le32_bytes (le32 d p) = take 4 (drop p d)"
  using le_val_bound [of "slice d p (p + 4)"]
  by (simp add: le32_def le32_bytes_def slice_def unat_word_of_nat_eq le_bytes_le_val)

interpretation posix_tag_enum: tn_enum PosixTag_repr PosixTag_try_from
proof
  fix v show "PosixTag_try_from (PosixTag_repr v) = Some v"
    by (cases v) (simp_all add: PosixTag_try_from_def)
next
  fix w v assume "PosixTag_try_from w = Some v" then show "PosixTag_repr v = w"
    by (auto simp: PosixTag_try_from_def split: if_splits)
qed

definition ace_wf :: "bool \<Rightarrow> PosixAce \<Rightarrow> bool" where
  "ace_wf is_default a \<longleftrightarrow> default_ace a = is_default \<and> (is_special (tag a) \<longrightarrow> aid a = -1)"

definition ace_canon :: "bytes \<Rightarrow> nat \<Rightarrow> bool" where
  "ace_canon d p \<longleftrightarrow>
     (\<forall>t. PosixTag_try_from (le16 d p) = Some t \<longrightarrow> is_special t \<longrightarrow> le32 d (p + 4) = SPECIAL_ID)"

lemma posix_encode_ace_length: "encode_ace a = Inr b \<Longrightarrow> length b = 8"
  by (auto simp: encode_ace_def split: sum.splits)

lemma posix_ace_words:
  assumes "length pre = p"
    and "d = pre @ (le16_bytes a @ le16_bytes b @ le32_bytes c) @ post"
  shows "le16 d p = a" "le16 d (p + 2) = b" "le32 d (p + 4) = c"
  using assms le16_le16_bytes [of pre p a "le16_bytes b @ le32_bytes c @ post"]
    le16_le16_bytes [of "pre @ le16_bytes a" "p + 2" b "le32_bytes c @ post"]
    le32_le32_bytes [of "pre @ le16_bytes a @ le16_bytes b" "p + 4" c post]
  by simp_all

lemma parse_encode_ace:
  assumes wf: "ace_wf is_default a" and enc: "encode_ace a = Inr b" and p: "length pre = p"
  shows "parse_ace is_default (pre @ b @ post) p = Inr a"
proof -
  from enc obtain xid where b: "b = le16_bytes (PosixTag_repr (tag a)) @ le16_bytes (perms a) @ le32_bytes xid"
    and xid: "if is_special (tag a) then xid = SPECIAL_ID
      else 0 \<le> aid a \<and> aid a < 2 ^ 32 \<and> xid = word_of_int (aid a) \<and> xid \<noteq> SPECIAL_ID"
    by (auto simp: encode_ace_def split: sum.splits if_splits)
  from wf xid show ?thesis
    unfolding parse_ace_def b posix_ace_words [OF p refl]
    by (auto simp: posix_tag_enum.try_from_repr ace_wf_def uint_word_of_int split: if_splits)
qed

lemma posix_take_words: "take 8 ys = take 2 ys @ take 2 (drop 2 ys) @ take 4 (drop 4 ys)"
  using take_add [of 2 6 ys] take_add [of 2 4 "drop 2 ys"] by simp

lemma encode_parse_ace:
  assumes dec: "parse_ace is_default d p = Inr a" and canon: "ace_canon d p" and len: "p + 8 \<le> length d"
  shows "encode_ace a = Inr (take 8 (drop p d))"
proof -
  have words: "take 8 (drop p d)
      = le16_bytes (le16 d p) @ le16_bytes (le16 d (p + 2)) @ le32_bytes (le32 d (p + 4))"
    using len by (subst posix_take_words) (simp add: le16_bytes_le16 le32_bytes_le32 add.commute)
  from dec obtain t where t: "PosixTag_try_from (le16 d p) = Some t"
    by (auto simp: parse_ace_def split: option.splits)
  then have "PosixTag_repr t = le16 d p"
    by (rule posix_tag_enum.repr_try_from)
  with dec t canon unsigned_less [of "le32 d (p + 4)", where ?'a = int] show ?thesis
    unfolding words
    by (auto simp: parse_ace_def encode_ace_def Let_def ace_canon_def split: if_splits)
qed

interpretation posix_codec: entry_codec 8 encode_ace "parse_ace is_default" "ace_wf is_default" ace_canon
  for is_default
  by unfold_locales
    (auto simp: posix_encode_ace_length intro: parse_encode_ace encode_parse_ace)

lemma parse_aces_eq:
  assumes "data \<noteq> []" "4 \<le> length data"
  shows "parse_aces data is_default =
    (if le32 data 0 \<noteq> 2 then Inl (Parse ''unsupported POSIX ACL version'')
     else if \<not> 8 dvd (length data - 4) then Inl (Parse ''POSIX ACL has a partial entry'')
     else traverse (\<lambda>i. parse_ace is_default data (4 + i * 8)) [0..<(length data - 4) div 8])"
  using assms by (simp add: parse_aces_def HDR_SZ_def ACE_SZ_def VERSION_def)

lemma parse_aces_encode:
  assumes enc: "encode_aces as = Inr b" and wf: "\<forall>a \<in> set as. ace_wf is_default a"
  shows "parse_aces b is_default = Inr as"
proof -
  from enc obtain bss where bss: "traverse encode_ace as = Inr bss"
    and b: "b = le32_bytes VERSION @ concat bss"
    by (auto simp: encode_aces_def split: sum.splits)
  have len: "length b = 4 + length as * 8"
    using posix_codec.length_table [OF bss] by (simp add: b)
  have v: "le32 b 0 = 2"
    using le32_le32_bytes [of "[]" 0 VERSION] by (simp add: b VERSION_def)
  have "traverse (\<lambda>i. parse_ace is_default b (4 + i * 8)) [0..<length as] = Inr as"
    using posix_codec.decode_table [OF bss wf, of "le32_bytes VERSION" 4] by (simp add: b)
  moreover from len have "b \<noteq> []" "4 \<le> length b" by auto
  ultimately show ?thesis
    by (simp add: parse_aces_eq v len)
qed

lemma parse_aces_Inr:
  assumes "parse_aces b is_default = Inr as" "b \<noteq> []"
  shows "length b = 4 + length as * 8" "le32 b 0 = 2"
    "traverse (\<lambda>i. parse_ace is_default b (4 + i * 8)) [0..<length as] = Inr as"
proof -
  from assms have four: "4 \<le> length b"
    by (auto simp: parse_aces_def HDR_SZ_def split: if_splits)
  with assms have v: "le32 b 0 = 2" and d: "8 dvd (length b - 4)"
    and tr: "traverse (\<lambda>i. parse_ace is_default b (4 + i * 8)) [0..<(length b - 4) div 8] = Inr as"
    by (auto simp: parse_aces_eq split: if_splits)
  from tr have n: "length as = (length b - 4) div 8"
    by (auto simp: traverse_Inr dest: list_all2_lengthD)
  show "length b = 4 + length as * 8" using four d by (simp add: n)
  show "le32 b 0 = 2" by (rule v)
  show "traverse (\<lambda>i. parse_ace is_default b (4 + i * 8)) [0..<length as] = Inr as"
    using tr by (simp add: n)
qed

lemma encode_parse_aces:
  assumes dec: "parse_aces b is_default = Inr as" and "b \<noteq> []"
    and canon: "\<forall>i < length as. ace_canon b (4 + i * 8)"
  shows "encode_aces as = Inr b"
proof -
  note d = parse_aces_Inr [OF dec \<open>b \<noteq> []\<close>]
  obtain bss where "traverse encode_ace as = Inr bss" "concat bss = drop 4 b"
    using posix_codec.encode_table [OF d(3)] canon d by auto
  moreover have "le32_bytes VERSION @ drop 4 b = b"
    using d(1) le32_bytes_le32 [of 0 b] by (simp add: d(2) VERSION_def)
  ultimately show ?thesis
    by (simp add: encode_aces_def)
qed

lemma parse_aces_wf:
  assumes "parse_aces b is_default = Inr as" "a \<in> set as"
  shows "ace_wf is_default a \<and> (\<not> is_special (tag a) \<longrightarrow> 0 \<le> aid a \<and> aid a < 0xFFFFFFFF)"
proof -
  have dec: "ace_wf is_default a \<and> (\<not> is_special (tag a) \<longrightarrow> 0 \<le> aid a \<and> aid a < 0xFFFFFFFF)"
    if "parse_ace is_default b p = Inr a" for p
    using that unsigned_less [of "le32 b (p + 4)", where ?'a = int]
    by (auto simp: parse_ace_def ace_wf_def Let_def SPECIAL_ID_def word_eq_iff_unsigned [where ?'a = int]
        split: option.splits if_splits)
  from assms parse_aces_Inr(3) [of b is_default as] obtain i where
    "parse_ace is_default b (4 + i * 8) = Inr a"
    by (cases "b = []")
      (auto simp: traverse_Inr list_all2_conv_all_nth in_set_conv_nth parse_aces_def)
  then show ?thesis by (rule dec)
qed

lemma encode_aces_total:
  assumes "\<forall>a \<in> set as. \<not> is_special (tag a) \<longrightarrow> 0 \<le> aid a \<and> aid a < 0xFFFFFFFF"
  obtains b where "encode_aces as = Inr b" "length b = 4 + 8 * length as"
proof -
  have "\<exists>b. encode_ace a = Inr b" if "a \<in> set as" for a
    using assms that
    by (auto simp: encode_ace_def SPECIAL_ID_def word_eq_iff_unsigned [where ?'a = int] uint_word_of_int)
  then obtain f where "\<And>a. a \<in> set as \<Longrightarrow> encode_ace a = Inr (f a)"
    by metis
  then have tr: "traverse encode_ace as = Inr (map f as)"
    by (rule traverse_all_Inr)
  show thesis
    using that posix_codec.length_table [OF tr] by (simp add: encode_aces_def tr)
qed


section \<open>The shape of a validated entry list\<close>

definition entry_ok :: "PosixAce \<Rightarrow> bool" where
  "entry_ok a \<longleftrightarrow>
     perms a AND 7 = perms a \<and>
     (\<not> is_special (tag a) \<longrightarrow> 0 \<le> aid a \<and> aid a < 0xFFFFFFFF)"

definition tag_shape :: "PosixTag list \<Rightarrow> bool" where
  "tag_shape ts \<longleftrightarrow>
     ts = [UserObj, GroupObj, Other] \<or>
     (\<exists>u g. ts = UserObj # replicate u User @ GroupObj # replicate g PosixTag.Group @ [Mask, Other])"

text \<open>
  The automaton of the kernel's \<^verbatim>\<open>posix_acl_valid\<close> that the comment in \<^verbatim>\<open>validate_entries\<close> refers
  to: the states are the tags it waits for, and the flag says that a mask is needed.
\<close>

datatype acl_state = Want_UserObj | Want_User | Want_Group | Want_Other | Done

fun accepts :: "acl_state \<Rightarrow> bool \<Rightarrow> PosixTag list \<Rightarrow> bool" where
  "accepts st needs_mask [] = (st = Done)"
| "accepts st needs_mask (t # ts) =
     (case t of
        UserObj \<Rightarrow> st = Want_UserObj \<and> accepts Want_User needs_mask ts
      | User \<Rightarrow> st = Want_User \<and> accepts Want_User True ts
      | GroupObj \<Rightarrow> st = Want_User \<and> accepts Want_Group needs_mask ts
      | PosixTag.Group \<Rightarrow> st = Want_Group \<and> accepts Want_Group True ts
      | Mask \<Rightarrow> st = Want_Group \<and> accepts Want_Other needs_mask ts
      | Other \<Rightarrow> (st = Want_Other \<or> st = Want_Group \<and> \<not> needs_mask) \<and> accepts Done needs_mask ts)"

lemma accepts_Done: "accepts Done nm ts \<longleftrightarrow> ts = []"
  by (cases ts) (auto split: PosixTag.splits)

lemma accepts_Want_Other: "accepts Want_Other nm ts \<longleftrightarrow> ts = [Other]"
  by (cases ts) (auto simp: accepts_Done split: PosixTag.splits)

lemma accepts_Want_Group:
  "accepts Want_Group nm ts \<longleftrightarrow>
     (\<exists>g. ts = replicate g PosixTag.Group @ [Mask, Other]) \<or> \<not> nm \<and> ts = [Other]"
proof (induction ts arbitrary: nm)
  case Nil
  then show ?case by simp
next
  case (Cons t ts)
  have "(\<exists>g. t # ts = replicate g PosixTag.Group @ [Mask, Other]) \<longleftrightarrow>
      t = Mask \<and> ts = [Other] \<or> t = PosixTag.Group \<and> (\<exists>g. ts = replicate g PosixTag.Group @ [Mask, Other])"
    by (subst ex_nat_0_Suc) auto
  then show ?case
    by (cases t) (auto simp: Cons.IH accepts_Want_Other accepts_Done)
qed

lemma accepts_Want_User:
  "accepts Want_User nm ts \<longleftrightarrow>
     (\<exists>u g. ts = replicate u User @ GroupObj # replicate g PosixTag.Group @ [Mask, Other])
     \<or> \<not> nm \<and> ts = [GroupObj, Other]"
proof (induction ts arbitrary: nm)
  case Nil
  then show ?case by simp
next
  case (Cons t ts)
  have "(\<exists>u g. t # ts = replicate u User @ GroupObj # replicate g PosixTag.Group @ [Mask, Other]) \<longleftrightarrow>
      t = GroupObj \<and> (\<exists>g. ts = replicate g PosixTag.Group @ [Mask, Other]) \<or>
      t = User \<and> (\<exists>u g. ts = replicate u User @ GroupObj # replicate g PosixTag.Group @ [Mask, Other])"
    by (subst ex_nat_0_Suc) auto
  then show ?case
    by (cases t) (auto simp: Cons.IH accepts_Want_Group)
qed

lemma accepts_tag_shape: "accepts Want_UserObj False ts \<longleftrightarrow> tag_shape ts"
  by (cases ts) (auto simp: accepts_Want_User tag_shape_def split: PosixTag.splits)

fun tag_rank :: "PosixTag \<Rightarrow> nat" where
  "tag_rank UserObj = 0"
| "tag_rank User = 1"
| "tag_rank GroupObj = 2"
| "tag_rank PosixTag.Group = 3"
| "tag_rank Mask = 4"
| "tag_rank Other = 5"

lemma tag_rank_lt: "tag_rank t < 6"
  by (cases t) simp_all

lemma repr_le_iff: "PosixTag_repr t \<le> PosixTag_repr t' \<longleftrightarrow> tag_rank t \<le> tag_rank t'"
  by (cases t; cases t') (simp_all add: word_le_nat_alt)

lemma filter_eq_replicate: "filter (\<lambda>x. x = y) xs = replicate (count_list xs y) y"
  by (induction xs) auto

lemma tags_sorted_shape:
  assumes "sorted (map PosixTag_repr ts)"
  shows "ts = replicate (count_list ts UserObj) UserObj @ replicate (count_list ts User) User
    @ replicate (count_list ts GroupObj) GroupObj
    @ replicate (count_list ts PosixTag.Group) PosixTag.Group
    @ replicate (count_list ts Mask) Mask @ replicate (count_list ts Other) Other"
proof -
  have "sorted (map tag_rank ts)"
    using assms by (simp add: sorted_iff_nth_mono repr_le_iff)
  then have "ts = sort_key tag_rank ts"
    by (simp add: sort_key_id_if_sorted)
  also have "\<dots> = concat (map (\<lambda>k. filter (\<lambda>t. tag_rank t = k) ts) [0..<6])"
    by (rule sort_key_buckets) (rule tag_rank_lt)
  also have "[0..<6] = [0, 1, 2, 3, 4, 5 :: nat]"
    by (simp add: upt_rec)
  finally have ts: "ts = concat (map (\<lambda>k. filter (\<lambda>t. tag_rank t = k) ts) [0, 1, 2, 3, 4, 5])" .
  have "tag_rank t = 0 \<longleftrightarrow> t = UserObj" "tag_rank t = 1 \<longleftrightarrow> t = User" "tag_rank t = 2 \<longleftrightarrow> t = GroupObj"
    "tag_rank t = 3 \<longleftrightarrow> t = PosixTag.Group" "tag_rank t = 4 \<longleftrightarrow> t = Mask" "tag_rank t = 5 \<longleftrightarrow> t = Other"
    for t
    by (cases t; simp)+
  then show ?thesis
    using ts by (simp add: filter_eq_replicate del: One_nat_def)
qed

text \<open>The counters after the loop.\<close>

definition add_counts :: "tag_counts \<Rightarrow> PosixTag list \<Rightarrow> tag_counts" where
  "add_counts c ts =
     \<lparr>n_user_obj = n_user_obj c + count_list ts UserObj,
      n_group_obj = n_group_obj c + count_list ts GroupObj,
      n_other = n_other c + count_list ts Other,
      n_mask = n_mask c + count_list ts Mask,
      n_named = n_named c + count_list ts User + count_list ts PosixTag.Group\<rparr>"

lemma validate_named_id_Inr:
  "validate_named_id i label t kind = Inr u \<longleftrightarrow> 0 \<le> i \<and> i < 0xFFFFFFFF"
  by (auto simp: validate_named_id_def SPECIAL_ID_def)

lemma contains_PosixPerm_all: "contains PosixPerm_all p \<longleftrightarrow> p AND 7 = p"
  by (simp add: contains_def PosixPerm_all_def EXECUTE_def WRITE_def READ_def and.commute)

lemma entry_ok_cases:
  "entry_ok a \<longleftrightarrow> contains PosixPerm_all (perms a) \<and>
     (tag a = User \<or> tag a = PosixTag.Group \<longrightarrow> 0 \<le> aid a \<and> aid a < 0xFFFFFFFF)"
  by (cases "tag a") (auto simp: entry_ok_def contains_PosixPerm_all is_special_def)

lemma count_tag_Inr:
  "count_tag label a c = Inr c' \<longleftrightarrow>
     (tag a = User \<or> tag a = PosixTag.Group \<longrightarrow> 0 \<le> aid a \<and> aid a < 0xFFFFFFFF) \<and>
     c' = add_counts c [tag a]"
  by (cases "tag a") (auto simp: count_tag_def bind_res_Inr validate_named_id_Inr add_counts_def)

lemma add_counts_Cons: "add_counts (add_counts c [t]) ts = add_counts c (t # ts)"
  by (cases t) (simp_all add: add_counts_def)

lemma add_counts_Nil: "add_counts c [] = c"
  by (simp add: add_counts_def)

lemma validate_entries_loop_Inr:
  "validate_entries_loop label as prev c = Inr c' \<longleftrightarrow>
     (\<forall>a \<in> set as. entry_ok a) \<and> sorted (prev # map (PosixTag_repr \<circ> tag) as) \<and>
     c' = add_counts c (map tag as)"
proof (induction as arbitrary: prev c)
  case Nil
  then show ?case by (auto simp: add_counts_Nil)
next
  case (Cons a as)
  have srt: "sorted (prev # map (PosixTag_repr \<circ> tag) (a # as)) \<longleftrightarrow>
      prev \<le> PosixTag_repr (tag a) \<and> sorted (PosixTag_repr (tag a) # map (PosixTag_repr \<circ> tag) as)"
    by (simp only: list.map comp_apply sorted2)
  have "validate_entries_loop label (a # as) prev c = Inr c' \<longleftrightarrow>
      entry_ok a \<and> prev \<le> PosixTag_repr (tag a) \<and>
      validate_entries_loop label as (PosixTag_repr (tag a)) (add_counts c [tag a]) = Inr c'"
    by (auto simp: bind_res_Inr count_tag_Inr entry_ok_cases)
  then show ?case
    unfolding srt Cons.IH add_counts_Cons by auto
qed

lemma tag_shape_iff:
  "tag_shape ts \<longleftrightarrow>
     sorted (map PosixTag_repr ts) \<and> count_list ts UserObj = 1 \<and> count_list ts GroupObj = 1 \<and>
     count_list ts Other = 1 \<and> count_list ts Mask \<le> 1 \<and>
     (0 < count_list ts User + count_list ts PosixTag.Group \<longrightarrow> count_list ts Mask = 1)"
  (is "?l \<longleftrightarrow> ?r")
proof
  assume ?l
  then show ?r
    by (auto simp: tag_shape_def sorted_append)
next
  assume r: ?r
  obtain u g m where n: "u = count_list ts User" "g = count_list ts PosixTag.Group" "m = count_list ts Mask"
    by blast
  from r have "sorted (map PosixTag_repr ts)" by blast
  from tags_sorted_shape [OF this] r have ts: "ts = [UserObj] @ replicate u User @ [GroupObj]
      @ replicate g PosixTag.Group @ replicate m Mask @ [Other]"
    unfolding n by (metis One_nat_def replicate_0 replicate_Suc)
  from r have "m = 0 \<and> u = 0 \<and> g = 0 \<or> m = 1"
    unfolding n by linarith
  then show ?l
    unfolding tag_shape_def
    by (subst (1 2) ts) (elim disjE, simp, intro disjI2 exI [of _ u] exI [of _ g], simp)
qed

lemma validate_entries_Inr:
  "validate_entries as label = Inr () \<longleftrightarrow> (\<forall>a \<in> set as. entry_ok a) \<and> tag_shape (map tag as)"
  unfolding tag_shape_iff
  by (auto simp: validate_entries_def bind_res_Inr validate_entries_loop_Inr add_counts_def)


section \<open>The create-mode intersection in closed form\<close>

text \<open>
  What \<^verbatim>\<open>create_masq\<close> does to a validated list, stated without a loop: the owner, the group class
  (the mask when there is one, else the owning group) and the others are intersected with their
  three bits of the mode, and the mode keeps of each class what survived.
\<close>

definition masq_ace :: "u32 \<Rightarrow> bool \<Rightarrow> PosixAce \<Rightarrow> PosixAce" where
  "masq_ace mode has_mask a =
     a\<lparr>perms := perms a AND
        (case tag a of
           UserObj \<Rightarrow> mode_class 6 mode
         | GroupObj \<Rightarrow> if has_mask then 7 else mode_class 3 mode
         | Mask \<Rightarrow> mode_class 3 mode
         | Other \<Rightarrow> mode_class 0 mode
         | _ \<Rightarrow> 7)\<rparr>"

definition has_mask :: "PosixAce list \<Rightarrow> bool" where
  "has_mask as \<longleftrightarrow> list_ex (\<lambda>a. tag a = Mask) as"

text \<open>The permissions of the only entry with a tag, and the mode bits an entry list stands for.\<close>

definition perms_of :: "PosixTag \<Rightarrow> PosixAce list \<Rightarrow> u16" where
  "perms_of t as = (case filter (\<lambda>a. tag a = t) as of [] \<Rightarrow> 0 | a # _ \<Rightarrow> perms a)"

definition mode_of_entries :: "PosixAce list \<Rightarrow> u32" where
  "mode_of_entries as =
     push_bit 6 (ucast (perms_of UserObj as))
     OR push_bit 3 (ucast (perms_of (if has_mask as then Mask else GroupObj) as))
     OR ucast (perms_of Other as)"

lemma bit_mode_numerals:
  "bit (0x1FF :: u32) n \<longleftrightarrow> n < 9" "bit (0x1C0 :: u32) n \<longleftrightarrow> 6 \<le> n \<and> n < 9"
  "bit (0x38 :: u32) n \<longleftrightarrow> 3 \<le> n \<and> n < 6" "bit (0x7 :: u32) n \<longleftrightarrow> n < 3"
  "bit (0x7 :: u16) n \<longleftrightarrow> n < 3"
proof -
  have eqs: "(0x1FF :: u32) = mask 9" "(0x1C0 :: u32) = push_bit 6 (mask 3)"
    "(0x38 :: u32) = push_bit 3 (mask 3)" "(0x7 :: u32) = mask 3" "(0x7 :: u16) = mask 3"
    by (simp_all add: mask_eq_exp_minus_1 push_bit_eq_mult)
  show "bit (0x1FF :: u32) n \<longleftrightarrow> n < 9" unfolding eqs(1) by (rule bit_mask_word) simp
  show "bit (0x1C0 :: u32) n \<longleftrightarrow> 6 \<le> n \<and> n < 9" unfolding eqs(2) by (auto simp: bit_simps)
  show "bit (0x38 :: u32) n \<longleftrightarrow> 3 \<le> n \<and> n < 6" unfolding eqs(3) by (auto simp: bit_simps)
  show "bit (0x7 :: u32) n \<longleftrightarrow> n < 3" unfolding eqs(4) by (rule bit_mask_word) simp
  show "bit (0x7 :: u16) n \<longleftrightarrow> n < 3" unfolding eqs(5) by (rule bit_mask_word) simp
qed

lemma rwx_bits: "p AND 7 = p \<longleftrightarrow> (\<forall>n. bit p n \<longrightarrow> n < 3)" for p :: u16
proof
  assume e: "p AND 7 = p"
  show "\<forall>n. bit p n \<longrightarrow> n < 3"
    by (subst e [symmetric]) (simp add: bit_and_iff bit_mode_numerals del: bit_numeral_word_iff)
next
  assume "\<forall>n. bit p n \<longrightarrow> n < 3"
  then show "p AND 7 = p"
    by (intro bit_eqI) (auto simp: bit_and_iff bit_mode_numerals simp del: bit_numeral_word_iff)
qed

lemma bit_PosixPerm_all: "bit PosixPerm_all n \<longleftrightarrow> n < 3"
  unfolding bit_mode_numerals(5) [symmetric]
  by (simp add: PosixPerm_all_def EXECUTE_def WRITE_def READ_def)

lemma bit_mode_class: "bit (mode_class sh m) n \<longleftrightarrow> n < 3 \<and> bit m (sh + n)"
  unfolding mode_class_def PosixPerm_from_bits_truncate_def
  by (auto simp: bit_and_iff bit_PosixPerm_all bit_mode_numerals bit_unsigned_iff bit_drop_bit_eq
      simp del: bit_numeral_word_iff)

lemma create_masq_loop_append:
  "create_masq_loop i (as @ bs) m g k =
     (let (as', m', g', k') = create_masq_loop i as m g k;
          (bs', r) = create_masq_loop (i + length as) bs m' g' k'
      in (as' @ bs', r))"
  by (induction as arbitrary: i m g k) (auto simp: Let_def split: prod.splits)

lemma create_masq_loop_named:
  assumes "\<forall>a \<in> set as. tag a = User \<or> tag a = PosixTag.Group"
  shows "create_masq_loop i as m g k = (as, m, g, k)"
  using assms by (induction as arbitrary: i) auto


lemma bit_mode_narrow:
  "bit (mode_narrow m 6 p 0x1C0) n \<longleftrightarrow> bit m n \<and> (6 \<le> n \<and> n < 9 \<longrightarrow> bit p (n - 6))"
  "bit (mode_narrow m 3 p 0x38) n \<longleftrightarrow> bit m n \<and> (3 \<le> n \<and> n < 6 \<longrightarrow> bit p (n - 3))"
  "bit (mode_narrow m 0 p 0x7) n \<longleftrightarrow> bit m n \<and> (n < 3 \<longrightarrow> bit p n)"
  unfolding mode_narrow_def bit_and_iff bit_or_iff bit_not_iff bit_mode_numerals bit_push_bit_iff
    bit_unsigned_iff
  by (auto dest: bit_imp_le_length)

lemma bit_mode_splice: "bit (mode_splice mode m) n \<longleftrightarrow> (if n < 9 then bit m n else bit mode n)"
  unfolding mode_splice_def bit_or_iff bit_and_iff bit_not_iff bit_mode_numerals
  by (auto dest: bit_imp_le_length)

lemma masq_mode:
  fixes po pg pt :: u16 and mode :: u32
  assumes m: "m1 = mode_narrow mode 6 (po AND mode_class 6 mode) 0x1C0"
      "m2 = mode_narrow m1 0 (pt AND mode_class 0 mode) 0x7"
  shows "mode_class 0 m1 = mode_class 0 mode" "mode_class 3 m2 = mode_class 3 mode"
    "mode_splice mode (mode_narrow m2 3 (pg AND mode_class 3 mode) 0x38) =
     mode_splice mode (push_bit 6 (ucast (po AND mode_class 6 mode))
       OR push_bit 3 (ucast (pg AND mode_class 3 mode)) OR ucast (pt AND mode_class 0 mode))"
  by (rule bit_eqI;
      auto simp: m bit_mode_class bit_mode_narrow bit_mode_splice bit_and_iff bit_or_iff
        bit_push_bit_iff bit_unsigned_iff)+

lemma map_eq_replicate: "map f xs = replicate n y \<Longrightarrow> \<forall>x \<in> set xs. f x = y"
  by (metis in_set_replicate list.set_map image_eqI)

lemma tag_shape_cases:
  assumes "tag_shape (map tag as)"
  obtains (plain) uo go ot where "as = [uo, go, ot]" "tag uo = UserObj" "tag go = GroupObj" "tag ot = Other"
  | (extended) uo us go gs mk ot where "as = uo # us @ go # gs @ [mk, ot]" "tag uo = UserObj"
      "tag go = GroupObj" "tag mk = Mask" "tag ot = Other"
      "\<forall>a \<in> set us. tag a = User" "\<forall>a \<in> set gs. tag a = PosixTag.Group"
proof -
  from assms consider "map tag as = [UserObj, GroupObj, Other]"
    | (b) "\<exists>u g. map tag as = UserObj # replicate u User @ GroupObj # replicate g PosixTag.Group @ [Mask, Other]"
    unfolding tag_shape_def by blast
  then show thesis
  proof cases
    case 1
    then show thesis by (auto simp: map_eq_Cons_conv intro: plain)
  next
    case b
    then obtain u g where "map tag as = UserObj # replicate u User @ GroupObj # replicate g PosixTag.Group @ [Mask, Other]"
      by metis
    then obtain uo r where "as = uo # r" and uo: "tag uo = UserObj"
      and r: "map tag r = replicate u User @ GroupObj # replicate g PosixTag.Group @ [Mask, Other]"
      by (auto simp: map_eq_Cons_conv)
    from r obtain us r' where "r = us @ r'" and us: "map tag us = replicate u User"
      and r': "map tag r' = GroupObj # replicate g PosixTag.Group @ [Mask, Other]"
      by (metis map_eq_append_conv)
    from r' obtain go r'' where "r' = go # r''" and go: "tag go = GroupObj"
      and r'': "map tag r'' = replicate g PosixTag.Group @ [Mask, Other]"
      by (auto simp: map_eq_Cons_conv)
    from r'' obtain gs r3 where "r'' = gs @ r3" and gs: "map tag gs = replicate g PosixTag.Group"
      and r3: "map tag r3 = [Mask, Other]"
      by (metis map_eq_append_conv)
    from r3 obtain mk ot where "r3 = [mk, ot]" "tag mk = Mask" "tag ot = Other"
      by (auto simp: map_eq_Cons_conv)
    with \<open>as = uo # r\<close> \<open>r = us @ r'\<close> \<open>r' = go # r''\<close> \<open>r'' = gs @ r3\<close> uo us go gs show thesis
      by (intro extended [of uo us go gs mk ot]) (auto dest: map_eq_replicate)
  qed
qed

lemma create_masq_plain:
  assumes as: "as = [uo, go, ot]" and t: "tag uo = UserObj" "tag go = GroupObj" "tag ot = Other"
  shows "create_masq as mode =
    Inr (map (masq_ace mode False) as,
         mode_splice mode (mode_of_entries (map (masq_ace mode False) as)))"
  using masq_mode(1) [OF refl refl, of mode "perms uo"]
      masq_mode(2) [OF refl refl, of mode "perms uo" "perms ot"]
      masq_mode(3) [OF refl refl, where mode = mode and po = "perms uo" and pt = "perms ot"
        and pg = "perms go"]
  by (simp add: as t create_masq_def masq_ace_def mode_of_entries_def perms_of_def has_mask_def Let_def)

lemma create_masq_extended:
  assumes as: "as = uo # us @ go # gs @ [mk, ot]"
    and t: "tag uo = UserObj" "tag go = GroupObj" "tag mk = Mask" "tag ot = Other"
      "\<forall>a \<in> set us. tag a = User" "\<forall>a \<in> set gs. tag a = PosixTag.Group"
    and ok: "\<forall>a \<in> set as. entry_ok a"
  shows "create_masq as mode =
    Inr (map (masq_ace mode True) as,
         mode_splice mode (mode_of_entries (map (masq_ace mode True) as)))"
proof -
  have named: "map (masq_ace mode True) xs = xs"
    if "\<forall>a \<in> set xs. entry_ok a \<and> (tag a = User \<or> tag a = PosixTag.Group)" for xs
    using that by (intro map_idI) (auto simp: masq_ace_def entry_ok_def)
  have us: "map (masq_ace mode True) us = us" and gs: "map (masq_ace mode True) gs = gs"
    using t ok by (auto simp: as intro!: named)
  have go: "perms go AND 7 = perms go"
    using ok by (auto simp: as entry_ok_def)
  have f: "filter (\<lambda>a. tag a = t') us = []" "filter (\<lambda>a. tag a = t') gs = []"
    if "t' \<noteq> User" "t' \<noteq> PosixTag.Group" for t'
    using t that by (auto simp: filter_empty_conv)
  have loop: "create_masq_loop i us m g k = (us, m, g, k)" "create_masq_loop i gs m g k = (gs, m, g, k)"
    for i m g k
    using t by (auto intro: create_masq_loop_named)
  have "map (masq_ace mode True) as = masq_ace mode True uo # us @ go # gs
      @ [masq_ace mode True mk, masq_ace mode True ot]"
    using t go by (simp add: as us gs) (simp add: masq_ace_def)
  then show ?thesis
    using masq_mode(1) [OF refl refl, of mode "perms uo"]
      masq_mode(2) [OF refl refl, of mode "perms uo" "perms ot"]
      masq_mode(3) [OF refl refl, where mode = mode and po = "perms uo" and pt = "perms ot"
        and pg = "perms mk"]
    by (simp add: as t create_masq_def create_masq_loop_append loop masq_ace_def
        mode_of_entries_def perms_of_def has_mask_def f Let_def nth_append list_update_append)
qed


lemma create_masq_validated:
  assumes "validate_entries as label = Inr ()"
  shows "create_masq as mode =
    Inr (map (masq_ace mode (has_mask as)) as,
         mode_splice mode (mode_of_entries (map (masq_ace mode (has_mask as)) as)))"
proof -
  from assms have ok: "\<forall>a \<in> set as. entry_ok a" and sh: "tag_shape (map tag as)"
    by (simp_all add: validate_entries_Inr)
  from sh show ?thesis
  proof (cases rule: tag_shape_cases)
    case (plain uo go ot)
    then show ?thesis
      using create_masq_plain [of as uo go ot mode] by (simp add: has_mask_def)
  next
    case (extended uo us go gs mk ot)
    then have "has_mask as" by (auto simp: has_mask_def)
    then show ?thesis
      using create_masq_extended [OF extended ok, of mode] by simp
  qed
qed

lemma tag_masq_ace [simp]: "tag (masq_ace mode b a) = tag a"
  by (simp add: masq_ace_def)

lemma entry_ok_masq_ace: "entry_ok a \<Longrightarrow> entry_ok (masq_ace mode b a)"
  by (auto simp: entry_ok_def masq_ace_def rwx_bits bit_and_iff)

lemma validate_masq:
  "validate_entries as label = Inr () \<Longrightarrow> validate_entries (map (masq_ace mode b) as) label' = Inr ()"
  by (auto simp: validate_entries_Inr comp_def intro: entry_ok_masq_ace)

lemma validate_default_flag:
  "validate_entries (map (\<lambda>a. a\<lparr>default_ace := b\<rparr>) as) label = Inr () \<longleftrightarrow> validate_entries as label' = Inr ()"
  by (auto simp: validate_entries_Inr comp_def entry_ok_def)

lemma has_mask_map [simp]:
  "has_mask (map (\<lambda>a. a\<lparr>default_ace := b\<rparr>) as) = has_mask as"
  "has_mask (map (masq_ace mode c) as) = has_mask as"
  by (simp_all add: has_mask_def list_ex_iff)

lemma perms_of_bits:
  assumes "\<And>a. a \<in> set as \<Longrightarrow> tag a = t \<Longrightarrow> \<forall>n. bit (perms a) n \<longrightarrow> P n"
  shows "bit (perms_of t as) n \<Longrightarrow> P n"
  using assms by (fastforce simp: perms_of_def filter_eq_Cons_iff split: list.splits)

text \<open>No class of the mode an entry list stands for exceeds the mode it was intersected with.\<close>

lemma mode_of_masq_le:
  assumes "bit (mode_of_entries (map (masq_ace mode (has_mask as)) as)) n"
  shows "bit mode n"
proof -
  let ?as = "map (masq_ace mode (has_mask as)) as"
  have u: "bit mode (6 + k)" if "bit (perms_of UserObj ?as) k" for k
    using that by (rule perms_of_bits [rotated]) (auto simp: masq_ace_def bit_and_iff bit_mode_class)
  have g: "bit mode (3 + k)" if "bit (perms_of (if has_mask as then Mask else GroupObj) ?as) k" for k
    using that
    by (rule perms_of_bits [rotated])
      (auto simp: masq_ace_def bit_and_iff bit_mode_class split: if_splits)
  have o: "bit mode k" if "bit (perms_of Other ?as) k" for k
    using that by (rule perms_of_bits [rotated]) (auto simp: masq_ace_def bit_and_iff bit_mode_class)
  from assms show ?thesis
    by (auto simp: mode_of_entries_def bit_or_iff bit_push_bit_iff bit_unsigned_iff
        dest!: u g o simp del: add_2_eq_Suc)
qed

lemma from_aces_access: "access (from_aces as) = sort_key sort_key_ace (filter (\<lambda>a. \<not> default_ace a) as)"
  by (simp add: from_aces_def Let_def)

lemma sorted_tags_sort_key: "sorted (map PosixTag_repr (map tag (sort_key sort_key_ace as)))"
proof -
  have "sorted (map sort_key_ace (sort_key sort_key_ace as))"
    by (rule sorted_sort_key)
  then show ?thesis
    by (auto simp: sorted_iff_nth_mono sort_key_ace_def less_eq_prod_def dest: order.strict_implies_order)
qed

lemma count_list_mset: "mset xs = mset ys \<Longrightarrow> count_list xs a = count_list ys a"
  by (metis count_mset)

lemma validate_entries_sorted:
  assumes m: "mset as = mset bs" and v: "validate_entries bs label = Inr ()"
  shows "validate_entries (sort_key sort_key_ace as) label' = Inr ()"
proof -
  let ?cs = "sort_key sort_key_ace as"
  have "mset (map tag ?cs) = mset (map tag bs)"
    using m by simp
  then have "count_list (map tag ?cs) t = count_list (map tag bs) t" for t
    by (rule count_list_mset)
  moreover have "set ?cs = set bs"
    using mset_eq_setD [OF m] by simp
  ultimately show ?thesis
    using v sorted_tags_sort_key [of as] unfolding validate_entries_Inr tag_shape_iff by simp
qed


lemma posix_validate_Inr:
  "Acl_Posix.validate acl is_dir = Inr () \<longleftrightarrow>
     validate_entries (access acl) ''access'' = Inr () \<and>
     (\<forall>ds. default_acl acl = Some ds \<longrightarrow> is_dir \<and> validate_entries ds ''default'' = Inr ())"
  by (auto simp: validate_def bind_res_Inr split: option.splits)

lemma entry_ok_ids:
  "\<forall>a \<in> set as. entry_ok a \<Longrightarrow> \<forall>a \<in> set as. \<not> is_special (tag a) \<longrightarrow> 0 \<le> aid a \<and> aid a < 0xFFFFFFFF"
  by (simp add: entry_ok_def)

lemma validated_encodes:
  assumes "validate_entries as label = Inr ()" "\<forall>a \<in> set as. ace_wf b a"
  obtains bs where "encode_aces as = Inr bs" "length bs = 4 + 8 * length as" "parse_aces bs b = Inr as"
proof -
  from assms(1) have "\<forall>a \<in> set as. \<not> is_special (tag a) \<longrightarrow> 0 \<le> aid a \<and> aid a < 0xFFFFFFFF"
    by (intro entry_ok_ids) (simp add: validate_entries_Inr)
  then obtain bs where "encode_aces as = Inr bs" "length bs = 4 + 8 * length as"
    by (rule encode_aces_total)
  with parse_aces_encode [OF this(1) assms(2)] that show thesis by blast
qed

section \<open>Properties\<close>

text \<open>
  What \<open>validate\<close> accepts is stored without loss: the access list and the default list of a
  validated ACL both encode, and decoding the two attribute values gives the ACL back.
\<close>

theorem posix_validated_roundtrip:
  assumes "Acl_Posix.validate acl is_dir = Inr ()"
    and "\<forall>a \<in> set (access acl). ace_wf False a"
    and "\<forall>ds. default_acl acl = Some ds \<longrightarrow> (\<forall>a \<in> set ds. ace_wf True a)"
  shows "\<exists>ab db. access_bytes acl = Inr ab \<and> default_bytes acl = Inr db
    \<and> Acl_Posix.from_xattr ab db = Inr (acl\<lparr>synthesized := False\<rparr>)"
proof -
  from assms(1) have v: "validate_entries (access acl) ''access'' = Inr ()"
    by (simp add: posix_validate_Inr)
  obtain ab where a: "encode_aces (access acl) = Inr ab" "parse_aces ab False = Inr (access acl)"
    using validated_encodes [OF v assms(2)] by blast
  show ?thesis
  proof (cases "default_acl acl")
    case None
    with a show ?thesis
      by (cases acl) (simp add: access_bytes_def default_bytes_def from_xattr_def)
  next
    case (Some ds)
    with assms(1) have v': "validate_entries ds ''default'' = Inr ()"
      by (simp add: posix_validate_Inr)
    obtain db where "encode_aces ds = Inr db" "parse_aces db True = Inr ds"
      using validated_encodes [OF v'] assms(3) Some by blast
    with a Some show ?thesis
      by (cases acl) (simp add: access_bytes_def default_bytes_def from_xattr_def)
  qed
qed

definition sample_entries :: "bool \<Rightarrow> PosixAce list" where
  "sample_entries d =
     [\<lparr>tag = UserObj, perms = 7, aid = -1, default_ace = d\<rparr>,
      \<lparr>tag = User, perms = 6, aid = 3000, default_ace = d\<rparr>,
      \<lparr>tag = GroupObj, perms = 7, aid = -1, default_ace = d\<rparr>,
      \<lparr>tag = Mask, perms = 7, aid = -1, default_ace = d\<rparr>,
      \<lparr>tag = Other, perms = 5, aid = -1, default_ace = d\<rparr>]"

definition sample_acl :: PosixAcl where
  "sample_acl = \<lparr>access = sample_entries False, default_acl = Some (sample_entries True),
     synthesized = False\<rparr>"

lemma sample_acl_valid: "Acl_Posix.validate sample_acl True = Inr ()"
  by code_simp

lemma sample_entries_wf: "\<forall>a \<in> set (sample_entries d). ace_wf d a"
  by (simp add: sample_entries_def ace_wf_def is_special_def)

theorem posix_validated_roundtrip_witness:
  "\<exists>ab db. access_bytes sample_acl = Inr ab \<and> default_bytes sample_acl = Inr db
     \<and> Acl_Posix.from_xattr ab db = Inr sample_acl"
  using posix_validated_roundtrip [OF sample_acl_valid] sample_entries_wf
  by (simp add: sample_acl_def)

text \<open>
  Decoding never yields entries that cannot be written: every list \<open>parse_aces\<close> accepts
  encodes again and decodes to the same list, and the bytes are the input's when the input is
  not empty and its special entries carry the undefined-id sentinel.
\<close>

theorem posix_decoded_roundtrip:
  assumes "parse_aces d is_default = Inr as"
  shows "\<exists>b. encode_aces as = Inr b \<and> parse_aces b is_default = Inr as \<and>
    (d \<noteq> [] \<and> (\<forall>i < length as. ace_canon d (4 + i * 8)) \<longrightarrow> b = d)"
proof -
  have "\<forall>a \<in> set as. ace_wf is_default a"
    and ids: "\<forall>a \<in> set as. \<not> is_special (tag a) \<longrightarrow> 0 \<le> aid a \<and> aid a < 0xFFFFFFFF"
    using parse_aces_wf [OF assms] by auto
  moreover from ids obtain b where "encode_aces as = Inr b" by (rule encode_aces_total)
  ultimately show ?thesis
    using encode_parse_aces [OF assms] parse_aces_encode by auto
qed

definition sample_blob :: bytes where
  "sample_blob = [2,0,0,0, 1,0,7,0,255,255,255,255, 4,0,5,0,255,255,255,255, 32,0,0,0,255,255,255,255]"

theorem posix_decoded_roundtrip_witness:
  "\<exists>as. parse_aces sample_blob False = Inr as \<and> length as = 3 \<and>
    (\<exists>b. encode_aces as = Inr b \<and> parse_aces b False = Inr as)"
proof -
  have "parse_aces sample_blob False = Inr (access (synthesize_from_mode 0x1E8))"
    by code_simp
  moreover from posix_decoded_roundtrip [OF this] have
    "\<exists>b. encode_aces (access (synthesize_from_mode 0x1E8)) = Inr b
       \<and> parse_aces b False = Inr (access (synthesize_from_mode 0x1E8))" by blast
  moreover have "length (access (synthesize_from_mode 0x1E8)) = 3"
    by (simp add: synthesize_from_mode_def)
  ultimately show ?thesis by blast
qed

text \<open>
  C7. The counters and the non-decreasing tag test of \<open>validate_entries\<close> accept exactly what the
  kernel's state machine accepts: entries with no bit outside rwx and, for named tags, an id
  below the sentinel, whose tags are accepted by the automaton.
\<close>

theorem posix_validate_automaton:
  "validate_entries as label = Inr () \<longleftrightarrow>
     list_all entry_ok as \<and> accepts Want_UserObj False (map tag as)"
  by (simp add: validate_entries_Inr accepts_tag_shape list_all_iff)

text \<open>
  \<open>from_aces\<close> repairs the order and nothing else is left to repair: if any arrangement of the
  given access entries validates, the access list \<open>from_aces\<close> builds validates.
\<close>

theorem posix_from_aces_validates:
  assumes "mset bs = mset (filter (\<lambda>a. \<not> default_ace a) as)"
    and "validate_entries bs label = Inr ()"
  shows "validate_entries (access (Acl_Posix.from_aces as)) label = Inr ()"
  unfolding from_aces_access using assms(1) [symmetric] assms(2) by (rule validate_entries_sorted)

theorem posix_from_aces_validates_witness:
  "validate_entries (access (Acl_Posix.from_aces (rev (sample_entries False)))) ''access'' = Inr ()"
proof (rule posix_from_aces_validates)
  show "validate_entries (sample_entries False) ''access'' = Inr ()" by code_simp
  show "mset (sample_entries False) = mset (filter (\<lambda>a. \<not> default_ace a) (rev (sample_entries False)))"
    by (simp add: sample_entries_def)
qed

text \<open>
  C5. The ACL and the mode a new object gets, in closed form. For an ACL whose default list
  validates, inheritance succeeds; each entry's permissions are intersected with its class's
  three mode bits (the mask stands for the group class when there is one, and then the owning
  group is left alone); the new mode's permission bits are the surviving owner, group-class and
  other permissions, so no bit is added to the requested mode; a directory gets the default
  list too; and the result validates.
\<close>

theorem posix_inherit_closed_form:
  assumes "default_acl acl = Some ds" and "validate_entries ds ''default'' = Inr ()"
  shows "let acc = map (masq_ace mode (has_mask ds)) (map (\<lambda>a. a\<lparr>default_ace := False\<rparr>) ds);
             child = \<lparr>access = acc,
                      default_acl = (if is_dir then Some (map (\<lambda>a. a\<lparr>default_ace := True\<rparr>) ds) else None),
                      synthesized = False\<rparr>;
             mode' = mode_splice mode (mode_of_entries acc)
         in Acl_Posix.generate_inherited_acl acl is_dir mode = Inr (child, mode')
            \<and> contains mode mode' \<and> Acl_Posix.validate child is_dir = Inr ()"
  unfolding Let_def
proof (intro conjI)
  let ?ds = "map (\<lambda>a. a\<lparr>default_ace := False\<rparr>) ds"
  have v: "validate_entries ?ds ''access'' = Inr ()"
    using assms(2) by (simp only: validate_default_flag [of _ _ _ "''default''"])
  show "Acl_Posix.generate_inherited_acl acl is_dir mode =
      Inr (\<lparr>access = map (masq_ace mode (has_mask ds)) ?ds,
            default_acl = (if is_dir then Some (map (\<lambda>a. a\<lparr>default_ace := True\<rparr>) ds) else None),
            synthesized = False\<rparr>,
           mode_splice mode (mode_of_entries (map (masq_ace mode (has_mask ds)) ?ds)))"
    using create_masq_validated [OF v, of mode] assms(1)
    by (simp add: generate_inherited_acl_def)
  show "contains mode (mode_splice mode (mode_of_entries (map (masq_ace mode (has_mask ds)) ?ds)))"
    using mode_of_masq_le [of mode ?ds]
    by (auto simp: contains_bits bit_mode_splice split: if_splits)
  show "Acl_Posix.validate \<lparr>access = map (masq_ace mode (has_mask ds)) ?ds,
      default_acl = (if is_dir then Some (map (\<lambda>a. a\<lparr>default_ace := True\<rparr>) ds) else None),
      synthesized = False\<rparr> is_dir = Inr ()"
    using validate_masq [OF v] assms(2) validate_default_flag [of True ds "''default''" "''default''"]
    by (simp add: posix_validate_Inr del: map_map)
qed

theorem posix_inherit_closed_form_witness:
  "\<exists>child. Acl_Posix.generate_inherited_acl sample_acl True 0x1C0 = Inr (child, 0x1C0)
     \<and> map perms (access child) = [7, 6, 7, 0, 0]"
proof -
  have "validate_entries (sample_entries True) ''default'' = Inr ()" by code_simp
  from posix_inherit_closed_form [OF _ this, where acl = sample_acl and mode = "0x1C0" and is_dir = True]
  show ?thesis
    by (simp add: sample_acl_def sample_entries_def masq_ace_def has_mask_def mode_class_def
        mode_splice_def mode_of_entries_def perms_of_def PosixPerm_from_bits_truncate_def
        PosixPerm_all_def EXECUTE_def WRITE_def READ_def Let_def)
qed

text \<open>
  The ACL synthesised for a file without an access ACL says exactly what the mode says: it
  validates, needs no mask, is reported trivial, and the mode bits it stands for are the
  permission bits of the mode.
\<close>

theorem posix_synthesize_faithful:
  "Acl_Posix.validate (synthesize_from_mode mode) is_dir = Inr () \<and>
   equivalent_to_mode (synthesize_from_mode mode) \<and> Acl_Posix.trivial (synthesize_from_mode mode) \<and>
   mode_of_entries (access (synthesize_from_mode mode)) = mode AND 0x1FF"
proof (intro conjI)
  show "Acl_Posix.validate (synthesize_from_mode mode) is_dir = Inr ()"
    by (auto simp: posix_validate_Inr validate_entries_Inr synthesize_from_mode_def tag_shape_def entry_ok_def
        is_special_def rwx_bits bit_unsigned_iff bit_and_iff bit_mode_numerals
        simp del: bit_numeral_word_iff)
  show "equivalent_to_mode (synthesize_from_mode mode)" "Acl_Posix.trivial (synthesize_from_mode mode)"
    by (simp_all add: equivalent_to_mode_def trivial_def synthesize_from_mode_def)
  show "mode_of_entries (access (synthesize_from_mode mode)) = mode AND 0x1FF"
  proof (rule bit_eqI)
    fix n
    show "bit (mode_of_entries (access (synthesize_from_mode mode))) n \<longleftrightarrow> bit (mode AND 0x1FF) n"
      by (cases "n < 3"; cases "n < 6")
        (auto simp: mode_of_entries_def synthesize_from_mode_def perms_of_def has_mask_def
          bit_or_iff bit_and_iff bit_push_bit_iff bit_unsigned_iff bit_drop_bit_eq bit_mode_numerals
          simp del: bit_numeral_word_iff)
  qed
qed

end
