(* ===== verification/Acl_Lossy.thy ===== *)
theory Acl_Lossy
  imports Acl_Nfs4 Acl_Posix
begin

text \<open>
  The lossy translations between the two ACL models: \<^verbatim>\<open>src/sync_fs/acl/lossy.rs\<close>. The
  specification is an access check on either side: \<open>posix_allows\<close> picks one entry per caller as
  POSIX does, \<open>nfs4_verdict\<close> takes the first matching ACE as NFSv4 does. The lemmas show that
  \<open>to_nfs4_lossy\<close> preserves access exactly and that \<open>to_posix_lossy\<close> never widens it.
\<close>

unbundle bit_operations_syntax

section \<open>Mode-bit translations\<close>

definition READ_MODE :: u32 where "READ_MODE = READ_DATA"
definition WRITE_MODE :: u32 where "WRITE_MODE = WRITE_DATA OR APPEND_DATA"
definition EXECUTE_MODE :: u32 where "EXECUTE_MODE = Acl_Nfs4.EXECUTE"
definition ANYONE_MODE :: u32 where "ANYONE_MODE = READ_ATTRIBUTES OR READ_ACL OR SYNCHRONIZE"
definition OWNER_MODE :: u32 where "OWNER_MODE = WRITE_ATTRIBUTES OR WRITE_ACL"
definition INHERITABLE :: u32 where "INHERITABLE = FILE_INHERIT OR DIRECTORY_INHERIT"

definition deny_mask_from_posix :: "u16 \<Rightarrow> bool \<Rightarrow> u32" where
  "deny_mask_from_posix perm is_dir =
     (let m = 0;
          m = (if contains perm READ then m OR READ_MODE else m);
          m = (if contains perm WRITE
               then (if is_dir then (m OR WRITE_MODE) OR DELETE_CHILD else m OR WRITE_MODE) else m);
          m = (if contains perm Acl_Posix.EXECUTE then m OR EXECUTE_MODE else m)
      in m)"

definition mask_from_posix :: "u16 \<Rightarrow> bool \<Rightarrow> bool \<Rightarrow> u32" where
  "mask_from_posix perm is_dir is_owner =
     (let m = ANYONE_MODE OR deny_mask_from_posix perm is_dir
      in if is_owner then m OR OWNER_MODE else m)"

definition low_mode_from_nfs4 :: "u32 \<Rightarrow> bool \<Rightarrow> u16" where
  "low_mode_from_nfs4 perm is_dir =
     (let write_mode = (if is_dir then WRITE_MODE OR DELETE_CHILD else WRITE_MODE);
          m = 0;
          m = (if contains perm READ_MODE then m OR READ else m);
          m = (if contains perm write_mode then m OR WRITE else m);
          m = (if contains perm EXECUTE_MODE then m OR Acl_Posix.EXECUTE else m)
      in m)"

section \<open>POSIX to NFS4\<close>

record PosixSummary =
  ps_owner :: u16
  ps_users :: u16
  ps_group :: u16
  ps_groups :: u16
  ps_other :: u16
  ps_mask :: u16

definition summarize_step :: "PosixAce \<Rightarrow> PosixSummary \<Rightarrow> PosixSummary" where
  "summarize_step a s =
     (case tag a of
        UserObj \<Rightarrow> s\<lparr>ps_owner := perms a\<rparr>
      | User \<Rightarrow> s\<lparr>ps_users := ps_users s OR perms a\<rparr>
      | GroupObj \<Rightarrow> s\<lparr>ps_group := perms a\<rparr>
      | PosixTag.Group \<Rightarrow> s\<lparr>ps_groups := ps_groups s OR perms a\<rparr>
      | Mask \<Rightarrow> s\<lparr>ps_mask := perms a\<rparr>
      | Other \<Rightarrow> s\<lparr>ps_other := perms a\<rparr>)"

definition summarize :: "PosixAce list \<Rightarrow> PosixSummary" where
  "summarize as =
     (let s = fold summarize_step as
                \<lparr>ps_owner = 0, ps_users = 0, ps_group = 0, ps_groups = 0, ps_other = 0,
                 ps_mask = PosixPerm_all\<rparr>
      in s\<lparr>ps_users := ps_users s AND ps_mask s, ps_group := ps_group s AND ps_mask s,
           ps_groups := ps_groups s AND ps_mask s\<rparr>)"

text \<open>\<^verbatim>\<open>!p\<close> on the \<^verbatim>\<open>bitflags\<close> type truncates to the defined bits.\<close>

definition PosixPerm_not :: "u16 \<Rightarrow> u16" where
  "PosixPerm_not p = PosixPerm_from_bits_truncate (NOT p)"

text \<open>The pattern \<^verbatim>\<open>if !deny.is_empty() { out.push(... Deny ...) }\<close> of \<^verbatim>\<open>translate_one\<close>.\<close>

definition deny_unless_empty :: "u16 \<Rightarrow> bool \<Rightarrow> u32 \<Rightarrow> Nfs4Who \<Rightarrow> int \<Rightarrow> Nfs4Ace list" where
  "deny_unless_empty d is_dir fl who wid =
     (if d \<noteq> 0 then [Nfs4Ace_new Deny fl (deny_mask_from_posix d is_dir) who wid] else [])"

definition translate_one :: "PosixAce list \<Rightarrow> bool \<Rightarrow> bool \<Rightarrow> Nfs4Ace list" where
  "translate_one as is_dir inherit_only =
     (let pas = summarize as;
          eflag = (if inherit_only then INHERITABLE OR INHERIT_ONLY else 0);
          gflag = eflag OR IDENTIFIER_GROUP;
          users = filter (\<lambda>a. tag a = User) as;
          groups = filter (\<lambda>a. tag a = PosixTag.Group) as
      in deny_unless_empty
           (PosixPerm_not (ps_owner pas)
            AND (((ps_users pas OR ps_group pas) OR ps_groups pas) OR ps_other pas))
           is_dir eflag Owner (-1)
         @ [Nfs4Ace_new Allow eflag (mask_from_posix (ps_owner pas) is_dir True) Owner (-1)]
         @ concat (map (\<lambda>a.
             let eff = perms a AND ps_mask pas
             in deny_unless_empty
                  (PosixPerm_not eff AND ((ps_groups pas OR ps_group pas) OR ps_other pas))
                  is_dir eflag Named (aid a)
                @ [Nfs4Ace_new Allow eflag (mask_from_posix eff is_dir False) Named (aid a)]) users)
         @ [Nfs4Ace_new Allow eflag (mask_from_posix (ps_group pas) is_dir False) Nfs4Who.Group (-1)]
         @ map (\<lambda>a. Nfs4Ace_new Allow gflag
                       (mask_from_posix (perms a AND ps_mask pas) is_dir False) Named (aid a)) groups
         @ deny_unless_empty (PosixPerm_not (ps_group pas) AND ps_other pas)
             is_dir eflag Nfs4Who.Group (-1)
         @ concat (map (\<lambda>a.
             deny_unless_empty (PosixPerm_not (perms a AND ps_mask pas) AND ps_other pas)
               is_dir gflag Named (aid a)) groups)
         @ [Nfs4Ace_new Allow eflag (mask_from_posix (ps_other pas) is_dir False) Everyone (-1)])"

definition to_nfs4_lossy :: "PosixAcl \<Rightarrow> bool \<Rightarrow> error + Nfs4Acl" where
  "to_nfs4_lossy acl is_dir =
     bind_res (Acl_Posix.validate acl is_dir) (\<lambda>_.
       Inr \<lparr>acl_flags = (if is_dir then ACL_IS_DIR else 0),
            aces = translate_one (access acl) is_dir False
                   @ (case default_acl acl of
                        Some ds \<Rightarrow> translate_one ds is_dir True
                      | None \<Rightarrow> [])\<rparr>)"

section \<open>NFS4 to POSIX\<close>

record AceState =
  allow :: u32
  deny :: u32

definition AceState_EMPTY :: AceState where
  "AceState_EMPTY = \<lparr>allow = 0, deny = 0\<rparr>"

definition allow_bits :: "u32 \<Rightarrow> AceState \<Rightarrow> AceState" where
  "allow_bits m p = p\<lparr>allow := allow p OR difference m (deny p)\<rparr>"

definition deny_bits :: "u32 \<Rightarrow> AceState \<Rightarrow> AceState" where
  "deny_bits m p = p\<lparr>deny := deny p OR difference m (allow p)\<rparr>"

type_synonym named_states = "(int \<times> AceState) list"

definition allow_bits_all :: "u32 \<Rightarrow> named_states \<Rightarrow> named_states" where
  "allow_bits_all m = map (\<lambda>(i, p). (i, allow_bits m p))"

definition deny_bits_all :: "u32 \<Rightarrow> named_states \<Rightarrow> named_states" where
  "deny_bits_all m = map (\<lambda>(i, p). (i, deny_bits m p))"

definition ace2tag :: "Nfs4Ace \<Rightarrow> PosixTag" where
  "ace2tag a =
     (case who_type a of
        Named \<Rightarrow> if contains (ace_flags a) IDENTIFIER_GROUP then PosixTag.Group else User
      | Owner \<Rightarrow> UserObj
      | Nfs4Who.Group \<Rightarrow> GroupObj
      | Everyone \<Rightarrow> Other)"

record AclState =
  st_valid :: u16
  st_owner :: AceState
  st_group :: AceState
  st_other :: AceState
  st_everyone :: AceState
  st_users :: named_states
  st_groups :: named_states

definition AclState_new :: AclState where
  "AclState_new =
     \<lparr>st_valid = 0, st_owner = AceState_EMPTY, st_group = AceState_EMPTY, st_other = AceState_EMPTY,
      st_everyone = AceState_EMPTY, st_users = [], st_groups = []\<rparr>"

definition saw :: "AclState \<Rightarrow> PosixTag \<Rightarrow> bool" where
  "saw st t \<longleftrightarrow> st_valid st AND PosixTag_repr t \<noteq> 0"

definition slot :: "named_states \<Rightarrow> AceState \<Rightarrow> int \<Rightarrow> named_states \<times> nat" where
  "slot list everyone i =
     (case position (\<lambda>(x, _). x = i) list of
        Some k \<Rightarrow> (list, k)
      | None \<Rightarrow> (list @ [(i, everyone)], length list))"

text \<open>\<^verbatim>\<open>list[i].1.f(..)\<close>: the state at an index, rewritten in place.\<close>

definition at_slot :: "(AceState \<Rightarrow> AceState) \<Rightarrow> named_states \<times> nat \<Rightarrow> named_states" where
  "at_slot f = (\<lambda>(list, k). list[k := (fst (list ! k), f (snd (list ! k)))])"

definition process :: "Nfs4Ace \<Rightarrow> AclState \<Rightarrow> AclState" where
  "process ace st0 =
     (let am = access_mask ace;
          is_allow = (ace_type ace = Allow);
          t = ace2tag ace;
          st = st0\<lparr>st_valid := st_valid st0 OR PosixTag_repr t\<rparr>
      in case t of
           UserObj \<Rightarrow>
             if is_allow then st\<lparr>st_owner := allow_bits am (st_owner st)\<rparr>
             else st\<lparr>st_owner := deny_bits am (st_owner st)\<rparr>
         | User \<Rightarrow>
             (let sl = slot (st_users st) (st_everyone st) (who_id ace)
              in if is_allow then st\<lparr>st_users := at_slot (allow_bits am) sl\<rparr>
                 else
                   (let users = at_slot (deny_bits am) sl;
                        denied = deny (snd (users ! snd sl))
                    in st\<lparr>st_users := users, st_owner := deny_bits denied (st_owner st)\<rparr>))
         | GroupObj \<Rightarrow>
             if is_allow then st\<lparr>st_group := allow_bits am (st_group st)\<rparr>
             else
               (let group = deny_bits am (st_group st);
                    denied = deny group
                in st\<lparr>st_group := group,
                      st_owner := deny_bits denied (st_owner st),
                      st_everyone := deny_bits denied (st_everyone st),
                      st_users := deny_bits_all denied (st_users st),
                      st_groups := deny_bits_all denied (st_groups st)\<rparr>)
         | PosixTag.Group \<Rightarrow>
             (let sl = slot (st_groups st) (st_everyone st) (who_id ace)
              in if is_allow then st\<lparr>st_groups := at_slot (allow_bits am) sl\<rparr>
                 else
                   (let groups = at_slot (deny_bits am) sl;
                        denied = deny (snd (groups ! snd sl))
                    in st\<lparr>st_owner := deny_bits denied (st_owner st),
                          st_group := deny_bits denied (st_group st),
                          st_everyone := deny_bits denied (st_everyone st),
                          st_users := deny_bits_all denied (st_users st),
                          st_groups := deny_bits_all denied groups\<rparr>))
         | Other \<Rightarrow>
             if is_allow then
               st\<lparr>st_owner := allow_bits am (st_owner st), st_group := allow_bits am (st_group st),
                  st_other := allow_bits am (st_other st),
                  st_everyone := allow_bits am (st_everyone st),
                  st_users := allow_bits_all am (st_users st),
                  st_groups := allow_bits_all am (st_groups st)\<rparr>
             else
               st\<lparr>st_owner := deny_bits am (st_owner st), st_group := deny_bits am (st_group st),
                  st_other := deny_bits am (st_other st),
                  st_everyone := deny_bits am (st_everyone st),
                  st_users := deny_bits_all am (st_users st),
                  st_groups := deny_bits_all am (st_groups st)\<rparr>
         | Mask \<Rightarrow> st)"

definition state_to_entries :: "AclState \<Rightarrow> bool \<Rightarrow> bool \<Rightarrow> PosixAce list" where
  "state_to_entries state is_dir dflt =
     (let entry = (\<lambda>t perm i. \<lparr>tag = t, perms = low_mode_from_nfs4 perm is_dir, aid = i,
                               default_ace = dflt\<rparr>);
          named = length (st_users state) + length (st_groups state);
          m = fold (\<lambda>(_, p) acc. acc OR allow p) (st_users state @ st_groups state)
                (allow (st_group state))
      in [entry UserObj (allow (st_owner state)) (-1)]
         @ map (\<lambda>(i, p). entry User (allow p) i) (st_users state)
         @ [entry GroupObj (allow (st_group state)) (-1)]
         @ map (\<lambda>(i, p). entry PosixTag.Group (allow p) i) (st_groups state)
         @ (if named > 0 then [entry Mask m (-1)] else [])
         @ [entry Other (allow (st_other state)) (-1)])"

text \<open>One iteration of the loop of \<^verbatim>\<open>to_posix_lossy\<close> over the pair (effective, inheritable).\<close>

definition lossy_step :: "bool \<Rightarrow> Nfs4Ace \<Rightarrow> AclState \<times> AclState \<Rightarrow> AclState \<times> AclState" where
  "lossy_step is_dir ace = (\<lambda>(effective, inheritable).
     if \<not> (ace_type ace = Allow \<or> ace_type ace = Deny) then (effective, inheritable)
     else
       ((if \<not> contains (ace_flags ace) INHERIT_ONLY then process ace effective else effective),
        (if is_dir \<and> intersects (ace_flags ace) INHERITABLE then process ace inheritable
         else inheritable)))"

definition fill_inheritable :: "AclState \<Rightarrow> AclState \<Rightarrow> AclState" where
  "fill_inheritable effective inheritable =
     (if st_valid inheritable \<noteq> 0 then
        (let i1 = (if \<not> saw inheritable UserObj
                   then inheritable\<lparr>st_owner := st_owner effective\<rparr> else inheritable);
             i2 = (if \<not> saw inheritable GroupObj
                   then i1\<lparr>st_group := st_group effective\<rparr> else i1)
         in if \<not> saw inheritable Other then i2\<lparr>st_other := st_other effective\<rparr> else i2)
      else inheritable)"

definition to_posix_lossy :: "Nfs4Acl \<Rightarrow> bool \<Rightarrow> error + PosixAcl" where
  "to_posix_lossy acl is_dir =
     (let (effective, inheritable0) =
            fold (lossy_step is_dir) (aces acl) (AclState_new, AclState_new);
          inheritable = fill_inheritable effective inheritable0;
          entries = state_to_entries effective is_dir False
                    @ (if st_valid inheritable \<noteq> 0 then state_to_entries inheritable is_dir True
                       else []);
          pacl = Acl_Posix.from_aces entries
      in bind_res (Acl_Posix.validate pacl is_dir) (\<lambda>_. Inr pacl))"


section \<open>The two access checks\<close>

text \<open>
  A caller: whether it owns the file, its uid, whether it is in the owning group, and the other
  groups it is in.
\<close>

record subject =
  is_owner :: bool
  uid :: int
  in_group :: bool
  gids :: "int list"

text \<open>
  The NFSv4 check for one bit of the access mask: the first ACE that applies to the object, names
  the caller and holds the bit decides; \<open>None\<close> means that no ACE does.
\<close>

definition nfs4_applies :: "subject \<Rightarrow> nat \<Rightarrow> Nfs4Ace \<Rightarrow> bool" where
  "nfs4_applies s n a \<longleftrightarrow>
     (ace_type a = Allow \<or> ace_type a = Deny) \<and> \<not> bit (ace_flags a) 3 \<and> bit (access_mask a) n \<and>
     (case who_type a of
        Owner \<Rightarrow> is_owner s
      | Nfs4Who.Group \<Rightarrow> in_group s
      | Everyone \<Rightarrow> True
      | Named \<Rightarrow> if bit (ace_flags a) 6 then who_id a \<in> set (gids s) else who_id a = uid s)"

fun nfs4_verdict :: "subject \<Rightarrow> nat \<Rightarrow> Nfs4Ace list \<Rightarrow> bool option" where
  "nfs4_verdict s n [] = None"
| "nfs4_verdict s n (a # as) =
     (if nfs4_applies s n a then Some (ace_type a = Allow) else nfs4_verdict s n as)"

text \<open>
  The POSIX check for one permission bit: the owner entry for the owner, else the caller's named
  user entry, else the matching group entries (any one may grant), else the other entry; the
  mask limits named users and groups.
\<close>

definition posix_mask :: "PosixAce list \<Rightarrow> u16" where
  "posix_mask as = (if has_mask as then perms_of Mask as else PosixPerm_all)"

definition group_matches :: "subject \<Rightarrow> PosixAce \<Rightarrow> bool" where
  "group_matches s a \<longleftrightarrow>
     tag a = GroupObj \<and> in_group s \<or> tag a = PosixTag.Group \<and> aid a \<in> set (gids s)"

definition posix_allows :: "subject \<Rightarrow> nat \<Rightarrow> PosixAce list \<Rightarrow> bool" where
  "posix_allows s k as =
     (if is_owner s then bit (perms_of UserObj as) k
      else case find (\<lambda>a. tag a = User \<and> aid a = uid s) as of
        Some a \<Rightarrow> bit (perms a AND posix_mask as) k
      | None \<Rightarrow>
          (let matching = filter (group_matches s) as
           in if matching \<noteq> [] then list_ex (\<lambda>a. bit (perms a AND posix_mask as) k) matching
              else bit (perms_of Other as) k))"

text \<open>The NFS4 bits that stand for a POSIX permission bit (2 is read, 1 is write, 0 is execute).\<close>

definition perm_bits :: "bool \<Rightarrow> nat \<Rightarrow> nat list" where
  "perm_bits is_dir k =
     (if k = 2 then [0]
      else if k = 1 then (if is_dir then [1, 2, 6] else [1, 2])
      else if k = 0 then [5] else [])"

lemmas perm_defs =
  READ_MODE_def WRITE_MODE_def EXECUTE_MODE_def ANYONE_MODE_def OWNER_MODE_def
  READ_DATA_def WRITE_DATA_def APPEND_DATA_def Acl_Nfs4.EXECUTE_def DELETE_CHILD_def
  READ_ATTRIBUTES_def READ_ACL_def SYNCHRONIZE_def WRITE_ATTRIBUTES_def WRITE_ACL_def

lemma contains_posix [flag_simps]:
  "contains q READ \<longleftrightarrow> bit q 2" "contains q WRITE \<longleftrightarrow> bit q 1" "contains q Acl_Posix.EXECUTE \<longleftrightarrow> bit q 0"
  using contains_exp [of 2 q] contains_exp [of 1 q] contains_exp [of 0 q]
  by (simp_all add: READ_def WRITE_def Acl_Posix.EXECUTE_def)

lemma bit_deny_mask:
  "b \<in> set (perm_bits is_dir k) \<Longrightarrow> bit (deny_mask_from_posix q is_dir) b \<longleftrightarrow> bit q k"
  by (auto simp: perm_bits_def deny_mask_from_posix_def contains_posix perm_defs Let_def bit_or_iff
      split: if_splits)

lemma bit_mask_from_posix:
  "b \<in> set (perm_bits is_dir k) \<Longrightarrow> bit (mask_from_posix q is_dir own) b \<longleftrightarrow> bit q k"
  using bit_deny_mask [of b is_dir k q]
  by (auto simp: perm_bits_def mask_from_posix_def perm_defs Let_def bit_or_iff split: if_splits)

lemma perm_bits_lt: "b \<in> set (perm_bits is_dir k) \<Longrightarrow> k < 3"
  by (auto simp: perm_bits_def split: if_splits)

lemma nfs4_verdict_append:
  "nfs4_verdict s n (as @ bs) =
     (case nfs4_verdict s n as of None \<Rightarrow> nfs4_verdict s n bs | Some v \<Rightarrow> Some v)"
  by (induction as) auto

section \<open>The summary of an entry list\<close>

lemma bit_PosixPerm_not: "bit (PosixPerm_not p) k \<longleftrightarrow> k < 3 \<and> \<not> bit p k"
  unfolding PosixPerm_not_def PosixPerm_from_bits_truncate_def bit_and_iff bit_not_iff
    bit_PosixPerm_all
  by auto

lemma fold_summarize:
  defines "s as s0 \<equiv> fold summarize_step as s0"
  shows "bit (ps_users (s as s0)) k \<longleftrightarrow> bit (ps_users s0) k \<or> (\<exists>a \<in> set as. tag a = User \<and> bit (perms a) k)"
    "bit (ps_groups (s as s0)) k \<longleftrightarrow>
       bit (ps_groups s0) k \<or> (\<exists>a \<in> set as. tag a = PosixTag.Group \<and> bit (perms a) k)"
  unfolding s_def
  by (induction as arbitrary: s0) (auto simp: summarize_step_def bit_or_iff split: PosixTag.splits)

lemma fold_summarize_named:
  assumes "\<forall>a \<in> set as. tag a = User \<or> tag a = PosixTag.Group"
  shows "ps_owner (fold summarize_step as s0) = ps_owner s0"
    "ps_group (fold summarize_step as s0) = ps_group s0"
    "ps_other (fold summarize_step as s0) = ps_other s0"
    "ps_mask (fold summarize_step as s0) = ps_mask s0"
  using assms by (induction as arbitrary: s0) (auto simp: summarize_step_def)

lemma summarize_single:
  assumes "tag_shape (map tag as)"
  shows "ps_owner (summarize as) = perms_of UserObj as"
    "ps_group (summarize as) = perms_of GroupObj as AND posix_mask as"
    "ps_other (summarize as) = perms_of Other as"
    "ps_mask (summarize as) = posix_mask as"
proof -
  have "ps_owner (summarize as) = perms_of UserObj as \<and>
    ps_group (summarize as) = perms_of GroupObj as AND posix_mask as \<and>
    ps_other (summarize as) = perms_of Other as \<and> ps_mask (summarize as) = posix_mask as"
    using assms
  proof (cases rule: tag_shape_cases)
    case (plain uo go ot)
    then show ?thesis
      by (simp add: summarize_def summarize_step_def perms_of_def posix_mask_def has_mask_def Let_def)
  next
    case (extended uo us go gs mk ot)
    then have named: "\<forall>a \<in> set us. tag a = User \<or> tag a = PosixTag.Group"
      "\<forall>a \<in> set gs. tag a = User \<or> tag a = PosixTag.Group" by auto
    have f: "filter (\<lambda>a. tag a = t) us = []" "filter (\<lambda>a. tag a = t) gs = []"
      if "t \<noteq> User" "t \<noteq> PosixTag.Group" for t
      using extended that by (auto simp: filter_empty_conv)
    from extended(2-5) show ?thesis
      by (simp add: extended(1) summarize_def summarize_step_def perms_of_def posix_mask_def
          has_mask_def Let_def f fold_summarize_named [OF named(1)] fold_summarize_named [OF named(2)])
  qed
  then show "ps_owner (summarize as) = perms_of UserObj as"
    "ps_group (summarize as) = perms_of GroupObj as AND posix_mask as"
    "ps_other (summarize as) = perms_of Other as"
    "ps_mask (summarize as) = posix_mask as"
    by simp_all
qed

lemma summarize_named:
  assumes "tag_shape (map tag as)"
  shows "bit (ps_users (summarize as)) k \<longleftrightarrow>
      (\<exists>a \<in> set as. tag a = User \<and> bit (perms a AND posix_mask as) k)"
    "bit (ps_groups (summarize as)) k \<longleftrightarrow>
      (\<exists>a \<in> set as. tag a = PosixTag.Group \<and> bit (perms a AND posix_mask as) k)"
  using summarize_single(4) [OF assms]
  by (auto simp: summarize_def Let_def bit_and_iff fold_summarize)

section \<open>The translation to NFS4 preserves access\<close>

text \<open>The verdict of one emitted ACE on a bit that stands for permission \<open>k\<close>.\<close>

definition who_matches :: "subject \<Rightarrow> Nfs4Who \<Rightarrow> bool \<Rightarrow> int \<Rightarrow> bool" where
  "who_matches s who is_gid wid =
     (case who of
        Owner \<Rightarrow> is_owner s
      | Nfs4Who.Group \<Rightarrow> in_group s
      | Everyone \<Rightarrow> True
      | Named \<Rightarrow> if is_gid then wid \<in> set (gids s) else wid = uid s)"

lemma bit_eflag:
  "\<not> bit (0 :: u32) 3" "\<not> bit (0 :: u32) 6" "bit IDENTIFIER_GROUP 6" "\<not> bit IDENTIFIER_GROUP 3"
  "bit INHERIT_ONLY 3"
  by (simp_all add: nfs4_flag_defs)

lemma verdict_allow_ace:
  assumes "b \<in> set (perm_bits is_dir k)" "fl = 0 \<or> fl = IDENTIFIER_GROUP"
  shows "nfs4_verdict s b (Nfs4Ace_new Allow fl (mask_from_posix q is_dir own) who wid # as) =
    (if who_matches s who (fl = IDENTIFIER_GROUP) wid \<and> bit q k then Some True else nfs4_verdict s b as)"
  using assms
  by (cases who)
    (auto simp: nfs4_applies_def Nfs4Ace_new_def who_matches_def bit_mask_from_posix bit_eflag
      IDENTIFIER_GROUP_def)

lemma verdict_deny_ace:
  assumes "b \<in> set (perm_bits is_dir k)" "fl = 0 \<or> fl = IDENTIFIER_GROUP"
  shows "nfs4_verdict s b (deny_unless_empty d is_dir fl who wid @ as) =
    (if who_matches s who (fl = IDENTIFIER_GROUP) wid \<and> bit d k then Some False else nfs4_verdict s b as)"
  using assms
  by (cases who)
    (auto simp: nfs4_applies_def Nfs4Ace_new_def who_matches_def deny_unless_empty_def bit_deny_mask
      bit_eflag IDENTIFIER_GROUP_def)


lemma who_matches_simps [simp]:
  "who_matches s Owner g i = is_owner s" "who_matches s Nfs4Who.Group g i = in_group s"
  "who_matches s Everyone g i = True" "who_matches s Named False i = (i = uid s)"
  "who_matches s Named True i = (i \<in> set (gids s))"
  by (simp_all add: who_matches_def)

lemma zero_neq_IDENTIFIER_GROUP: "(0 = IDENTIFIER_GROUP) = False"
  by (simp add: IDENTIFIER_GROUP_def)

lemma verdict_users:
  assumes b: "b \<in> set (perm_bits is_dir k)" and "distinct (map aid us)"
  shows "nfs4_verdict s b
      (concat (map (\<lambda>a. deny_unless_empty (d a) is_dir 0 Named (aid a)
          @ [Nfs4Ace_new Allow 0 (mask_from_posix (e a) is_dir False) Named (aid a)]) us) @ rest) =
    (case find (\<lambda>a. aid a = uid s) us of
       None \<Rightarrow> nfs4_verdict s b rest
     | Some a \<Rightarrow> if bit (d a) k then Some False else if bit (e a) k then Some True
               else nfs4_verdict s b rest)"
  using assms(2)
proof (induction us)
  case Nil
  then show ?case by simp
next
  case (Cons a us)
  have "find (\<lambda>a'. aid a' = uid s) us = None" if "aid a = uid s"
    using Cons.prems that by (auto simp: find_None_iff image_iff)
  with Cons b show ?case
    by (auto simp: verdict_deny_ace verdict_allow_ace zero_neq_IDENTIFIER_GROUP
        simp del: nfs4_verdict.simps(2))
qed

lemma verdict_group_allows:
  assumes "b \<in> set (perm_bits is_dir k)"
  shows "nfs4_verdict s b
      (map (\<lambda>a. Nfs4Ace_new Allow IDENTIFIER_GROUP (mask_from_posix (e a) is_dir False) Named (aid a)) gs @ rest) =
    (if \<exists>a \<in> set gs. aid a \<in> set (gids s) \<and> bit (e a) k then Some True else nfs4_verdict s b rest)"
  using assms by (induction gs) (auto simp: verdict_allow_ace simp del: nfs4_verdict.simps(2))

lemma verdict_group_denies:
  assumes "b \<in> set (perm_bits is_dir k)"
  shows "nfs4_verdict s b
      (concat (map (\<lambda>a. deny_unless_empty (d a) is_dir IDENTIFIER_GROUP Named (aid a)) gs) @ rest) =
    (if \<exists>a \<in> set gs. aid a \<in> set (gids s) \<and> bit (d a) k then Some False else nfs4_verdict s b rest)"
  using assms by (induction gs) (auto simp: verdict_deny_ace simp del: nfs4_verdict.simps(2))

lemma verdict_group_class:
  assumes b: "b \<in> set (perm_bits is_dir k)"
  shows "nfs4_verdict s b
     (Nfs4Ace_new Allow 0 (mask_from_posix pg is_dir False) Nfs4Who.Group (-1)
      # map (\<lambda>a. Nfs4Ace_new Allow IDENTIFIER_GROUP (mask_from_posix (e a) is_dir False) Named (aid a)) gs
      @ deny_unless_empty (PosixPerm_not pg AND po) is_dir 0 Nfs4Who.Group (-1)
      @ concat (map (\<lambda>a. deny_unless_empty (PosixPerm_not (e a) AND po) is_dir IDENTIFIER_GROUP Named (aid a)) gs)
      @ Nfs4Ace_new Allow 0 (mask_from_posix po is_dir False) Everyone (-1) # rest) =
    (if in_group s \<and> bit pg k then Some True
     else if \<exists>a \<in> set gs. aid a \<in> set (gids s) \<and> bit (e a) k then Some True
     else if in_group s \<and> bit po k then Some False
     else if (\<exists>a \<in> set gs. aid a \<in> set (gids s)) \<and> bit po k then Some False
     else if bit po k then Some True else nfs4_verdict s b rest)"
proof -
  have k: "k < 3" using b by (rule perm_bits_lt)
  show ?thesis
    unfolding verdict_allow_ace [OF b disjI1 [OF refl]] verdict_group_allows [OF b]
      verdict_deny_ace [OF b disjI1 [OF refl]] verdict_group_denies [OF b]
      zero_neq_IDENTIFIER_GROUP who_matches_simps
    using k by (auto simp: bit_and_iff bit_PosixPerm_not)
qed

lemma verdict_None: "\<forall>a \<in> set as. \<not> nfs4_applies s b a \<Longrightarrow> nfs4_verdict s b as = None"
  by (induction as) auto

lemma verdict_inherit_only:
  "nfs4_verdict s b (translate_one as is_dir True) = None"
  by (rule verdict_None)
    (auto simp: translate_one_def Let_def nfs4_applies_def Nfs4Ace_new_def deny_unless_empty_def
      bit_or_iff bit_eflag split: if_splits)

lemma find_filter: "find P (filter Q xs) = find (\<lambda>x. Q x \<and> P x) xs"
  by (induction xs) auto

lemma translate_one_False:
  "translate_one as is_dir False @ rest =
     (let pas = summarize as; gs = filter (\<lambda>a. tag a = PosixTag.Group) as
      in deny_unless_empty
           (PosixPerm_not (ps_owner pas)
            AND (((ps_users pas OR ps_group pas) OR ps_groups pas) OR ps_other pas)) is_dir 0 Owner (-1)
       @ Nfs4Ace_new Allow 0 (mask_from_posix (ps_owner pas) is_dir True) Owner (-1)
       # concat (map (\<lambda>a. deny_unless_empty
            (PosixPerm_not (perms a AND ps_mask pas) AND ((ps_groups pas OR ps_group pas) OR ps_other pas))
              is_dir 0 Named (aid a)
            @ [Nfs4Ace_new Allow 0 (mask_from_posix (perms a AND ps_mask pas) is_dir False) Named (aid a)])
           (filter (\<lambda>a. tag a = User) as))
       @ Nfs4Ace_new Allow 0 (mask_from_posix (ps_group pas) is_dir False) Nfs4Who.Group (-1)
       # map (\<lambda>a. Nfs4Ace_new Allow IDENTIFIER_GROUP
            (mask_from_posix (perms a AND ps_mask pas) is_dir False) Named (aid a)) gs
       @ deny_unless_empty (PosixPerm_not (ps_group pas) AND ps_other pas) is_dir 0 Nfs4Who.Group (-1)
       @ concat (map (\<lambda>a. deny_unless_empty (PosixPerm_not (perms a AND ps_mask pas) AND ps_other pas)
            is_dir IDENTIFIER_GROUP Named (aid a)) gs)
       @ Nfs4Ace_new Allow 0 (mask_from_posix (ps_other pas) is_dir False) Everyone (-1) # rest)"
  by (simp add: translate_one_def Let_def)

lemma count_list_map: "count_list (map f xs) y = length (filter (\<lambda>x. f x = y) xs)"
  by (induction xs) auto

lemma tag_shape_GroupObj:
  assumes "tag_shape (map tag as)"
  obtains g where "filter (\<lambda>a. tag a = GroupObj) as = [g]"
proof -
  from assms have "length (filter (\<lambda>a. tag a = GroupObj) as) = 1"
    by (simp add: tag_shape_iff count_list_map)
  then show thesis
    using that by (cases "filter (\<lambda>a. tag a = GroupObj) as") auto
qed

text \<open>The group class of the POSIX check, in the terms of the summary.\<close>

lemma posix_group_class:
  assumes "tag_shape (map tag as)"
  shows "list_ex (\<lambda>a. bit (perms a AND M) k) (filter (group_matches s) as) \<longleftrightarrow>
      in_group s \<and> bit (perms_of GroupObj as AND M) k \<or>
      (\<exists>a \<in> set as. tag a = PosixTag.Group \<and> aid a \<in> set (gids s) \<and> bit (perms a AND M) k)"
    and "filter (group_matches s) as \<noteq> [] \<longleftrightarrow>
      in_group s \<or> (\<exists>a \<in> set as. tag a = PosixTag.Group \<and> aid a \<in> set (gids s))"
proof -
  obtain g where g: "filter (\<lambda>a. tag a = GroupObj) as = [g]"
    using assms by (rule tag_shape_GroupObj)
  then have mem: "set (filter (\<lambda>a. tag a = GroupObj) as) = {g}" by simp
  then have g1: "g \<in> set as" "tag g = GroupObj" and g2: "\<And>a. a \<in> set as \<Longrightarrow> tag a = GroupObj \<Longrightarrow> a = g"
    unfolding set_filter by blast+
  have po: "perms_of GroupObj as = perms g"
    by (simp add: perms_of_def g)
  show "list_ex (\<lambda>a. bit (perms a AND M) k) (filter (group_matches s) as) \<longleftrightarrow>
      in_group s \<and> bit (perms_of GroupObj as AND M) k \<or>
      (\<exists>a \<in> set as. tag a = PosixTag.Group \<and> aid a \<in> set (gids s) \<and> bit (perms a AND M) k)"
    unfolding po list_ex_iff set_filter group_matches_def using g1 by (auto dest: g2)
  show "filter (group_matches s) as \<noteq> [] \<longleftrightarrow>
      in_group s \<or> (\<exists>a \<in> set as. tag a = PosixTag.Group \<and> aid a \<in> set (gids s))"
    unfolding filter_empty_conv group_matches_def using g1 by (auto dest: g2)
qed

lemma verdict_translate_one:
  assumes b: "b \<in> set (perm_bits is_dir k)"
    and dist: "distinct (map aid (filter (\<lambda>a. tag a = User) as))"
    and shape: "tag_shape (map tag as)"
    and rest: "nfs4_verdict s b rest = None"
  shows "nfs4_verdict s b (translate_one as is_dir False @ rest) = Some True \<longleftrightarrow> posix_allows s k as"
proof -
  define M where "M = posix_mask as"
  note sum = summarize_single [OF shape, folded M_def] summarize_named [OF shape, folded M_def]
  have k: "k < 3" using b by (rule perm_bits_lt)
  have fnd: "a \<in> set as \<and> tag a = User" if "find (\<lambda>a. tag a = User \<and> aid a = uid s) as = Some a" for a
    using that by (auto simp: find_Some_iff)
  show ?thesis
    unfolding translate_one_False Let_def verdict_deny_ace [OF b disjI1 [OF refl], where who = Owner]
      verdict_allow_ace [OF b disjI1 [OF refl], where who = Owner] verdict_users [OF b dist]
      verdict_group_class [OF b] zero_neq_IDENTIFIER_GROUP who_matches_simps find_filter sum rest
      posix_allows_def M_def [symmetric] posix_group_class [OF shape]
    using k
    by (cases "is_owner s"; cases "find (\<lambda>a. tag a = User \<and> aid a = uid s) as")
      (auto simp: sum bit_and_iff bit_or_iff bit_PosixPerm_not dest: fnd split: if_splits)
qed


section \<open>The translation to POSIX tracks the NFS4 verdict\<close>

text \<open>
  \<open>tracks e P as\<close>: for the callers in \<open>P\<close>, what the state \<open>e\<close> has allowed the ACEs \<open>as\<close> allow, and
  what they deny it has denied. \<open>settles e Q as\<close>: a bit \<open>e\<close> has allowed is decided, one way or the
  other, for every caller in \<open>Q\<close>.
\<close>

definition tracks_bit :: "AceState \<Rightarrow> nat \<Rightarrow> bool option \<Rightarrow> bool" where
  "tracks_bit e n v \<longleftrightarrow> (bit (allow e) n \<longrightarrow> v = Some True) \<and> (v = Some False \<longrightarrow> bit (deny e) n)"

definition tracks :: "AceState \<Rightarrow> (subject \<Rightarrow> bool) \<Rightarrow> Nfs4Ace list \<Rightarrow> bool" where
  "tracks e P as \<longleftrightarrow> (\<forall>s n. P s \<longrightarrow> tracks_bit e n (nfs4_verdict s n as))"

definition settles :: "AceState \<Rightarrow> (subject \<Rightarrow> bool) \<Rightarrow> Nfs4Ace list \<Rightarrow> bool" where
  "settles e Q as \<longleftrightarrow> (\<forall>s n. Q s \<longrightarrow> bit (allow e) n \<longrightarrow> nfs4_verdict s n as \<noteq> None)"

lemma bit_allow_bits:
  "bit (allow (allow_bits m p)) n \<longleftrightarrow> bit (allow p) n \<or> bit m n \<and> \<not> bit (deny p) n"
  "deny (allow_bits m p) = deny p"
  by (auto simp: allow_bits_def bit_or_iff bit_difference)

lemma bit_deny_bits:
  "bit (deny (deny_bits m p)) n \<longleftrightarrow> bit (deny p) n \<or> bit m n \<and> \<not> bit (allow p) n"
  "allow (deny_bits m p) = allow p"
  by (auto simp: deny_bits_def bit_or_iff bit_difference)

definition next_verdict :: "bool option \<Rightarrow> bool \<Rightarrow> bool \<Rightarrow> bool option" where
  "next_verdict v applies allowed =
     (case v of Some x \<Rightarrow> Some x | None \<Rightarrow> if applies then Some allowed else None)"

lemma verdict_snoc:
  "nfs4_verdict s n (as @ [a]) = next_verdict (nfs4_verdict s n as) (nfs4_applies s n a) (ace_type a = Allow)"
  by (simp add: nfs4_verdict_append next_verdict_def split: option.splits)

lemma tracks_bit_next:
  "tracks_bit e n v \<Longrightarrow> tracks_bit e n (next_verdict v ap True)"
  "tracks_bit e n v \<Longrightarrow> tracks_bit e n (next_verdict v False al)"
  "tracks_bit e n v \<Longrightarrow> (bit m n \<longrightarrow> ap) \<Longrightarrow> tracks_bit (allow_bits m e) n (next_verdict v ap True)"
  "tracks_bit e n v \<Longrightarrow> (ap \<and> v = None \<longrightarrow> bit m n) \<Longrightarrow> tracks_bit (deny_bits m e) n (next_verdict v ap False)"
  unfolding tracks_bit_def next_verdict_def
  by (cases v; auto simp: bit_allow_bits bit_deny_bits)+

text \<open>How one more ACE is absorbed: by a state it does not touch, allows or denies.\<close>

lemma tracks_mono: "tracks e P as \<Longrightarrow> (\<And>s. P' s \<Longrightarrow> P s) \<Longrightarrow> tracks e P' as"
  by (auto simp: tracks_def)

lemma settles_snoc: "settles e Q as \<Longrightarrow> settles e Q (as @ [a])"
  by (fastforce simp: settles_def verdict_snoc next_verdict_def split: option.splits)

lemma settles_deny: "settles e Q as \<Longrightarrow> settles (deny_bits m e) Q (as @ [a])"
  by (drule settles_snoc [of _ _ _ a]) (simp add: settles_def bit_deny_bits)

lemma settles_allow:
  "settles e Q as \<Longrightarrow> (\<And>s n. Q s \<Longrightarrow> bit m n \<Longrightarrow> nfs4_applies s n a) \<Longrightarrow>
    settles (allow_bits m e) Q (as @ [a])"
  by (drule settles_snoc [of _ _ _ a])
    (auto simp: settles_def verdict_snoc bit_allow_bits next_verdict_def split: option.splits)

lemma tracks_allow_other: "tracks e P as \<Longrightarrow> ace_type a = Allow \<Longrightarrow> tracks e P (as @ [a])"
  by (simp add: tracks_def verdict_snoc tracks_bit_next)

lemma tracks_unmatched:
  "tracks e P as \<Longrightarrow> (\<And>s n. P s \<Longrightarrow> \<not> nfs4_applies s n a) \<Longrightarrow> tracks e P (as @ [a])"
  by (simp add: tracks_def verdict_snoc tracks_bit_next)

lemma tracks_more_denied: "tracks e P as \<Longrightarrow> tracks (deny_bits m e) P as"
  by (simp add: tracks_def tracks_bit_def bit_deny_bits)

lemma settles_more_denied: "settles e Q as \<Longrightarrow> settles (deny_bits m e) Q as"
  by (simp add: settles_def bit_deny_bits)

lemma tracks_shrink:
  "tracks e P as \<Longrightarrow> (\<And>s. P' s \<Longrightarrow> P s \<and> (\<forall>n. \<not> nfs4_applies s n a)) \<Longrightarrow> tracks e P' (as @ [a])"
  by (blast intro: tracks_unmatched tracks_mono)

lemma tracks_allow:
  "tracks e P as \<Longrightarrow> ace_type a = Allow \<Longrightarrow> (\<And>s n. P s \<Longrightarrow> bit m n \<Longrightarrow> nfs4_applies s n a) \<Longrightarrow>
    tracks (allow_bits m e) P (as @ [a])"
  by (simp add: tracks_def verdict_snoc tracks_bit_next)

lemma tracks_deny:
  "tracks e P as \<Longrightarrow> ace_type a \<noteq> Allow \<Longrightarrow>
    (\<And>s n. P s \<Longrightarrow> nfs4_applies s n a \<Longrightarrow> nfs4_verdict s n as = None \<Longrightarrow> bit m n) \<Longrightarrow>
    tracks (deny_bits m e) P (as @ [a])"
  by (simp add: tracks_def verdict_snoc tracks_bit_next)

text \<open>What a denial hands on: if the named entity's allowed bits are settled, its denied set holds
  every bit the ACE newly denies.\<close>

lemma denied_covers:
  assumes "settles e Q as" "Q s" "nfs4_applies s n a" "nfs4_verdict s n as = None"
  shows "bit (deny (deny_bits (access_mask a) e)) n"
proof -
  from assms have "\<not> bit (allow e) n" unfolding settles_def by blast
  with assms(3) show ?thesis by (simp add: bit_deny_bits nfs4_applies_def)
qed


section \<open>Named states\<close>

definition seed :: "named_states \<Rightarrow> AceState \<Rightarrow> int \<Rightarrow> AceState" where
  "seed l e i = (case map_of l i of Some p \<Rightarrow> p | None \<Rightarrow> e)"

lemma map_of_list_update:
  assumes "k < length l" "fst (l ! k) = i" "distinct (map fst l)"
  shows "map_of (l[k := (i, q)]) = (map_of l)(i \<mapsto> q)"
  using assms
proof (induction l arbitrary: k)
  case Nil
  then show ?case by simp
next
  case (Cons x l)
  show ?case
  proof (cases k)
    case 0
    with Cons.prems show ?thesis by (cases x) (auto simp: fun_eq_iff)
  next
    case (Suc k')
    with Cons.prems have "fst x \<noteq> i"
      using nth_mem [of k' "map fst l"] by auto
    with Suc Cons show ?thesis by (cases x) (auto simp: fun_upd_twist)
  qed
qed

lemma slot_at:
  assumes d: "distinct (map fst l)"
  shows "snd (slot l e i) < length (fst (slot l e i))"
    "fst (slot l e i) ! snd (slot l e i) = (i, seed l e i)"
    "distinct (map fst (fst (slot l e i)))"
    "(map_of (fst (slot l e i)))(i \<mapsto> q) = (map_of l)(i \<mapsto> q)"
proof -
  have "snd (slot l e i) < length (fst (slot l e i)) \<and>
    fst (slot l e i) ! snd (slot l e i) = (i, seed l e i) \<and> distinct (map fst (fst (slot l e i))) \<and>
    (map_of (fst (slot l e i)))(i \<mapsto> q) = (map_of l)(i \<mapsto> q)"
  proof (cases "position (\<lambda>(x, _). x = i) l")
    case None
    then have n: "map_of l i = None"
      by (auto simp: position_None map_of_eq_None_iff)
    then have "i \<notin> fst ` set l" by (simp add: map_of_eq_None_iff)
    with d n None show ?thesis
      by (auto simp: slot_def seed_def map_add_def fun_eq_iff split: option.splits)
  next
    case (Some k)
    from position_Some [OF this] have k: "k < length l" "fst (l ! k) = i"
      by (auto split: prod.splits)
    then have "map_of l i = Some (snd (l ! k))"
      using d by (metis map_of_eq_Some_iff nth_mem prod.collapse)
    with d k Some show ?thesis
      by (simp add: slot_def seed_def prod_eq_iff)
  qed
  then show "snd (slot l e i) < length (fst (slot l e i))"
    "fst (slot l e i) ! snd (slot l e i) = (i, seed l e i)"
    "distinct (map fst (fst (slot l e i)))"
    "(map_of (fst (slot l e i)))(i \<mapsto> q) = (map_of l)(i \<mapsto> q)" by simp_all
qed

lemma at_slot_lookup:
  assumes d: "distinct (map fst l)"
  shows "map_of (at_slot f (slot l e i)) = (map_of l)(i \<mapsto> f (seed l e i))"
    "distinct (map fst (at_slot f (slot l e i)))"
    "snd (at_slot f (slot l e i) ! snd (slot l e i)) = f (seed l e i)"
proof -
  note s = slot_at [OF d, of e i]
  have eq: "at_slot f (slot l e i) = (fst (slot l e i))[snd (slot l e i) := (i, f (seed l e i))]"
    by (simp add: at_slot_def case_prod_beta s(2))
  show "map_of (at_slot f (slot l e i)) = (map_of l)(i \<mapsto> f (seed l e i))"
    unfolding eq using map_of_list_update [OF s(1) _ s(3)] s(2) s(4) by simp
  show "distinct (map fst (at_slot f (slot l e i)))"
    unfolding eq map_update using s(1,3) by (metis fst_conv list_update_id map_update nth_map s(2) length_map)
  show "snd (at_slot f (slot l e i) ! snd (slot l e i)) = f (seed l e i)"
    unfolding eq using s(1) by simp
qed

lemma map_of_bits_all [simp]:
  "map_of (deny_bits_all m l) i = map_option (deny_bits m) (map_of l i)"
  "map_of (allow_bits_all m l) i = map_option (allow_bits m) (map_of l i)"
  "map fst (deny_bits_all m l) = map fst l" "map fst (allow_bits_all m l) = map fst l"
  by (induction l) (auto simp: deny_bits_all_def allow_bits_all_def)

section \<open>The invariant of the loop\<close>

text \<open>The callers POSIX does not read off the owner entry or a named user entry.\<close>

definition unnamed :: "named_states \<Rightarrow> subject \<Rightarrow> bool" where
  "unnamed us s \<longleftrightarrow> \<not> is_owner s \<and> map_of us (uid s) = None"

definition lossy_inv :: "Nfs4Ace list \<Rightarrow> AclState \<Rightarrow> bool" where
  "lossy_inv as st \<longleftrightarrow>
     distinct (map fst (st_users st)) \<and> distinct (map fst (st_groups st)) \<and>
     tracks (st_owner st) is_owner as \<and>
     (\<forall>i e. map_of (st_users st) i = Some e \<longrightarrow>
        tracks e (\<lambda>s. \<not> is_owner s \<and> uid s = i) as \<and> settles e (\<lambda>s. uid s = i) as) \<and>
     tracks (st_everyone st) (unnamed (st_users st)) as \<and> settles (st_everyone st) (\<lambda>_. True) as \<and>
     tracks (st_group st) (\<lambda>s. unnamed (st_users st) s \<and> in_group s) as \<and>
     settles (st_group st) in_group as \<and>
     (\<forall>g e. map_of (st_groups st) g = Some e \<longrightarrow>
        tracks e (\<lambda>s. unnamed (st_users st) s \<and> g \<in> set (gids s)) as \<and>
        settles e (\<lambda>s. g \<in> set (gids s)) as) \<and>
     tracks (st_other st)
       (\<lambda>s. unnamed (st_users st) s \<and> \<not> in_group s \<and> (\<forall>g \<in> set (gids s). map_of (st_groups st) g = None)) as"

definition governs :: "Nfs4Ace \<Rightarrow> bool" where
  "governs a \<longleftrightarrow> (ace_type a = Allow \<or> ace_type a = Deny) \<and> \<not> bit (ace_flags a) 3"

lemma contains_IDENTIFIER_GROUP: "contains f IDENTIFIER_GROUP \<longleftrightarrow> bit f 6"
  using contains_exp [of 6 f] by (simp add: IDENTIFIER_GROUP_def)

lemma applies_tag:
  assumes "governs a"
  shows "nfs4_applies s n a \<longleftrightarrow> bit (access_mask a) n \<and>
    (case ace2tag a of UserObj \<Rightarrow> is_owner s | User \<Rightarrow> uid s = who_id a | GroupObj \<Rightarrow> in_group s
     | PosixTag.Group \<Rightarrow> who_id a \<in> set (gids s) | _ \<Rightarrow> True)"
  using assms
  by (auto simp: nfs4_applies_def governs_def ace2tag_def contains_IDENTIFIER_GROUP split: Nfs4Who.splits)

lemma applies_mask: "nfs4_applies s n a \<Longrightarrow> bit (access_mask a) n"
  by (simp add: nfs4_applies_def)

lemma ace2tag_not_Mask: "ace2tag a \<noteq> Mask"
  by (auto simp: ace2tag_def split: Nfs4Who.splits)


lemma unnamed_bits_all [simp]:
  "unnamed (deny_bits_all m us) = unnamed us" "unnamed (allow_bits_all m us) = unnamed us"
  by (simp_all add: unnamed_def fun_eq_iff)

lemma unnamed_upd: "unnamed us' s \<Longrightarrow> map_of us' = (map_of us)(i \<mapsto> q) \<Longrightarrow> unnamed us s \<and> uid s \<noteq> i"
  by (auto simp: unnamed_def split: if_splits)

lemma process_UserObj:
  assumes inv: "lossy_inv as st" and g: "governs a" and t: "ace2tag a = UserObj"
  shows "lossy_inv (as @ [a]) (process a st)"
proof -
  have ap: "nfs4_applies s n a \<longleftrightarrow> bit (access_mask a) n \<and> is_owner s" for s n
    using g t by (simp add: applies_tag)
  show ?thesis
  proof (cases "ace_type a = Allow")
    case True
    with inv show ?thesis
      by (auto simp: process_def t Let_def lossy_inv_def ap
          intro: tracks_allow tracks_allow_other settles_snoc)
  next
    case False
    with inv show ?thesis
      by (auto simp: process_def t Let_def lossy_inv_def ap unnamed_def
          intro: tracks_deny tracks_unmatched settles_snoc)
  qed
qed

lemma process_Other:
  assumes inv: "lossy_inv as st" and g: "governs a" and t: "ace2tag a = Other"
  shows "lossy_inv (as @ [a]) (process a st)"
proof -
  have ap: "nfs4_applies s n a \<longleftrightarrow> bit (access_mask a) n" for s n
    using g t by (simp add: applies_tag)
  show ?thesis
  proof (cases "ace_type a = Allow")
    case True
    with inv show ?thesis
      by (auto simp: process_def t Let_def lossy_inv_def ap intro!: tracks_allow settles_allow)
  next
    case False
    with inv show ?thesis
      by (auto simp: process_def t Let_def lossy_inv_def ap intro!: tracks_deny settles_deny)
  qed
qed


lemma process_GroupObj:
  assumes inv: "lossy_inv as st" and g: "governs a" and t: "ace2tag a = GroupObj"
  shows "lossy_inv (as @ [a]) (process a st)"
proof -
  have ap: "nfs4_applies s n a \<longleftrightarrow> bit (access_mask a) n \<and> in_group s" for s n
    using g t by (simp add: applies_tag)
  show ?thesis
  proof (cases "ace_type a = Allow")
    case True
    with inv show ?thesis
      by (auto simp: process_def t Let_def lossy_inv_def ap
          intro: tracks_allow tracks_allow_other settles_snoc settles_allow)
  next
    case False
    let ?D = "deny (deny_bits (access_mask a) (st_group st))"
    have cov: "bit ?D n" if "nfs4_applies s n a" "nfs4_verdict s n as = None" for s n
      using that inv ap by (intro denied_covers [of _ in_group as s]) (auto simp: lossy_inv_def)
    have other: "tracks (st_other st) P (as @ [a])" if "tracks (st_other st) P as" "\<And>s. P s \<Longrightarrow> \<not> in_group s" for P
      using that by (auto simp: ap intro: tracks_unmatched)
    from False inv show ?thesis
      by (auto simp: process_def t Let_def lossy_inv_def
          intro!: tracks_deny settles_deny other cov dest: applies_mask)
  qed
qed


lemma seed_user:
  assumes "lossy_inv as st"
  shows "tracks (seed (st_users st) (st_everyone st) i) (\<lambda>s. \<not> is_owner s \<and> uid s = i) as"
    "settles (seed (st_users st) (st_everyone st) i) (\<lambda>s. uid s = i) as"
proof -
  have "settles (st_everyone st) (\<lambda>s. uid s = i) as"
    using assms by (auto simp: lossy_inv_def settles_def)
  moreover have "tracks (st_everyone st) (\<lambda>s. \<not> is_owner s \<and> uid s = i) as" if "map_of (st_users st) i = None"
    using assms that by (auto simp: lossy_inv_def unnamed_def elim!: tracks_mono)
  ultimately show "tracks (seed (st_users st) (st_everyone st) i) (\<lambda>s. \<not> is_owner s \<and> uid s = i) as"
    "settles (seed (st_users st) (st_everyone st) i) (\<lambda>s. uid s = i) as"
    using assms by (auto simp: seed_def lossy_inv_def split: option.splits)
qed

lemma seed_group:
  assumes "lossy_inv as st"
  shows "tracks (seed (st_groups st) (st_everyone st) g) (\<lambda>s. unnamed (st_users st) s \<and> g \<in> set (gids s)) as"
    "settles (seed (st_groups st) (st_everyone st) g) (\<lambda>s. g \<in> set (gids s)) as"
proof -
  have "settles (st_everyone st) (\<lambda>s. g \<in> set (gids s)) as"
    using assms by (auto simp: lossy_inv_def settles_def)
  moreover have "tracks (st_everyone st) (\<lambda>s. unnamed (st_users st) s \<and> g \<in> set (gids s)) as"
    using assms by (auto simp: lossy_inv_def elim!: tracks_mono)
  ultimately show "tracks (seed (st_groups st) (st_everyone st) g) (\<lambda>s. unnamed (st_users st) s \<and> g \<in> set (gids s)) as"
    "settles (seed (st_groups st) (st_everyone st) g) (\<lambda>s. g \<in> set (gids s)) as"
    using assms by (auto simp: seed_def lossy_inv_def split: option.splits)
qed

lemma process_User:
  assumes inv: "lossy_inv as st" and g: "governs a" and t: "ace2tag a = User"
  shows "lossy_inv (as @ [a]) (process a st)"
proof -
  let ?i = "who_id a" and ?m = "access_mask a"
  let ?sd = "seed (st_users st) (st_everyone st) ?i"
  define us where "us f = at_slot (f ?m) (slot (st_users st) (st_everyone st) ?i)" for f
  have ap: "nfs4_applies s n a \<longleftrightarrow> bit ?m n \<and> uid s = ?i" for s n
    using g t by (simp add: applies_tag)
  have d: "distinct (map fst (st_users st))"
    using inv by (simp add: lossy_inv_def)
  have lk: "map_of (us f) = (map_of (st_users st))(?i \<mapsto> f ?m ?sd)" and ds: "distinct (map fst (us f))" for f
    using at_slot_lookup [OF d, of "f ?m" "st_everyone st" ?i] by (simp_all add: us_def)
  have un: "unnamed (us f) s \<longleftrightarrow> unnamed (st_users st) s \<and> uid s \<noteq> ?i" for f s
    by (auto simp: unnamed_def lk)
  note sd = seed_user [OF inv, of ?i]
  have grp: "tracks e (\<lambda>s. unnamed (st_users st) s \<and> uid s \<noteq> ?i \<and> g' \<in> set (gids s)) (as @ [a])"
    if "(g', e) \<in> set (st_groups st)" for g' e
    using inv that
    by (intro tracks_shrink [of e "\<lambda>s. unnamed (st_users st) s \<and> g' \<in> set (gids s)" as])
      (auto simp: lossy_inv_def ap)
  show ?thesis
  proof (cases "ace_type a = Allow")
    case True
    then have "process a st = st\<lparr>st_valid := st_valid st OR PosixTag_repr User, st_users := us allow_bits\<rparr>"
      by (simp add: process_def t Let_def us_def)
    with inv sd True show ?thesis
      by (auto simp: lossy_inv_def lk ds un ap intro: grp tracks_allow settles_allow tracks_allow_other
          settles_snoc elim: tracks_shrink split: if_splits)
  next
    case False
    then have "process a st = st\<lparr>st_valid := st_valid st OR PosixTag_repr User, st_users := us deny_bits,
        st_owner := deny_bits (deny (deny_bits ?m ?sd)) (st_owner st)\<rparr>"
      using at_slot_lookup(3) [OF d]
      by (simp add: process_def t Let_def us_def)
    moreover have "tracks (deny_bits (deny (deny_bits ?m ?sd)) (st_owner st)) is_owner (as @ [a])"
      using inv False ap sd(2)
      by (intro tracks_deny denied_covers [of _ "\<lambda>s. uid s = ?i" as]) (auto simp: lossy_inv_def)
    moreover have "tracks e (\<lambda>s. \<not> is_owner s \<and> uid s = i) (as @ [a])"
      if "(i, e) \<in> set (st_users st)" "i \<noteq> ?i" for i e
      using inv that by (intro tracks_unmatched) (auto simp: lossy_inv_def ap)
    ultimately show ?thesis
      using inv sd False
      by (auto simp: lossy_inv_def lk ds un ap intro: grp tracks_deny settles_deny
          settles_snoc elim: tracks_shrink split: if_splits)
  qed
qed


lemma process_Group:
  assumes inv: "lossy_inv as st" and g: "governs a" and t: "ace2tag a = PosixTag.Group"
  shows "lossy_inv (as @ [a]) (process a st)"
proof -
  let ?i = "who_id a" and ?m = "access_mask a"
  let ?sd = "seed (st_groups st) (st_everyone st) ?i"
  define gs where "gs f = at_slot (f ?m) (slot (st_groups st) (st_everyone st) ?i)" for f
  have ap: "nfs4_applies s n a \<longleftrightarrow> bit ?m n \<and> ?i \<in> set (gids s)" for s n
    using g t by (simp add: applies_tag)
  have d: "distinct (map fst (st_groups st))"
    using inv by (simp add: lossy_inv_def)
  have lk: "map_of (gs f) = (map_of (st_groups st))(?i \<mapsto> f ?m ?sd)" and ds: "distinct (map fst (gs f))" for f
    using at_slot_lookup [OF d, of "f ?m" "st_everyone st" ?i] by (simp_all add: gs_def)
  note sd = seed_group [OF inv, of ?i]
  have other: "tracks (st_other st) (\<lambda>s. unnamed (st_users st) s \<and> \<not> in_group s
      \<and> (\<forall>g \<in> set (gids s). map_of (gs f) g = None)) (as @ [a])" for f
    using inv by (auto simp: lossy_inv_def ap lk split: if_splits elim!: tracks_shrink)
  show ?thesis
  proof (cases "ace_type a = Allow")
    case True
    then have "process a st = st\<lparr>st_valid := st_valid st OR PosixTag_repr PosixTag.Group, st_groups := gs allow_bits\<rparr>"
      by (simp add: process_def t Let_def gs_def)
    with inv sd other True show ?thesis
      by (auto simp: lossy_inv_def lk ds ap intro: tracks_allow settles_allow tracks_allow_other
          settles_snoc split: if_splits)
  next
    case False
    let ?D = "deny (deny_bits ?m ?sd)"
    from False have "process a st = st\<lparr>st_valid := st_valid st OR PosixTag_repr PosixTag.Group,
        st_owner := deny_bits ?D (st_owner st), st_group := deny_bits ?D (st_group st),
        st_everyone := deny_bits ?D (st_everyone st), st_users := deny_bits_all ?D (st_users st),
        st_groups := deny_bits_all ?D (gs deny_bits)\<rparr>"
      using at_slot_lookup(3) [OF d]
      by (simp add: process_def t Let_def gs_def)
    moreover have "tracks (deny_bits ?D e) P (as @ [a])" if "tracks e P as" for e P
      using that False ap sd(2)
      by (intro tracks_deny denied_covers [of _ "\<lambda>s. ?i \<in> set (gids s)" as]) auto
    moreover have "tracks (deny_bits ?D (deny_bits ?m ?sd))
        (\<lambda>s. unnamed (st_users st) s \<and> ?i \<in> set (gids s)) (as @ [a])"
      using sd(1) False by (intro tracks_more_denied tracks_deny) (auto dest: applies_mask)
    moreover have "settles (deny_bits ?D (deny_bits ?m ?sd)) (\<lambda>s. ?i \<in> set (gids s)) (as @ [a])"
      using sd(2) by (intro settles_more_denied settles_deny)
    moreover have "tracks (st_other st) (\<lambda>s. unnamed (st_users st) s \<and> \<not> in_group s
        \<and> (\<forall>g \<in> set (gids s). map_of (deny_bits_all ?D (gs deny_bits)) g = None)) (as @ [a])"
      using other [of deny_bits] by simp
    ultimately show ?thesis
      using inv False
      by (auto simp: lossy_inv_def lk ds intro: settles_deny split: if_splits)
  qed
qed


lemma process_inv:
  assumes "lossy_inv as st" "governs a"
  shows "lossy_inv (as @ [a]) (process a st)"
  using assms process_UserObj process_User process_GroupObj process_Group process_Other
    ace2tag_not_Mask [of a]
  by (cases "ace2tag a") auto

lemma lossy_inv_new: "lossy_inv [] AclState_new"
  by (simp add: lossy_inv_def AclState_new_def AceState_EMPTY_def tracks_def tracks_bit_def settles_def)

lemma fold_process_inv:
  assumes "\<forall>a \<in> set as. governs a"
  shows "lossy_inv as (fold process as AclState_new)"
  using assms
proof (induction as rule: rev_induct)
  case Nil
  then show ?case by (simp add: lossy_inv_new)
next
  case (snoc a as)
  then show ?case by (simp add: process_inv)
qed

lemma verdict_filter_governs: "nfs4_verdict s n (filter governs as) = nfs4_verdict s n as"
  by (induction as) (auto simp: nfs4_applies_def governs_def)

lemma fold_lossy_step:
  "fst (fold (lossy_step is_dir) as (e, i)) = fold process (filter governs as) e"
  by (induction as arbitrary: e i)
    (auto simp: lossy_step_def governs_def nfs4_contains split: if_splits)

lemma effective_inv:
  "lossy_inv (filter governs as) (fst (fold (lossy_step is_dir) as (AclState_new, AclState_new)))"
  unfolding fold_lossy_step by (rule fold_process_inv) simp

text \<open>A POSIX bit comes out only when every NFS4 bit it stands for was allowed.\<close>

lemma bit_low_mode:
  assumes "bit (low_mode_from_nfs4 m is_dir) k" "b \<in> set (perm_bits is_dir k)"
  shows "bit m b"
proof -
  have c: "contains m READ_MODE \<Longrightarrow> bit m 0" "contains m WRITE_MODE \<Longrightarrow> bit m 1 \<and> bit m 2"
    "contains m (WRITE_MODE OR DELETE_CHILD) \<Longrightarrow> bit m 1 \<and> bit m 2 \<and> bit m 6"
    "contains m EXECUTE_MODE \<Longrightarrow> bit m 5"
    by (auto simp: contains_bits perm_defs)
  from assms show ?thesis
    by (auto simp: low_mode_from_nfs4_def Let_def bit_or_iff READ_def WRITE_def Acl_Posix.EXECUTE_def
        perm_bits_def dest!: c split: if_splits)
qed

lemma low_mode_rwx: "low_mode_from_nfs4 m is_dir AND 7 = low_mode_from_nfs4 m is_dir"
  by (simp add: low_mode_from_nfs4_def Let_def READ_def WRITE_def Acl_Posix.EXECUTE_def)

text \<open>The entries of a state, by tag.\<close>

lemma state_to_entries_mem:
  assumes "a \<in> set (state_to_entries st is_dir d)"
  shows "tag a = UserObj \<Longrightarrow> perms a = low_mode_from_nfs4 (allow (st_owner st)) is_dir"
    "tag a = User \<Longrightarrow> \<exists>p. (aid a, p) \<in> set (st_users st) \<and> perms a = low_mode_from_nfs4 (allow p) is_dir"
    "tag a = GroupObj \<Longrightarrow> perms a = low_mode_from_nfs4 (allow (st_group st)) is_dir"
    "tag a = PosixTag.Group \<Longrightarrow>
       \<exists>p. (aid a, p) \<in> set (st_groups st) \<and> perms a = low_mode_from_nfs4 (allow p) is_dir"
    "tag a = Other \<Longrightarrow> perms a = low_mode_from_nfs4 (allow (st_other st)) is_dir"
    "default_ace a = d" "perms a AND 7 = perms a"
  using assms by (auto simp: state_to_entries_def Let_def low_mode_rwx split: if_splits)

lemma state_to_entries_has:
  "(i, p) \<in> set (st_users st) \<Longrightarrow> \<exists>a \<in> set (state_to_entries st is_dir d). tag a = User \<and> aid a = i"
  "(i, p) \<in> set (st_groups st) \<Longrightarrow> \<exists>a \<in> set (state_to_entries st is_dir d). tag a = PosixTag.Group \<and> aid a = i"
  "\<exists>a \<in> set (state_to_entries st is_dir d). tag a = GroupObj"
  by (force simp: state_to_entries_def Let_def)+

lemma to_posix_lossy_access:
  assumes "to_posix_lossy acl is_dir = Inr p"
  shows "set (access p) =
    set (state_to_entries (fst (fold (lossy_step is_dir) (aces acl) (AclState_new, AclState_new))) is_dir False)"
proof -
  obtain eff inh where f: "fold (lossy_step is_dir) (aces acl) (AclState_new, AclState_new) = (eff, inh)"
    by (cases "fold (lossy_step is_dir) (aces acl) (AclState_new, AclState_new)")
  with assms show ?thesis
    by (auto simp: to_posix_lossy_def Let_def bind_res_Inr from_aces_access dest: state_to_entries_mem(6))
qed

lemma perms_of_mem:
  "bit (perms_of t as) k \<Longrightarrow> \<exists>a \<in> set as. tag a = t \<and> bit (perms a) k"
  by (auto simp: perms_of_def filter_eq_Cons_iff split: list.splits)


lemma tracksD: "tracks e P as \<Longrightarrow> P s \<Longrightarrow> bit (allow e) n \<Longrightarrow> nfs4_verdict s n as = Some True"
  by (auto simp: tracks_def tracks_bit_def)

text \<open>The POSIX check on the entries of a state that satisfies the invariant.\<close>

lemma lossy_inv_sound:
  assumes inv: "lossy_inv as st" and b: "b \<in> set (perm_bits is_dir k)"
    and xs: "set xs = set (state_to_entries st is_dir d)"
    and al: "posix_allows s k xs"
  shows "nfs4_verdict s b as = Some True"
proof -
  note mem = state_to_entries_mem [where st = st and is_dir = is_dir and d = d, folded xs]
  note has = state_to_entries_has [where st = st and is_dir = is_dir and d = d, folded xs]
  have du: "distinct (map fst (st_users st))" "distinct (map fst (st_groups st))"
    using inv by (simp_all add: lossy_inv_def)
  show ?thesis
  proof (cases "is_owner s")
    case True
    with al obtain a where "a \<in> set xs" "tag a = UserObj" "bit (perms a) k"
      by (auto simp: posix_allows_def dest: perms_of_mem)
    then have "bit (allow (st_owner st)) b"
      using mem(1) bit_low_mode b by metis
    with inv True show ?thesis
      by (auto simp: lossy_inv_def intro: tracksD)
  next
    case no: False
    show ?thesis
    proof (cases "find (\<lambda>a. tag a = User \<and> aid a = uid s) xs")
      case (Some a)
      with al no have a: "a \<in> set xs" "tag a = User" "aid a = uid s" "bit (perms a) k"
        by (auto simp: posix_allows_def bit_and_iff find_Some_iff)
      then obtain p where "(uid s, p) \<in> set (st_users st)" "bit (allow p) b"
        using mem(2) bit_low_mode b by metis
      with inv no du show ?thesis
        by (auto simp: lossy_inv_def intro: tracksD)
    next
      case None
      with no have un: "unnamed (st_users st) s"
        by (auto simp: unnamed_def find_None_iff map_of_eq_None_iff dest!: has(1))
      show ?thesis
      proof (cases "\<exists>a \<in> set xs. group_matches s a \<and> bit (perms a) k")
        case True
        then obtain a where a: "a \<in> set xs" "group_matches s a" "bit (perms a) k" by blast
        then consider "tag a = GroupObj" "in_group s" "bit (allow (st_group st)) b"
          | p where "(aid a, p) \<in> set (st_groups st)" "aid a \<in> set (gids s)" "bit (allow p) b"
          using mem(3,4) bit_low_mode b unfolding group_matches_def by metis
        then show ?thesis
        proof cases
          case 1
          with inv un show ?thesis by (auto simp: lossy_inv_def intro: tracksD)
        next
          case (2 p)
          with inv du have "tracks p (\<lambda>s. unnamed (st_users st) s \<and> aid a \<in> set (gids s)) as"
            by (auto simp: lossy_inv_def)
          then show ?thesis by (rule tracksD) (use un 2 in auto)
        qed
      next
        case False
        with al no None have m: "filter (group_matches s) xs = []" and o: "bit (perms_of Other xs) k"
          by (auto simp: posix_allows_def Let_def bit_and_iff list_ex_iff filter_empty_conv split: if_splits)
        from m has(3) have "\<not> in_group s" "\<forall>g \<in> set (gids s). map_of (st_groups st) g = None"
          by (auto simp: filter_empty_conv group_matches_def map_of_eq_None_iff dest!: has(2))
        moreover from o have "bit (allow (st_other st)) b"
          using mem(5) bit_low_mode b perms_of_mem by metis
        ultimately show ?thesis
          using inv un by (auto simp: lossy_inv_def intro: tracksD)
      qed
    qed
  qed
qed

section \<open>The conversion to POSIX is total on valid ids\<close>

definition id_ok :: "int \<Rightarrow> bool" where
  "id_ok i \<longleftrightarrow> 0 \<le> i \<and> i < 0xFFFFFFFF"

definition keys_ok :: "AclState \<Rightarrow> bool" where
  "keys_ok st \<longleftrightarrow> list_all (\<lambda>(i, _). id_ok i) (st_users st) \<and> list_all (\<lambda>(i, _). id_ok i) (st_groups st)"

lemma at_slot_keys:
  assumes "list_all (\<lambda>(i, _). id_ok i) l" "id_ok i"
  shows "list_all (\<lambda>(i, _). id_ok i) (at_slot f (slot l e i))"
  using assms
  by (auto simp: at_slot_def slot_def list_all_length nth_list_update nth_append
      split: option.splits prod.splits if_splits dest!: position_Some)

lemma bits_all_keys:
  "list_all (\<lambda>(i, _). id_ok i) (deny_bits_all m l) = list_all (\<lambda>(i, _). id_ok i) l"
  "list_all (\<lambda>(i, _). id_ok i) (allow_bits_all m l) = list_all (\<lambda>(i, _). id_ok i) l"
  by (auto simp: deny_bits_all_def allow_bits_all_def list_all_iff split: prod.splits)

lemma process_keys:
  assumes "keys_ok st" "who_type a = Named \<longrightarrow> id_ok (who_id a)"
  shows "keys_ok (process a st)"
proof -
  have "ace2tag a = User \<or> ace2tag a = PosixTag.Group \<longrightarrow> id_ok (who_id a)"
    using assms(2) by (auto simp: ace2tag_def split: Nfs4Who.splits)
  with assms(1) show ?thesis
    by (cases "ace2tag a") (auto simp: process_def Let_def keys_ok_def at_slot_keys bits_all_keys)
qed

definition pair_ok :: "bool \<Rightarrow> AclState \<times> AclState \<Rightarrow> bool" where
  "pair_ok is_dir p \<longleftrightarrow> keys_ok (fst p) \<and> keys_ok (snd p) \<and> (\<not> is_dir \<longrightarrow> snd p = AclState_new)"

lemma lossy_step_keys:
  "pair_ok is_dir p \<Longrightarrow> who_type a = Named \<longrightarrow> id_ok (who_id a) \<Longrightarrow> pair_ok is_dir (lossy_step is_dir a p)"
  by (auto simp: pair_ok_def lossy_step_def process_keys split: prod.splits)

lemma fold_lossy_step_keys:
  "pair_ok is_dir p \<Longrightarrow> \<forall>a \<in> set as. who_type a = Named \<longrightarrow> id_ok (who_id a) \<Longrightarrow>
    pair_ok is_dir (fold (lossy_step is_dir) as p)"
  by (induction as arbitrary: p) (simp_all add: lossy_step_keys)

lemma state_to_entries_valid:
  assumes "keys_ok st"
  shows "validate_entries (state_to_entries st is_dir d) label = Inr ()"
proof -
  have "entry_ok a" if a: "a \<in> set (state_to_entries st is_dir d)" for a
    using assms state_to_entries_mem(2,4,7) [OF a]
    by (cases "tag a") (auto simp: entry_ok_def is_special_def keys_ok_def list_all_iff id_ok_def)
  moreover have "map tag (state_to_entries st is_dir d) =
      UserObj # replicate (length (st_users st)) User @ GroupObj
      # replicate (length (st_groups st)) PosixTag.Group
      @ (if 0 < length (st_users st) + length (st_groups st) then [Mask] else []) @ [Other]"
    by (auto simp: state_to_entries_def Let_def comp_def case_prod_beta map_replicate_const)
  then have "tag_shape (map tag (state_to_entries st is_dir d))"
    by (auto simp: tag_shape_def)
  ultimately show ?thesis
    by (simp add: validate_entries_Inr)
qed

lemma from_aces_default:
  "default_acl (Acl_Posix.from_aces as) =
     (if filter default_ace as \<noteq> [] then Some (sort_key sort_key_ace (filter default_ace as)) else None)"
  by (auto simp: from_aces_def Let_def dest: arg_cong [of _ _ length])

lemma fill_inheritable_keys: "keys_ok e \<Longrightarrow> keys_ok i \<Longrightarrow> keys_ok (fill_inheritable e i)"
  by (simp add: fill_inheritable_def keys_ok_def Let_def)

lemma to_posix_lossy_ids:
  assumes ids: "\<forall>a \<in> set (aces acl). who_type a = Named \<longrightarrow> id_ok (who_id a)"
  shows "\<exists>p. to_posix_lossy acl is_dir = Inr p \<and> Acl_Posix.validate p is_dir = Inr ()"
proof -
  obtain eff inh where f: "fold (lossy_step is_dir) (aces acl) (AclState_new, AclState_new) = (eff, inh)"
    by (cases "fold (lossy_step is_dir) (aces acl) (AclState_new, AclState_new)")
  have "pair_ok is_dir (AclState_new, AclState_new)"
    by (simp add: pair_ok_def keys_ok_def AclState_new_def)
  from fold_lossy_step_keys [OF this ids]
  have k: "keys_ok eff" "keys_ok inh" "\<not> is_dir \<longrightarrow> inh = AclState_new"
    by (auto simp: f pair_ok_def)
  define i where "i = fill_inheritable eff inh"
  have ki: "keys_ok i" using k by (simp add: i_def fill_inheritable_keys)
  have dir: "is_dir" if "st_valid i \<noteq> 0"
    using that k(3) by (auto simp: i_def fill_inheritable_def AclState_new_def)
  have flt: "filter (\<lambda>a. \<not> default_ace a) (state_to_entries st d False) = state_to_entries st d False"
    "filter (\<lambda>a. \<not> default_ace a) (state_to_entries st d True) = []"
    "filter default_ace (state_to_entries st d True) = state_to_entries st d True"
    "filter default_ace (state_to_entries st d False) = []" for st d
    using state_to_entries_mem(6) by (force simp: filter_id_conv filter_empty_conv)+
  have "Acl_Posix.validate (Acl_Posix.from_aces (state_to_entries eff is_dir False
      @ (if st_valid i \<noteq> 0 then state_to_entries i is_dir True else []))) is_dir = Inr ()"
    using k(1) ki dir
    by (auto simp: posix_validate_Inr from_aces_access from_aces_default flt
        intro!: validate_entries_sorted [OF refl] state_to_entries_valid split: if_splits)
  then show ?thesis
    by (auto simp: to_posix_lossy_def f Let_def i_def [symmetric])
qed

section \<open>Properties\<close>

text \<open>
  C3. Converting a POSIX ACL to NFS4 preserves access exactly: for every caller (the owner, a named
  user, a member of any set of groups, anyone else), every permission r, w, x and every NFS4 bit
  that stands for it, the NFSv4 evaluation of the converted ACL allows the bit if and only if
  the POSIX check on the access list does. Named users are assumed to be listed once, since the
  POSIX check reads only the first of two entries for one uid.
\<close>

theorem to_nfs4_lossy_preserves_access:
  assumes "to_nfs4_lossy acl is_dir = Inr nacl"
    and "distinct (map aid (filter (\<lambda>a. tag a = User) (access acl)))"
    and "b \<in> set (perm_bits is_dir k)"
  shows "nfs4_verdict s b (aces nacl) = Some True \<longleftrightarrow> posix_allows s k (access acl)"
proof -
  from assms(1) have v: "Acl_Posix.validate acl is_dir = Inr ()"
    and n: "aces nacl = translate_one (access acl) is_dir False
      @ (case default_acl acl of Some ds \<Rightarrow> translate_one ds is_dir True | None \<Rightarrow> [])"
    by (auto simp: to_nfs4_lossy_def bind_res_Inr)
  from v have "tag_shape (map tag (access acl))"
    by (simp add: posix_validate_Inr validate_entries_Inr)
  then show ?thesis
    unfolding n using assms
    by (intro verdict_translate_one) (auto simp: verdict_inherit_only split: option.splits)
qed

theorem to_nfs4_lossy_preserves_access_witness:
  "\<exists>nacl. to_nfs4_lossy Acl_Posix.sample_acl True = Inr nacl \<and>
     nfs4_verdict \<lparr>is_owner = False, uid = 3000, in_group = True, gids = []\<rparr> 6 (aces nacl) = Some True \<and>
     nfs4_verdict \<lparr>is_owner = False, uid = 3000, in_group = True, gids = []\<rparr> 5 (aces nacl) \<noteq> Some True"
proof -
  obtain nacl where n: "to_nfs4_lossy Acl_Posix.sample_acl True = Inr nacl"
    using sample_acl_valid by (auto simp: to_nfs4_lossy_def)
  have "posix_allows \<lparr>is_owner = False, uid = 3000, in_group = True, gids = []\<rparr> 1 (access Acl_Posix.sample_acl)"
    "\<not> posix_allows \<lparr>is_owner = False, uid = 3000, in_group = True, gids = []\<rparr> 0 (access Acl_Posix.sample_acl)"
    by code_simp+
  moreover have "distinct (map aid (filter (\<lambda>a. tag a = User) (access Acl_Posix.sample_acl)))"
    by code_simp
  ultimately show ?thesis
    using n to_nfs4_lossy_preserves_access [OF n, of 6 1] to_nfs4_lossy_preserves_access [OF n, of 5 0]
    by (auto simp: perm_bits_def)
qed

text \<open>
  C2. Converting an NFS4 ACL to POSIX never widens access: whenever the POSIX check on the
  resulting access list grants a permission to a caller, the NFSv4 evaluation of the original
  ACL allows that caller every NFS4 bit the permission stands for. This holds for every input
  ACL the conversion accepts and every caller, whatever the order of ALLOW and DENY entries.
\<close>

theorem to_posix_lossy_never_widens:
  assumes "to_posix_lossy acl is_dir = Inr p"
    and "posix_allows s k (access p)"
    and "b \<in> set (perm_bits is_dir k)"
  shows "nfs4_verdict s b (aces acl) = Some True"
  using lossy_inv_sound [OF effective_inv assms(3) to_posix_lossy_access [OF assms(1)] assms(2)]
  by (simp add: verdict_filter_governs)

definition lossy_sample :: Nfs4Acl where
  "lossy_sample = \<lparr>acl_flags = 0,
     aces = [Nfs4Ace_new Deny 0 2 Owner 0, Nfs4Ace_new Allow 0 7 Everyone 0]\<rparr>"

theorem to_posix_lossy_never_widens_witness:
  "\<exists>p. to_posix_lossy lossy_sample False = Inr p \<and>
     posix_allows \<lparr>is_owner = True, uid = 0, in_group = False, gids = []\<rparr> 2 (access p) \<and>
     nfs4_verdict \<lparr>is_owner = True, uid = 0, in_group = False, gids = []\<rparr> 0 (aces lossy_sample) = Some True"
proof -
  let ?s = "\<lparr>is_owner = True, uid = 0, in_group = False, gids = []\<rparr>"
  have "case to_posix_lossy lossy_sample False of Inl _ \<Rightarrow> False | Inr p \<Rightarrow> posix_allows ?s 2 (access p)"
    by code_simp
  then obtain p where p: "to_posix_lossy lossy_sample False = Inr p" "posix_allows ?s 2 (access p)"
    by (auto split: sum.splits)
  from to_posix_lossy_never_widens [OF p, of 0] p show ?thesis
    by (auto simp: perm_bits_def)
qed


text \<open>
  The conversion to POSIX fails only on ids POSIX cannot hold: if every named ACE carries an id
  below the undefined-id sentinel, it succeeds and its result passes the structural validation,
  whatever the flags, masks and order of the input.
\<close>

theorem to_posix_lossy_total:
  assumes "\<forall>a \<in> set (aces acl). who_type a = Named \<longrightarrow> 0 \<le> who_id a \<and> who_id a < 0xFFFFFFFF"
  shows "\<exists>p. to_posix_lossy acl is_dir = Inr p \<and> Acl_Posix.validate p is_dir = Inr ()"
  using assms by (intro to_posix_lossy_ids) (simp add: id_ok_def)

theorem to_posix_lossy_total_witness:
  "\<exists>p. to_posix_lossy Acl_Nfs4.sample_acl True = Inr p \<and> Acl_Posix.validate p True = Inr ()"
  using to_posix_lossy_total [of Acl_Nfs4.sample_acl True]
  by (simp add: Acl_Nfs4.sample_acl_def Nfs4Ace_new_def)

end
