(* ===== verification/Tn_Path.thy ===== *)
theory Tn_Path
  imports Tn_Error
begin

text \<open>
  Paths: \<^verbatim>\<open>src/path/mod.rs\<close> and \<^verbatim>\<open>src/path/shape.rs\<close>. Handing a byte string to a syscall as a
  C string, and the shape rules for names beneath an anchor. The lemmas characterise which byte
  strings pass and show that a path that passes is exactly the path its components rebuild.
\<close>

section \<open>C strings\<close>

definition MAX_STACK_ALLOCATION :: nat where "MAX_STACK_ALLOCATION = 1024"

text \<open>
  \<^verbatim>\<open>CStr::from_bytes_with_nul\<close>: the bytes before the first NUL, if that NUL is the last byte;
  \<^verbatim>\<open>CString::new\<close>: the bytes, if none of them is NUL.
\<close>

definition from_bytes_with_nul :: "bytes \<Rightarrow> bytes option" where
  "from_bytes_with_nul bs =
     (case position (\<lambda>b. b = 0) bs of
        Some i \<Rightarrow> if i + 1 = length bs then Some (take i bs) else None
      | None \<Rightarrow> None)"

definition CString_new :: "bytes \<Rightarrow> bytes option" where
  "CString_new bs = (if 0 \<in> set bs then None else Some bs)"

definition with_tn_path_allocating :: "bytes \<Rightarrow> (bytes \<Rightarrow> 'a) \<Rightarrow> errno + 'a" where
  "with_tn_path_allocating from f =
     (case CString_new from of Some s \<Rightarrow> Inr (f s) | None \<Rightarrow> Inl EINVAL)"

definition with_tn_path :: "bytes \<Rightarrow> (bytes \<Rightarrow> 'a) \<Rightarrow> errno + 'a" where
  "with_tn_path p f =
     (if length p \<ge> MAX_STACK_ALLOCATION then with_tn_path_allocating p f
      else case from_bytes_with_nul (p @ [0]) of Some s \<Rightarrow> Inr (f s) | None \<Rightarrow> Inl EINVAL)"

definition with_opt_tn_path :: "bytes option \<Rightarrow> (bytes option \<Rightarrow> 'a) \<Rightarrow> errno + 'a" where
  "with_opt_tn_path p f =
     (case p of Some path \<Rightarrow> with_tn_path path (\<lambda>s. f (Some s)) | None \<Rightarrow> Inr (f None))"

section \<open>Shapes\<close>

datatype Defect = Empty | Absolute | EmptyComponent | Dot | DotDot | Nul | Separator

fun Defect_display :: "Defect \<Rightarrow> string" where
  "Defect_display Empty = ''the path is empty''"
| "Defect_display Absolute = ''the path is absolute''"
| "Defect_display EmptyComponent = ''a component is empty''"
| "Defect_display Dot = ''a component is `.`''"
| "Defect_display DotDot = ''a component is `..`''"
| "Defect_display Nul = ''a component carries NUL''"
| "Defect_display Separator = ''a single component may not contain `/`''"

definition components :: "bytes \<Rightarrow> bytes list" where
  "components path = split_on (\<lambda>b. b = 0x2F) path"

definition component_defect :: "bytes \<Rightarrow> Defect option" where
  "component_defect name =
     (if name = [] then Some Empty
      else if name = [0x2E] then Some Dot
      else if name = [0x2E, 0x2E] then Some DotDot
      else if 0x2F \<in> set name then Some Separator
      else if 0 \<in> set name then Some Nul
      else None)"

definition component_in_path :: "bytes \<Rightarrow> Defect option" where
  "component_in_path c =
     (case component_defect c of Some Empty \<Rightarrow> Some EmptyComponent | other \<Rightarrow> other)"

fun find_map :: "('a \<Rightarrow> 'b option) \<Rightarrow> 'a list \<Rightarrow> 'b option" where
  "find_map f [] = None"
| "find_map f (x # xs) = (case f x of Some y \<Rightarrow> Some y | None \<Rightarrow> find_map f xs)"

definition relative_defect :: "bytes \<Rightarrow> Defect option" where
  "relative_defect path =
     (if path = [] then Some Empty
      else if hd path = 0x2F then Some Absolute
      else find_map component_in_path (components path))"

section \<open>Lemmas\<close>

lemma from_bytes_with_nul_snoc: "from_bytes_with_nul (p @ [0]) = (if 0 \<in> set p then None else Some p)"
proof (cases "0 \<in> set p")
  case True
  then obtain i where i: "position (\<lambda>b. b = 0) p = Some i"
    using position_None [of "\<lambda>b. b = 0" p] by (cases "position (\<lambda>b. b = 0) p") auto
  then have "i < length p" using position_Some by blast
  with True i show ?thesis by (simp add: from_bytes_with_nul_def position_append)
next
  case False
  then have "position (\<lambda>b. b = 0) p = None" by (auto simp: position_None)
  with False show ?thesis by (simp add: from_bytes_with_nul_def position_append)
qed

lemma with_tn_path_eq: "with_tn_path p f = (if 0 \<in> set p then Inl EINVAL else Inr (f p))"
  by (simp add: with_tn_path_def with_tn_path_allocating_def CString_new_def from_bytes_with_nul_snoc)

lemma find_map_None: "find_map f xs = None \<longleftrightarrow> (\<forall>x \<in> set xs. f x = None)"
  by (induction xs) (auto split: option.splits)

lemma component_in_path_None: "component_in_path c = None \<longleftrightarrow> component_defect c = None"
  by (auto simp: component_in_path_def split: option.splits Defect.splits)

fun intercalate :: "bytes \<Rightarrow> bytes list \<Rightarrow> bytes" where
  "intercalate sep [] = []"
| "intercalate sep [x] = x"
| "intercalate sep (x # y # ys) = x @ sep @ intercalate sep (y # ys)"

lemma intercalate_split_on:
  "intercalate [s] (split_on (\<lambda>b. b = s) xs) = xs"
proof (induction xs)
  case Nil
  then show ?case by simp
next
  case (Cons x xs)
  obtain y ys where y: "split_on (\<lambda>b. b = s) xs = y # ys"
    by (cases "split_on (\<lambda>b. b = s) xs") auto
  with Cons show ?case
    by (cases ys) auto
qed

text \<open>
  What a name beneath an anchor is, independently of how the code looks for defects: at least one
  byte, neither of the two reserved names, and neither separator nor NUL among its bytes.
\<close>

definition plain_name :: "bytes \<Rightarrow> bool" where
  "plain_name c \<longleftrightarrow> c \<notin> {[], [0x2E], [0x2E, 0x2E]} \<and> set c \<inter> {0x2F, 0} = {}"

lemma component_defect_None: "component_defect c = None \<longleftrightarrow> plain_name c"
  by (auto simp: component_defect_def plain_name_def)

lemma components_join:
  "cs \<noteq> [] \<Longrightarrow> list_all (\<lambda>c. 0x2F \<notin> set c) cs \<Longrightarrow> components (intercalate [0x2F] cs) = cs"
proof (induction cs rule: induct_list012)
  case (2 c)
  then show ?case by (auto simp: components_def intro: split_on_no_split)
next
  case (3 c d ds)
  then have "split_on (\<lambda>b. b = 0x2F) (c @ 0x2F # intercalate [0x2F] (d # ds))
      = c # split_on (\<lambda>b. b = 0x2F) (intercalate [0x2F] (d # ds))"
    by (intro split_on_append) auto
  with 3 show ?case by (simp add: components_def)
qed simp

lemma plain_slash_free: "list_all plain_name cs \<Longrightarrow> list_all (\<lambda>c. 0x2F \<notin> set c) cs"
  by (auto simp: list_all_iff plain_name_def)

lemma intercalate_hd: "plain_name c \<Longrightarrow> intercalate [0x2F] (c # cs) \<noteq> [] \<and> hd (intercalate [0x2F] (c # cs)) \<noteq> 0x2F"
  by (cases cs; cases c) (auto simp: plain_name_def)

lemma find_map_append: "\<forall>x \<in> set xs. f x = None \<Longrightarrow> find_map f (xs @ ys) = find_map f ys"
  by (induction xs) auto

lemma relative_defect_join:
  assumes "list_all plain_name (c # cs)" "list_all (\<lambda>c. 0x2F \<notin> set c) ds"
  shows "relative_defect (intercalate [0x2F] (c # cs @ ds)) = find_map component_in_path ds"
proof -
  have "components (intercalate [0x2F] ((c # cs) @ ds)) = (c # cs) @ ds"
    using assms plain_slash_free [OF assms(1)] by (intro components_join) (simp_all del: append_Cons)
  moreover have "find_map component_in_path ((c # cs) @ ds) = find_map component_in_path ds"
    using assms(1) by (intro find_map_append) (auto simp: list_all_iff component_in_path_None component_defect_None)
  moreover have "plain_name c" using assms(1) by simp
  ultimately show ?thesis
    using intercalate_hd [of c "cs @ ds"] by (simp add: relative_defect_def)
qed

section \<open>Properties\<close>

text \<open>
  Both ways of building the C string agree: whatever the length, the closure runs on exactly the
  given bytes, and the call fails with \<^verbatim>\<open>EINVAL\<close> exactly when a NUL byte is among them; an absent
  path reaches the closure as the null pointer.
\<close>

theorem with_tn_path_spec:
  "with_tn_path p f = (if 0 \<in> set p then Inl EINVAL else Inr (f p)) \<and>
   with_opt_tn_path (Some p) g = (if 0 \<in> set p then Inl EINVAL else Inr (g (Some p))) \<and>
   with_opt_tn_path None g = Inr (g None)"
  by (simp add: with_opt_tn_path_def with_tn_path_eq)

text \<open>
  C9. The paths \<open>relative_defect\<close> admits: a path passes exactly when it is the \<^verbatim>\<open>/\<close>-join of one or
  more plain names (not empty, not dot, not dot-dot, no separator, no NUL). Splitting such a path
  into its components gives exactly those names back, so a walk that creates one component at a
  time visits exactly the path it was given. A path that goes on after plain names with dot-dot is
  refused for that, whatever follows.
\<close>

theorem relative_defect_None_iff:
  "(relative_defect path = None \<longleftrightarrow>
     (\<exists>cs. cs \<noteq> [] \<and> list_all plain_name cs \<and> path = intercalate [0x2F] cs)) \<and>
   (list_all plain_name (c # cs) \<longrightarrow>
     components (intercalate [0x2F] (c # cs)) = c # cs \<and>
     (list_all (\<lambda>d. 0x2F \<notin> set d) ds \<longrightarrow>
       relative_defect (intercalate [0x2F] (c # cs @ [0x2E, 0x2E] # ds)) = Some DotDot))"
proof (intro conjI impI iffI)
  assume l: "relative_defect path = None"
  have "list_all plain_name (components path)"
    using l by (auto simp: relative_defect_def find_map_None component_in_path_None component_defect_None
        list_all_iff split: if_splits)
  moreover have "path = intercalate [0x2F] (components path)" "components path \<noteq> []"
    unfolding components_def by (simp_all add: intercalate_split_on)
  ultimately show "\<exists>cs. cs \<noteq> [] \<and> list_all plain_name cs \<and> path = intercalate [0x2F] cs" by blast
next
  assume "\<exists>cs. cs \<noteq> [] \<and> list_all plain_name cs \<and> path = intercalate [0x2F] cs"
  then obtain d es where d: "list_all plain_name (d # es)" "path = intercalate [0x2F] (d # es)"
    by (metis list.exhaust)
  with relative_defect_join [of d es "[]"] show "relative_defect path = None" by simp
next
  assume plain: "list_all plain_name (c # cs)"
  then show "components (intercalate [0x2F] (c # cs)) = c # cs"
    by (intro components_join plain_slash_free) simp_all
  assume "list_all (\<lambda>d. 0x2F \<notin> set d) ds"
  with plain show "relative_defect (intercalate [0x2F] (c # cs @ [0x2E, 0x2E] # ds)) = Some DotDot"
    by (subst relative_defect_join) (simp_all add: component_in_path_def component_defect_def)
qed

text \<open>The path \<^verbatim>\<open>a/b\<close> passes and splits into its two names; \<^verbatim>\<open>a/b/../c\<close> is refused.\<close>

theorem relative_defect_None_iff_witness:
  "relative_defect [0x61, 0x2F, 0x62] = None \<and>
   components [0x61, 0x2F, 0x62] = [[0x61], [0x62]] \<and>
   relative_defect [0x61, 0x2F, 0x62, 0x2F, 0x2E, 0x2E, 0x2F, 0x63] = Some DotDot"
proof -
  have plain: "list_all plain_name [[0x61], [0x62]]" by (simp add: plain_name_def)
  have "\<exists>cs. cs \<noteq> [] \<and> list_all plain_name cs \<and> [0x61, 0x2F, 0x62] = intercalate [0x2F] cs"
    using plain by (intro exI [of _ "[[0x61], [0x62]]"]) simp
  with plain relative_defect_None_iff [of "[0x61, 0x2F, 0x62]" "[0x61]" "[[0x62]]" "[[0x63]]"]
  show ?thesis by simp
qed

end
