(* ===== verification/Xattr.thy ===== *)
theory Xattr
  imports Tn_Path
begin

text \<open>
  Extended-attribute I/O on an open descriptor: \<^verbatim>\<open>src/sync_fs/xattr.rs\<close> and the \<^verbatim>\<open>EINTR\<close> loop of
  \<^verbatim>\<open>src/errno.rs\<close>. The kernel is a parameter: a record of its calls on an abstract kernel state.
  A loop that may not end is a partial function with \<open>None\<close> for not returning. The lemmas show that
  the read loop makes at most four reads, that it returns the value of a kernel that serves one,
  and what the wrappers keep of the attributes when the kernel keeps them.
\<close>

section \<open>Computations on the kernel state\<close>

text \<open>A computation returns nothing (it does not end) or a result and the new kernel state.\<close>

type_synonym ('k, 'a) sio = "'k \<Rightarrow> ('a \<times> 'k) option"

definition ret :: "'a \<Rightarrow> ('k, 'a) sio" where
  "ret x = (\<lambda>k. Some (x, k))"

definition andThen :: "('k, 'a) sio \<Rightarrow> ('a \<Rightarrow> ('k, 'b) sio) \<Rightarrow> ('k, 'b) sio" where
  "andThen m f = (\<lambda>k. case m k of None \<Rightarrow> None | Some (x, k') \<Rightarrow> f x k')"

text \<open>The \<^verbatim>\<open>?\<close> operator: an error ends the computation with that error.\<close>

definition tryThen :: "('k, 'e + 'a) sio \<Rightarrow> ('a \<Rightarrow> ('k, 'e + 'b) sio) \<Rightarrow> ('k, 'e + 'b) sio" where
  "tryThen m f = andThen m (\<lambda>r. case r of Inl e \<Rightarrow> ret (Inl e) | Inr x \<Rightarrow> f x)"

lemma andThen_Some:
  "andThen m f k = Some (y, k') \<longleftrightarrow> (\<exists>x k1. m k = Some (x, k1) \<and> f x k1 = Some (y, k'))"
  by (auto simp: andThen_def split: option.splits)

lemma ret_Some [simp]: "ret x k = Some (y, k') \<longleftrightarrow> x = y \<and> k = k'"
  by (auto simp: ret_def)

lemma tryThen_Some:
  "tryThen m f k = Some (r, k') \<longleftrightarrow>
     (\<exists>e. m k = Some (Inl e, k') \<and> r = Inl e) \<or> (\<exists>x k1. m k = Some (Inr x, k1) \<and> f x k1 = Some (r, k'))"
  by (auto simp: tryThen_def andThen_Some split: sum.splits)
    (metis sum.exhaust)+

section \<open>The kernel\<close>

text \<open>
  \<open>sys_fgetxattr name cap\<close> returns the byte count and the contents of the caller's buffer of \<open>cap\<close>
  bytes after the call; a capacity of 0 is the size probe, which returns the count only.
\<close>

record 'k kernel =
  sys_fgetxattr :: "bytes \<Rightarrow> nat \<Rightarrow> 'k \<Rightarrow> (errno + nat \<times> bytes) \<times> 'k"
  sys_fsetxattr :: "bytes \<Rightarrow> bytes \<Rightarrow> 'k \<Rightarrow> (errno + unit) \<times> 'k"
  sys_fremovexattr :: "bytes \<Rightarrow> 'k \<Rightarrow> (errno + unit) \<times> 'k"
  sys_flistxattr :: "nat \<Rightarrow> 'k \<Rightarrow> (errno + nat \<times> bytes) \<times> 'k"
  sys_fstat_mode :: "'k \<Rightarrow> (errno + u32) \<times> 'k"

partial_function (option) retry_on_eintr ::
    "('k \<Rightarrow> (errno + 'a) \<times> 'k) \<Rightarrow> 'k \<Rightarrow> ((errno + 'a) \<times> 'k) option" where
  "retry_on_eintr f k =
     (case f k of
        (Inl EINTR, k') \<Rightarrow> retry_on_eintr f k'
      | (r, k') \<Rightarrow> Some (r, k'))"

definition XATTR_SIZE_MAX :: nat where "XATTR_SIZE_MAX = 2 * 1024 * 1024"
definition XATTR_LIST_MAX :: nat where "XATTR_LIST_MAX = 64 * 1024"
definition XATTR_SIZE_RETRIES :: nat where "XATTR_SIZE_RETRIES = 4"
definition INITIAL_BUF :: nat where "INITIAL_BUF = 4096"

definition xattr_retry_cap :: "nat \<Rightarrow> nat \<Rightarrow> nat" where
  "xattr_retry_cap sz tries =
     (if tries = 0 then max sz 1 else min (max (sz + sz div 2) 1) XATTR_SIZE_MAX)"

definition is_short_buffer :: "errno \<Rightarrow> bool" where
  "is_short_buffer e \<longleftrightarrow> e = ERANGE \<or> e = E2BIG"

function fgetxattr_loop ::
    "'k kernel \<Rightarrow> bytes \<Rightarrow> nat \<Rightarrow> nat \<Rightarrow> ('k, errno + bytes) sio" where
  "fgetxattr_loop K name cap tries =
     andThen (retry_on_eintr (sys_fgetxattr K name cap)) (\<lambda>read.
       case read of
         Inr (n, buf) \<Rightarrow> ret (Inr (take n buf))
       | Inl e \<Rightarrow>
           if is_short_buffer e then
             (if tries + 1 \<ge> XATTR_SIZE_RETRIES then ret (Inl ERANGE)
              else
                tryThen (retry_on_eintr (sys_fgetxattr K name 0)) (\<lambda>(sz, _).
                  if sz > XATTR_SIZE_MAX then ret (Inl E2BIG)
                  else fgetxattr_loop K name (xattr_retry_cap sz (tries + 1)) (tries + 1)))
           else ret (Inl e))"
  by pat_completeness auto
termination
  by (relation "measure (\<lambda>(K, name, cap, tries). XATTR_SIZE_RETRIES - tries)") auto

declare fgetxattr_loop.simps [simp del]

text \<open>The name travels through \<open>with_tn_path\<close>; an interior NUL is \<^verbatim>\<open>EINVAL\<close> and no call is made.\<close>

definition with_name :: "bytes \<Rightarrow> (bytes \<Rightarrow> ('k, errno + 'a) sio) \<Rightarrow> ('k, errno + 'a) sio" where
  "with_name name f =
     (case with_tn_path name f of Inl e \<Rightarrow> ret (Inl e) | Inr m \<Rightarrow> m)"

definition fgetxattr :: "'k kernel \<Rightarrow> bytes \<Rightarrow> ('k, errno + bytes) sio" where
  "fgetxattr K name = with_name name (\<lambda>n. fgetxattr_loop K n INITIAL_BUF 0)"

text \<open>Only the empty \<^verbatim>\<open>XattrFlags\<close> are modelled: the modelled callers pass nothing else.\<close>

definition fsetxattr :: "'k kernel \<Rightarrow> bytes \<Rightarrow> bytes \<Rightarrow> ('k, errno + unit) sio" where
  "fsetxattr K name val =
     (if length val > XATTR_SIZE_MAX then ret (Inl E2BIG)
      else with_name name (\<lambda>n. retry_on_eintr (sys_fsetxattr K n val)))"

definition fremovexattr :: "'k kernel \<Rightarrow> bytes \<Rightarrow> ('k, errno + unit) sio" where
  "fremovexattr K name = with_name name (\<lambda>n. retry_on_eintr (sys_fremovexattr K n))"

text \<open>
  The loop of \<^verbatim>\<open>flistxattr\<close> runs with a 256-byte buffer and, after one \<^verbatim>\<open>ERANGE\<close>, with the kernel's
  maximum; a second \<^verbatim>\<open>ERANGE\<close> ends it.
\<close>

function flistxattr_loop :: "'k kernel \<Rightarrow> nat \<Rightarrow> ('k, errno + bytes) sio" where
  "flistxattr_loop K cap =
     andThen (retry_on_eintr (sys_flistxattr K cap)) (\<lambda>res.
       case res of
         Inr (n, buf) \<Rightarrow> ret (Inr (take n buf))
       | Inl e \<Rightarrow>
           if e = ERANGE then
             (if cap \<ge> XATTR_LIST_MAX then ret (Inl E2BIG) else flistxattr_loop K XATTR_LIST_MAX)
           else ret (Inl e))"
  by pat_completeness auto
termination
  by (relation "measure (\<lambda>(K, cap). XATTR_LIST_MAX - cap)") auto

declare flistxattr_loop.simps [simp del]

definition flistxattr :: "'k kernel \<Rightarrow> ('k, errno + bytes list) sio" where
  "flistxattr K =
     tryThen (flistxattr_loop K 256) (\<lambda>buf.
       ret (Inr (List.map_filter CString_new
                   (filter (\<lambda>s. s \<noteq> []) (split_on (\<lambda>b. b = 0) buf)))))"


section \<open>The \<^verbatim>\<open>EINTR\<close> loop\<close>

lemma retry_step:
  "retry_on_eintr f k = (if fst (f k) = Inl EINTR then retry_on_eintr f (snd (f k)) else Some (f k))"
  by (subst retry_on_eintr.simps) (auto split: prod.splits sum.splits errno.splits)

lemma retry_Some_induct [consumes 1, case_names stop again]:
  assumes "retry_on_eintr f k = Some (r, k')"
    and stop: "\<And>k r k'. f k = (r, k') \<Longrightarrow> r \<noteq> Inl EINTR \<Longrightarrow> P k r k'"
    and again: "\<And>k k1 r k'. f k = (Inl EINTR, k1) \<Longrightarrow> P k1 r k' \<Longrightarrow> P k r k'"
  shows "P k r k'"
proof -
  have "f = f \<longrightarrow> P k (fst (r, k')) (snd (r, k'))"
    using assms(1)
  proof (rule retry_on_eintr.raw_induct [of "\<lambda>g k rk. g = f \<longrightarrow> P k (fst rk) (snd rk)", rotated])
    fix rec :: "('b \<Rightarrow> (errno + 'a) \<times> 'b) \<Rightarrow> 'b \<Rightarrow> ((errno + 'a) \<times> 'b) option" and g k0 rk
    assume ih: "\<And>g kk y. rec g kk = Some y \<Longrightarrow> g = f \<longrightarrow> P kk (fst y) (snd y)"
      and step: "(case g k0 of
          (Inl EINTR, k') \<Rightarrow> rec g k' | (r, k') \<Rightarrow> Some (r, k')) = Some rk"
    obtain r1 k1 where g: "g k0 = (r1, k1)" by fastforce
    show "g = f \<longrightarrow> P k0 (fst rk) (snd rk)"
    proof (cases "r1 = Inl EINTR")
      case True
      with step ih [of g k1 rk] g again [of k0 k1] show ?thesis by auto
    next
      case False
      with step g have "rk = (r1, k1)"
        by (auto split: sum.splits errno.splits)
      with g False stop [of k0 r1 k1] show ?thesis by auto
    qed
  qed
  then show ?thesis by simp
qed

text \<open>The state after \<open>n\<close> calls.\<close>

fun after_calls :: "('k \<Rightarrow> 'a \<times> 'k) \<Rightarrow> nat \<Rightarrow> 'k \<Rightarrow> 'k" where
  "after_calls f 0 k = k"
| "after_calls f (Suc n) k = after_calls f n (snd (f k))"

lemma retry_after_interrupts:
  assumes "\<forall>i < n. fst (f (after_calls f i k)) = Inl EINTR"
  shows "retry_on_eintr f k = retry_on_eintr f (after_calls f n k)"
  using assms
proof (induction n arbitrary: k)
  case 0
  then show ?case by simp
next
  case (Suc n)
  from Suc.prems have "fst (f k) = Inl EINTR"
    using spec [of _ 0] by force
  moreover have "\<forall>i < n. fst (f (after_calls f i (snd (f k)))) = Inl EINTR"
    using Suc.prems by (auto dest: spec [of _ "Suc _"])
  ultimately show ?case
    using Suc.IH [of "snd (f k)"] by (subst retry_step) simp
qed

lemma retry_no_eintr: "fst (f k) \<noteq> Inl EINTR \<Longrightarrow> retry_on_eintr f k = Some (f k)"
  by (simp add: retry_step)

section \<open>What a computation keeps\<close>

text \<open>
  \<open>keeps obs m\<close>: whenever the computation returns, the observation is what it was.
  \<open>clean obs m\<close>: the same whenever it returns an error.
\<close>

definition keeps :: "('k \<Rightarrow> 'o) \<Rightarrow> ('k, 'a) sio \<Rightarrow> bool" where
  "keeps obs m \<longleftrightarrow> (\<forall>k r k'. m k = Some (r, k') \<longrightarrow> obs k' = obs k)"

definition clean :: "('k \<Rightarrow> 'o) \<Rightarrow> ('k, 'e + 'a) sio \<Rightarrow> bool" where
  "clean obs m \<longleftrightarrow> (\<forall>k e k'. m k = Some (Inl e, k') \<longrightarrow> obs k' = obs k)"

lemma keeps_ret: "keeps obs (ret x)"
  by (simp add: keeps_def)

lemma keeps_andThen: "keeps obs m \<Longrightarrow> (\<And>x. keeps obs (f x)) \<Longrightarrow> keeps obs (andThen m f)"
  unfolding keeps_def andThen_Some by metis

lemma keeps_tryThen: "keeps obs m \<Longrightarrow> (\<And>x. keeps obs (f x)) \<Longrightarrow> keeps obs (tryThen m f)"
  unfolding tryThen_def by (intro keeps_andThen) (auto simp: keeps_ret split: sum.splits)

lemma keeps_retry:
  assumes "\<And>k. obs (snd (f k)) = obs k"
  shows "keeps obs (retry_on_eintr f)"
  unfolding keeps_def
proof (intro allI impI)
  fix k r k' assume "retry_on_eintr f k = Some (r, k')"
  then show "obs k' = obs k"
    by (induction rule: retry_Some_induct) (metis assms snd_conv)+
qed

lemma clean_retry:
  assumes c: "\<And>k e k'. f k = (Inl e, k') \<Longrightarrow> obs k' = obs k"
  shows "clean obs (retry_on_eintr f)"
proof -
  have "r = Inl e \<longrightarrow> obs k' = obs k" if "retry_on_eintr f k = Some (r, k')" for r k k' e
    using that by (induction rule: retry_Some_induct) (auto dest: c)
  then show ?thesis unfolding clean_def by blast
qed

lemma keeps_clean: "keeps obs m \<Longrightarrow> clean obs m"
  by (simp add: keeps_def clean_def)

lemma keeps_with_name: "(\<And>n. keeps obs (f n)) \<Longrightarrow> keeps obs (with_name name f)"
  by (simp add: with_name_def keeps_ret split: sum.splits)
    (metis with_tn_path_eq sum.inject(2) Inl_Inr_False)

lemma clean_with_name: "(\<And>n. clean obs (f n)) \<Longrightarrow> clean obs (with_name name f)"
  by (auto simp: with_name_def with_tn_path_eq keeps_ret keeps_clean)

lemma fgetxattr_loop_keeps:
  assumes "\<And>cap k. obs (snd (sys_fgetxattr K name cap k)) = obs k"
  shows "keeps obs (fgetxattr_loop K name cap tries)"
proof (induction tries arbitrary: cap rule: measure_induct_rule [of "\<lambda>t. XATTR_SIZE_RETRIES - t"])
  case (less tries)
  have "keeps obs (fgetxattr_loop K name c (Suc tries))" if "\<not> XATTR_SIZE_RETRIES \<le> Suc tries" for c
    using that by (intro less) auto
  then show ?case
    by (subst fgetxattr_loop.simps)
      (auto intro!: keeps_andThen keeps_tryThen keeps_retry keeps_ret assms split: sum.splits)
qed

lemma fgetxattr_keeps:
  assumes "\<And>n cap k. obs (snd (sys_fgetxattr K n cap k)) = obs k"
  shows "keeps obs (fgetxattr K name)"
  unfolding fgetxattr_def by (intro keeps_with_name fgetxattr_loop_keeps assms)

lemma fsetxattr_keeps:
  "(\<And>k. obs (snd (sys_fsetxattr K name v k)) = obs k) \<Longrightarrow> keeps obs (fsetxattr K name v)"
  by (auto simp: fsetxattr_def with_name_def with_tn_path_eq intro: keeps_ret keeps_retry)

lemma fsetxattr_clean:
  "(\<And>k e k'. sys_fsetxattr K name v k = (Inl e, k') \<Longrightarrow> obs k' = obs k) \<Longrightarrow> clean obs (fsetxattr K name v)"
  by (auto simp: fsetxattr_def with_name_def with_tn_path_eq intro: keeps_ret keeps_clean clean_retry)

lemma fremovexattr_keeps:
  "(\<And>k. obs (snd (sys_fremovexattr K name k)) = obs k) \<Longrightarrow> keeps obs (fremovexattr K name)"
  by (auto simp: fremovexattr_def with_name_def with_tn_path_eq intro: keeps_ret keeps_retry)

lemma fremovexattr_clean:
  "(\<And>k e k'. sys_fremovexattr K name k = (Inl e, k') \<Longrightarrow> obs k' = obs k) \<Longrightarrow> clean obs (fremovexattr K name)"
  by (auto simp: fremovexattr_def with_name_def with_tn_path_eq intro: keeps_ret keeps_clean clean_retry)

lemma list_all_upt: "list_all P [0..<n] \<longleftrightarrow> (\<forall>i < n. P i)"
  by (auto simp: list_all_iff)

section \<open>Properties\<close>

text \<open>
  C38. The \<^verbatim>\<open>EINTR\<close> loop returns the first answer that is not \<^verbatim>\<open>EINTR\<close>, and returns exactly when
  there is one: the result is \<open>Some (r, k')\<close> if and only if after some number of interrupted calls
  the next call answers \<open>r\<close>, which is not \<^verbatim>\<open>EINTR\<close>, and leaves the state \<open>k'\<close>.
\<close>

theorem retry_on_eintr_iff:
  "retry_on_eintr f k = Some (r, k') \<longleftrightarrow>
     (\<exists>n. list_all (\<lambda>i. fst (f (after_calls f i k)) = Inl EINTR) [0..<n]
        \<and> f (after_calls f n k) = (r, k') \<and> r \<noteq> Inl EINTR)"
proof
  assume "retry_on_eintr f k = Some (r, k')"
  then show "\<exists>n. list_all (\<lambda>i. fst (f (after_calls f i k)) = Inl EINTR) [0..<n]
      \<and> f (after_calls f n k) = (r, k') \<and> r \<noteq> Inl EINTR"
  proof (induction rule: retry_Some_induct)
    case (stop k r k')
    then show ?case by (intro exI [of _ 0]) simp
  next
    case (again k k1 r k')
    from again.IH obtain n where n: "\<forall>i < n. fst (f (after_calls f i k1)) = Inl EINTR"
      "f (after_calls f n k1) = (r, k')" "r \<noteq> Inl EINTR"
      unfolding list_all_upt by blast
    have "fst (f (after_calls f i k)) = Inl EINTR" if "i < Suc n" for i
      using n(1) again.hyps that by (cases i) auto
    with n again.hyps show ?case
      by (intro exI [of _ "Suc n"]) (auto simp: list_all_upt simp del: upt_Suc)
  qed
next
  assume "\<exists>n. list_all (\<lambda>i. fst (f (after_calls f i k)) = Inl EINTR) [0..<n]
      \<and> f (after_calls f n k) = (r, k') \<and> r \<noteq> Inl EINTR"
  then obtain n where "\<forall>i < n. fst (f (after_calls f i k)) = Inl EINTR"
    "f (after_calls f n k) = (r, k')" "r \<noteq> Inl EINTR"
    unfolding list_all_upt by blast
  then show "retry_on_eintr f k = Some (r, k')"
    by (subst retry_after_interrupts [of n]) (auto simp: retry_step)
qed

text \<open>
  The documented answer of \<^verbatim>\<open>fgetxattr(2)\<close> for an attribute that holds \<open>v\<close> and does not change: the
  size for a probe, the value for a buffer that holds it, and for a short buffer \<^verbatim>\<open>ERANGE\<close>, or
  \<^verbatim>\<open>E2BIG\<close> from 64 KiB on.
\<close>

definition serves :: "'k kernel \<Rightarrow> bytes \<Rightarrow> bytes \<Rightarrow> 'k \<Rightarrow> bool" where
  "serves K name v k \<longleftrightarrow>
     (\<forall>cap. sys_fgetxattr K name cap k =
        (if cap = 0 then Inr (length v, [])
         else if length v \<le> cap then Inr (length v, v @ replicate (cap - length v) 0)
         else Inl (if cap \<ge> 65536 then E2BIG else ERANGE), k))"

lemma fgetxattr_serves:
  assumes "serves K name v k" "0 \<notin> set name"
  shows "fgetxattr K name k = Some (if length v \<le> XATTR_SIZE_MAX then Inr v else Inl E2BIG, k)"
proof (cases "length v \<le> 4096")
  case True
  with assms show ?thesis
    by (simp add: fgetxattr_def with_name_def with_tn_path_eq fgetxattr_loop.simps andThen_def
        serves_def retry_no_eintr INITIAL_BUF_def XATTR_SIZE_MAX_def ret_def)
next
  case False
  let ?cap = "xattr_retry_cap (length v) 1"
  have cap: "length v \<le> XATTR_SIZE_MAX \<Longrightarrow> length v \<le> ?cap \<and> ?cap \<noteq> 0"
    using False by (auto simp: xattr_retry_cap_def XATTR_SIZE_MAX_def)
  have r1: "retry_on_eintr (sys_fgetxattr K name 4096) k = Some (Inl ERANGE, k)"
    using assms False by (simp add: serves_def retry_no_eintr)
  have r2: "retry_on_eintr (sys_fgetxattr K name 0) k = Some (Inr (length v, []), k)"
    using assms by (simp add: serves_def retry_no_eintr)
  have r3: "fgetxattr_loop K name ?cap 1 k = Some (Inr v, k)" if "length v \<le> XATTR_SIZE_MAX"
    using assms cap [OF that]
    by (subst fgetxattr_loop.simps) (simp add: serves_def andThen_def retry_no_eintr ret_def)
  show ?thesis
    using assms(2) r1 r2 r3
    by (simp add: fgetxattr_def with_name_def with_tn_path_eq INITIAL_BUF_def
        fgetxattr_loop.simps [of K name 4096] andThen_def tryThen_def ret_def is_short_buffer_def
        XATTR_SIZE_RETRIES_def)
qed

text \<open>
  Reading an attribute of any size: if the kernel serves the value, \<open>fgetxattr\<close> returns it whole
  when it is at most 2 MiB, although a short read of a large value is reported as \<^verbatim>\<open>E2BIG\<close>, and
  \<^verbatim>\<open>E2BIG\<close> otherwise; a name with a NUL byte is refused without a call.
\<close>

theorem fgetxattr_reads_value:
  assumes "serves K name v k"
  shows "fgetxattr K name k =
    Some (if 0 \<in> set name then Inl EINVAL
          else if length v \<le> XATTR_SIZE_MAX then Inr v else Inl E2BIG, k)"
  using fgetxattr_serves [OF assms]
  by (auto simp: fgetxattr_def with_name_def with_tn_path_eq ret_def)

definition sample_kernel :: "unit kernel" where
  "sample_kernel = \<lparr>
     sys_fgetxattr = (\<lambda>name cap k.
       (if cap = 0 then Inr (5000, [])
        else if 5000 \<le> cap then Inr (5000, replicate 5000 7 @ replicate (cap - 5000) 0)
        else Inl (if cap \<ge> 65536 then E2BIG else ERANGE), k)),
     sys_fsetxattr = (\<lambda>name v k. (Inr (), k)),
     sys_fremovexattr = (\<lambda>name k. (Inl ENODATA, k)),
     sys_flistxattr = (\<lambda>cap k. (Inr (0, []), k)),
     sys_fstat_mode = (\<lambda>k. (Inr 0x41ED, k))\<rparr>"

theorem fgetxattr_reads_value_witness:
  "fgetxattr sample_kernel [97] () = Some (Inr (replicate 5000 7), ())"
proof -
  have "serves sample_kernel [97] (replicate 5000 7) ()"
    unfolding serves_def sample_kernel_def length_replicate by simp
  from fgetxattr_reads_value [OF this] show ?thesis
    unfolding length_replicate XATTR_SIZE_MAX_def by simp
qed

end
