(* ===== verification/Acl_Fs.thy ===== *)
theory Acl_Fs
  imports Acl_Lossy Xattr
begin

text \<open>
  Reading, writing and removing ACLs of an open descriptor: \<^verbatim>\<open>src/sync_fs/acl/mod.rs\<close>. The kernel is
  the parameter of the theory \<open>Xattr\<close>. The lemmas show that an ACL that does not validate is never
  written, that the two-part POSIX write leaves the access ACL alone on every error, and that a
  written ACL is read back.
\<close>

section \<open>Operations\<close>

definition NFS4_ACL_XATTR :: bytes where "NFS4_ACL_XATTR = s2b ''system.nfs4_acl_xdr''"
definition POSIX_ACCESS_XATTR :: bytes where "POSIX_ACCESS_XATTR = s2b ''system.posix_acl_access''"
definition POSIX_DEFAULT_XATTR :: bytes where "POSIX_DEFAULT_XATTR = s2b ''system.posix_acl_default''"

datatype Acl = Nfs4 Nfs4Acl | Posix PosixAcl

datatype AclTarget = Fd | AssumeDir

text \<open>\<^verbatim>\<open>From<Errno> for Error\<close> at a \<^verbatim>\<open>?\<close>.\<close>

definition lift_errno :: "('k, errno + 'a) sio \<Rightarrow> ('k, error + 'a) sio" where
  "lift_errno m = andThen m (\<lambda>r. ret (case r of Inl e \<Rightarrow> Inl (Errno e) | Inr x \<Rightarrow> Inr x))"

definition fstat_mode :: "'k kernel \<Rightarrow> ('k, error + u32) sio" where
  "fstat_mode K = lift_errno (\<lambda>k. Some (sys_fstat_mode K k))"

definition target_is_dir :: "'k kernel \<Rightarrow> AclTarget \<Rightarrow> ('k, error + bool) sio" where
  "target_is_dir K target =
     (case target of
        AssumeDir \<Rightarrow> ret (Inr True)
      | Fd \<Rightarrow> tryThen (fstat_mode K) (\<lambda>mode. ret (Inr (mode AND 0xF000 = 0x4000))))"

definition fgetacl_posix :: "'k kernel \<Rightarrow> ('k, error + Acl) sio" where
  "fgetacl_posix K =
     tryThen
       (andThen (fgetxattr K POSIX_ACCESS_XATTR) (\<lambda>r.
          case r of
            Inr b \<Rightarrow> ret (Acl_Posix.from_xattr b None)
          | Inl e \<Rightarrow>
              if e = EOPNOTSUPP then ret (Inl (Errno EOPNOTSUPP))
              else if e = ENODATA then
                tryThen (fstat_mode K) (\<lambda>mode. ret (Inr (synthesize_from_mode mode)))
              else ret (Inl (Errno e))))
       (\<lambda>acl.
          andThen (fgetxattr K POSIX_DEFAULT_XATTR) (\<lambda>r.
            case r of
              Inr b \<Rightarrow> ret (bind_res (set_default_from_xattr acl b) (\<lambda>a. Inr (Posix a)))
            | Inl e \<Rightarrow> if e = ENODATA then ret (Inr (Posix acl)) else ret (Inl (Errno e))))"

definition fgetacl :: "'k kernel \<Rightarrow> ('k, error + Acl) sio" where
  "fgetacl K =
     andThen (fgetxattr K NFS4_ACL_XATTR) (\<lambda>r.
       case r of
         Inr b \<Rightarrow> ret (bind_res (Acl_Nfs4.from_xattr b) (\<lambda>a. Inr (Nfs4 a)))
       | Inl e \<Rightarrow>
           if e = ENODATA then ret (bind_res (Acl_Nfs4.from_xattr []) (\<lambda>a. Inr (Nfs4 a)))
           else if e = EOPNOTSUPP then fgetacl_posix K
           else ret (Inl (Errno e)))"

definition ignore_enodata :: "('k, errno + unit) sio \<Rightarrow> ('k, error + unit) sio" where
  "ignore_enodata m =
     andThen m (\<lambda>r. case r of
       Inr u \<Rightarrow> ret (Inr ())
     | Inl e \<Rightarrow> if e = ENODATA then ret (Inr ()) else ret (Inl (Errno e)))"

definition write_default :: "'k kernel \<Rightarrow> bytes option \<Rightarrow> ('k, error + unit) sio" where
  "write_default K d =
     (case d of
        Some b \<Rightarrow> lift_errno (fsetxattr K POSIX_DEFAULT_XATTR b)
      | None \<Rightarrow> ignore_enodata (fremovexattr K POSIX_DEFAULT_XATTR))"

definition write_posix :: "'k kernel \<Rightarrow> bytes \<Rightarrow> bytes option \<Rightarrow> ('k, error + unit) sio" where
  "write_posix K acc dflt =
     tryThen
       (andThen (fgetxattr K POSIX_DEFAULT_XATTR) (\<lambda>r.
          case r of
            Inr b \<Rightarrow> ret (Inr (Some b))
          | Inl e \<Rightarrow> if e = ENODATA \<or> e = EOPNOTSUPP then ret (Inr None) else ret (Inl (Errno e))))
       (\<lambda>prior.
          tryThen (write_default K dflt) (\<lambda>_.
            andThen (fsetxattr K POSIX_ACCESS_XATTR acc) (\<lambda>r.
              case r of
                Inr _ \<Rightarrow> ret (Inr ())
              | Inl e \<Rightarrow> tryThen (write_default K prior) (\<lambda>_. ret (Inl (Errno e))))))"

definition fremoveacl :: "'k kernel \<Rightarrow> ('k, error + unit) sio" where
  "fremoveacl K =
     andThen (fgetxattr K NFS4_ACL_XATTR) (\<lambda>r.
       case r of
         Inr _ \<Rightarrow> ignore_enodata (fremovexattr K NFS4_ACL_XATTR)
       | Inl e \<Rightarrow>
           if e = ENODATA then ret (Inr ())
           else if e = EOPNOTSUPP then
             andThen (fremovexattr K POSIX_ACCESS_XATTR) (\<lambda>r2.
               case r2 of
                 Inr _ \<Rightarrow> ignore_enodata (fremovexattr K POSIX_DEFAULT_XATTR)
               | Inl e2 \<Rightarrow>
                   if e2 = ENODATA then ignore_enodata (fremovexattr K POSIX_DEFAULT_XATTR)
                   else if e2 = EOPNOTSUPP then ret (Inr ())
                   else ret (Inl (Errno e2)))
           else ret (Inl (Errno e)))"

definition validate_acl :: "'k kernel \<Rightarrow> AclTarget \<Rightarrow> Acl \<Rightarrow> ('k, error + unit) sio" where
  "validate_acl K target acl =
     tryThen (target_is_dir K target) (\<lambda>is_dir.
       ret (case acl of
              Nfs4 a \<Rightarrow> Acl_Nfs4.validate a is_dir
            | Posix a \<Rightarrow> Acl_Posix.validate a is_dir))"

definition fsetacl :: "'k kernel \<Rightarrow> Acl option \<Rightarrow> ('k, error + unit) sio" where
  "fsetacl K acl =
     (case acl of
        None \<Rightarrow> fremoveacl K
      | Some (Nfs4 a) \<Rightarrow>
          tryThen (target_is_dir K Fd) (\<lambda>is_dir.
            tryThen (ret (Acl_Nfs4.validate a is_dir)) (\<lambda>_.
              tryThen (ret (to_xattr a)) (\<lambda>b.
                lift_errno (fsetxattr K NFS4_ACL_XATTR b))))
      | Some (Posix a) \<Rightarrow>
          tryThen (target_is_dir K Fd) (\<lambda>is_dir.
            tryThen (ret (Acl_Posix.validate a is_dir)) (\<lambda>_.
              tryThen (ret (access_bytes a)) (\<lambda>ab.
                tryThen (ret (default_bytes a)) (\<lambda>db.
                  write_posix K ab db)))))"

definition fsetacl_nfs4 :: "'k kernel \<Rightarrow> bytes \<Rightarrow> ('k, error + unit) sio" where
  "fsetacl_nfs4 K data =
     (if data = [] then ret (Inl (Errno EINVAL))
      else
        tryThen (ret (Acl_Nfs4.from_xattr data)) (\<lambda>a.
          tryThen (target_is_dir K Fd) (\<lambda>is_dir.
            tryThen (ret (Acl_Nfs4.validate a is_dir)) (\<lambda>_.
              lift_errno (fsetxattr K NFS4_ACL_XATTR data)))))"

definition fsetacl_posix :: "'k kernel \<Rightarrow> bytes \<Rightarrow> bytes option \<Rightarrow> ('k, error + unit) sio" where
  "fsetacl_posix K acc dflt =
     (if acc = [] then ret (Inl (Errno EINVAL))
      else
        tryThen (ret (Acl_Posix.from_xattr acc dflt)) (\<lambda>a.
          tryThen (target_is_dir K Fd) (\<lambda>is_dir.
            tryThen (ret (Acl_Posix.validate a is_dir)) (\<lambda>_.
              write_posix K acc dflt))))"


section \<open>What the operations keep\<close>

lemma lift_errno_Inr: "lift_errno m k = Some (Inr x, k') \<longleftrightarrow> m k = Some (Inr x, k')"
  by (cases "m k") (auto simp: lift_errno_def andThen_def ret_def split: sum.splits)

lemma keeps_lift_errno: "keeps obs m \<Longrightarrow> keeps obs (lift_errno m)"
  unfolding lift_errno_def by (intro keeps_andThen keeps_ret)

lemma keeps_ignore_enodata: "keeps obs m \<Longrightarrow> keeps obs (ignore_enodata m)"
  unfolding ignore_enodata_def by (intro keeps_andThen) (auto simp: keeps_ret split: sum.splits)

lemma clean_tryThen: "keeps obs m \<Longrightarrow> (\<And>x. clean obs (f x)) \<Longrightarrow> clean obs (tryThen m f)"
  unfolding clean_def keeps_def tryThen_Some by (metis sum.inject(1))

lemma clean_recover:
  assumes "clean obs m" "\<And>e. keeps obs (g e)"
  shows "clean obs (andThen m (\<lambda>r. case r of Inr _ \<Rightarrow> ret (Inr ()) | Inl e \<Rightarrow> g e))"
  unfolding clean_def
proof (intro allI impI)
  fix k e k'
  assume "andThen m (\<lambda>r. case r of Inr _ \<Rightarrow> ret (Inr ()) | Inl e \<Rightarrow> g e) k = Some (Inl e, k')"
  then obtain r k1 where r: "m k = Some (r, k1)"
    "(case r of Inr _ \<Rightarrow> ret (Inr ()) | Inl e \<Rightarrow> g e) k1 = Some (Inl e, k')"
    by (auto simp: andThen_Some)
  then show "obs k' = obs k"
    using assms unfolding clean_def keeps_def by (cases r) auto
qed

text \<open>
  The kernel keeps the observation \<open>obs\<close> (the stored access ACL) through reads and through every
  call on the default ACL, and a failed write of the access ACL does not change it.
\<close>

definition access_separate :: "'k kernel \<Rightarrow> ('k \<Rightarrow> 'o) \<Rightarrow> bool" where
  "access_separate K obs \<longleftrightarrow>
     (\<forall>n cap k. obs (snd (sys_fgetxattr K n cap k)) = obs k) \<and>
     (\<forall>k. obs (snd (sys_fstat_mode K k)) = obs k) \<and>
     (\<forall>v k. obs (snd (sys_fsetxattr K POSIX_DEFAULT_XATTR v k)) = obs k) \<and>
     (\<forall>k. obs (snd (sys_fremovexattr K POSIX_DEFAULT_XATTR k)) = obs k) \<and>
     (\<forall>v k e k'. sys_fsetxattr K POSIX_ACCESS_XATTR v k = (Inl e, k') \<longrightarrow> obs k' = obs k)"

lemma write_default_keeps: "access_separate K obs \<Longrightarrow> keeps obs (write_default K d)"
  by (cases d)
    (auto simp: write_default_def access_separate_def
      intro!: keeps_lift_errno keeps_ignore_enodata fsetxattr_keeps fremovexattr_keeps)

lemma write_posix_clean:
  assumes sep: "access_separate K obs"
  shows "clean obs (write_posix K acc dflt)"
proof -
  have get: "keeps obs (fgetxattr K n)" for n
    using sep by (intro fgetxattr_keeps) (simp add: access_separate_def)
  have set: "clean obs (fsetxattr K POSIX_ACCESS_XATTR acc)"
    using sep by (intro fsetxattr_clean) (auto simp: access_separate_def)
  show ?thesis
    unfolding write_posix_def
    by (intro clean_tryThen keeps_andThen get write_default_keeps [OF sep] clean_recover set
        keeps_tryThen keeps_ret)
      (auto simp: keeps_ret split: sum.splits)
qed

lemma fstat_mode_keeps:
  "(\<And>k. obs (snd (sys_fstat_mode K k)) = obs k) \<Longrightarrow> keeps obs (fstat_mode K)"
  unfolding fstat_mode_def by (intro keeps_lift_errno) (auto simp: keeps_def, metis snd_conv)

lemma target_is_dir_keeps:
  "(\<And>k. obs (snd (sys_fstat_mode K k)) = obs k) \<Longrightarrow> keeps obs (target_is_dir K t)"
  by (cases t) (auto simp: target_is_dir_def intro!: keeps_tryThen fstat_mode_keeps keeps_ret)

section \<open>Reading back what was written\<close>

text \<open>
  What a kernel does with one attribute, \<open>view\<close> being the stored values: a read serves the stored value
  (\<^verbatim>\<open>ENODATA\<close> when there is none), a successful removal clears it, and a failed one changes nothing.
\<close>

definition serves_attr :: "'k kernel \<Rightarrow> ('k \<Rightarrow> bytes \<Rightarrow> bytes option) \<Rightarrow> bytes \<Rightarrow> bool" where
  "serves_attr K view name \<longleftrightarrow>
     (\<forall>k v. view k name = Some v \<longrightarrow> serves K name v k) \<and>
     (\<forall>k cap. view k name = None \<longrightarrow> sys_fgetxattr K name cap k = (Inl ENODATA, k))"

definition removes_attr :: "'k kernel \<Rightarrow> ('k \<Rightarrow> bytes \<Rightarrow> bytes option) \<Rightarrow> bytes \<Rightarrow> bool" where
  "removes_attr K view name \<longleftrightarrow>
     (\<forall>k u k'. sys_fremovexattr K name k = (Inr u, k') \<longrightarrow> view k' = (view k)(name := None)) \<and>
     (\<forall>k e k'. sys_fremovexattr K name k = (Inl e, k') \<longrightarrow>
        view k' = view k \<and> (e = ENODATA \<longrightarrow> view k name = None))"

text \<open>An attribute stored verbatim: the value written is the value served.\<close>

definition holds_attr :: "'k kernel \<Rightarrow> ('k \<Rightarrow> bytes \<Rightarrow> bytes option) \<Rightarrow> bytes \<Rightarrow> bool" where
  "holds_attr K view name \<longleftrightarrow>
     serves_attr K view name \<and> removes_attr K view name \<and>
     (\<forall>k v u k'. sys_fsetxattr K name v k = (Inr u, k') \<longrightarrow> view k' = (view k)(name \<mapsto> v)) \<and>
     (\<forall>k v e k'. sys_fsetxattr K name v k = (Inl e, k') \<longrightarrow> view k' = view k)"

text \<open>
  The two POSIX ACL attributes are not plain values to the kernel: it reads the value as a list of
  entries (tag, permissions and id, in the layout of \<^verbatim>\<open>linux/posix_acl_xattr.h\<close>) and serves the list
  from what it kept. \<open>keeps_posix_acls\<close> says what Linux documents for lists whose entries without an
  id carry the undefined id. The default ACL, when it has entries, is kept as written. The access ACL
  is kept as written when it has a named entry or a mask; one of just the owner, the owning group and
  the others says nothing the mode does not (\<^verbatim>\<open>posix_acl_equiv_mode\<close>), so it goes into the nine
  permission bits of the mode and no access ACL is kept. A failed write changes nothing, and
  \<^verbatim>\<open>fstat\<close> reports the mode.
\<close>

type_synonym acl_word = "u16 \<times> u16 \<times> u32"

definition acl_value :: "acl_word list \<Rightarrow> bytes" where
  "acl_value es = le32_bytes 2 @ concat (map (\<lambda>(t, p, i). le16_bytes t @ le16_bytes p @ le32_bytes i) es)"

fun word_canonical :: "acl_word \<Rightarrow> bool" where
  "word_canonical (t, p, i) \<longleftrightarrow>
     p AND 7 = p \<and> (t \<in> {0x02, 0x08} \<or> t \<in> {0x01, 0x04, 0x10, 0x20} \<and> i = 0xFFFFFFFF)"

fun word_extended :: "acl_word \<Rightarrow> bool" where
  "word_extended (t, p, i) \<longleftrightarrow> t \<in> {0x02, 0x08, 0x10}"

definition mode_words :: "u16 \<Rightarrow> u16 \<Rightarrow> u16 \<Rightarrow> acl_word list" where
  "mode_words u g r = [(0x01, u, 0xFFFFFFFF), (0x04, g, 0xFFFFFFFF), (0x20, r, 0xFFFFFFFF)]"

definition mode_bits :: "u16 \<Rightarrow> u16 \<Rightarrow> u16 \<Rightarrow> u32" where
  "mode_bits u g r = push_bit 6 (ucast u) OR push_bit 3 (ucast g) OR ucast r"

definition keeps_posix_acls :: "'k kernel \<Rightarrow> ('k \<Rightarrow> bytes \<Rightarrow> bytes option) \<Rightarrow> ('k \<Rightarrow> u32) \<Rightarrow> bool" where
  "keeps_posix_acls K view mode \<longleftrightarrow>
     serves_attr K view POSIX_ACCESS_XATTR \<and> serves_attr K view POSIX_DEFAULT_XATTR \<and>
     removes_attr K view POSIX_DEFAULT_XATTR \<and>
     (\<forall>k. sys_fstat_mode K k = (Inr (mode k), k)) \<and>
     (\<forall>name v k e k'. name \<in> {POSIX_ACCESS_XATTR, POSIX_DEFAULT_XATTR} \<and>
        sys_fsetxattr K name v k = (Inl e, k') \<longrightarrow> view k' = view k) \<and>
     (\<forall>es k w k'. es \<noteq> [] \<and> list_all word_canonical es \<and>
        sys_fsetxattr K POSIX_DEFAULT_XATTR (acl_value es) k = (Inr w, k') \<longrightarrow>
        view k' = (view k)(POSIX_DEFAULT_XATTR \<mapsto> acl_value es)) \<and>
     (\<forall>es k w k'. list_all word_canonical es \<and> list_ex word_extended es \<and>
        sys_fsetxattr K POSIX_ACCESS_XATTR (acl_value es) k = (Inr w, k') \<longrightarrow>
        view k' = (view k)(POSIX_ACCESS_XATTR \<mapsto> acl_value es)) \<and>
     (\<forall>u g r k w k'. list_all word_canonical (mode_words u g r) \<and>
        sys_fsetxattr K POSIX_ACCESS_XATTR (acl_value (mode_words u g r)) k = (Inr w, k') \<longrightarrow>
        view k' = (view k)(POSIX_ACCESS_XATTR := None) \<and> mode k' AND 0x1FF = mode_bits u g r)"

lemma names_no_nul [simp]:
  "0 \<notin> set NFS4_ACL_XATTR" "0 \<notin> set POSIX_ACCESS_XATTR" "0 \<notin> set POSIX_DEFAULT_XATTR"
  by code_simp+

lemma names_distinct [simp]:
  "POSIX_ACCESS_XATTR \<noteq> POSIX_DEFAULT_XATTR" "POSIX_DEFAULT_XATTR \<noteq> POSIX_ACCESS_XATTR"
  by code_simp+

lemma fsetxattr_post:
  assumes "fsetxattr K name v k = Some (Inr u, k')" "0 \<notin> set name"
    and fails: "\<And>k e k'. sys_fsetxattr K name v k = (Inl e, k') \<Longrightarrow> view k' = view k"
    and succ: "\<And>k w k'. sys_fsetxattr K name v k = (Inr w, k') \<Longrightarrow> Q (view k) k'"
  shows "Q (view k) k'" "length v \<le> XATTR_SIZE_MAX"
proof -
  from assms(1,2) have r: "retry_on_eintr (sys_fsetxattr K name v) k = Some (Inr u, k')"
    and "length v \<le> XATTR_SIZE_MAX"
    by (auto simp: fsetxattr_def with_name_def with_tn_path_eq split: if_splits)
  have "x = Inr u \<longrightarrow> Q (view k) k'" if "retry_on_eintr (sys_fsetxattr K name v) k = Some (x, k')" for x k k'
    using that
  proof (induction rule: retry_Some_induct)
    case (stop k r k')
    then show ?case using succ by auto
  next
    case (again k k1 r k')
    then show ?case using fails [of k EINTR k1] by auto
  qed
  with r show "Q (view k) k'" by blast
  show "length v \<le> XATTR_SIZE_MAX" by fact
qed

lemma fsetxattr_view:
  assumes "holds_attr K view name" "0 \<notin> set name" "fsetxattr K name v k = Some (Inr u, k')"
  shows "view k' = (view k)(name \<mapsto> v)" "length v \<le> XATTR_SIZE_MAX"
proof -
  have *: "\<And>k e k'. sys_fsetxattr K name v k = (Inl e, k') \<Longrightarrow> view k' = view k"
    "\<And>k w k'. sys_fsetxattr K name v k = (Inr w, k') \<Longrightarrow> view k' = (view k)(name \<mapsto> v)"
    using assms(1) unfolding holds_attr_def by blast+
  show "view k' = (view k)(name \<mapsto> v)" "length v \<le> XATTR_SIZE_MAX"
    using fsetxattr_post [OF assms(3,2), of view "\<lambda>w k'. view k' = w(name \<mapsto> v)"] * by blast+
qed

lemma fgetxattr_view:
  assumes "serves_attr K view name" "0 \<notin> set name"
  shows "view k name = Some v \<Longrightarrow> fgetxattr K name k = Some (if length v \<le> XATTR_SIZE_MAX then Inr v else Inl E2BIG, k)"
    "view k name = None \<Longrightarrow> fgetxattr K name k = Some (Inl ENODATA, k)"
proof -
  assume "view k name = Some v"
  with assms(1) have "serves K name v k"
    unfolding serves_attr_def by blast
  then show "fgetxattr K name k = Some (if length v \<le> XATTR_SIZE_MAX then Inr v else Inl E2BIG, k)"
    using assms(2) by (rule fgetxattr_serves)
next
  assume "view k name = None"
  with assms(1) have "\<And>cap. sys_fgetxattr K name cap k = (Inl ENODATA, k)"
    unfolding serves_attr_def by blast
  with assms(2) show "fgetxattr K name k = Some (Inl ENODATA, k)"
    by (simp add: fgetxattr_def with_name_def with_tn_path_eq fgetxattr_loop.simps andThen_def
        retry_no_eintr is_short_buffer_def ret_def)
qed

lemma remove_default_view:
  assumes "removes_attr K view POSIX_DEFAULT_XATTR"
    and "ignore_enodata (fremovexattr K POSIX_DEFAULT_XATTR) k = Some (Inr u, k')"
  shows "view k' = (view k)(POSIX_DEFAULT_XATTR := None)"
proof -
  let ?n = POSIX_DEFAULT_XATTR
  have rm: "\<And>k u k'. sys_fremovexattr K ?n k = (Inr u, k') \<Longrightarrow> view k' = (view k)(?n := None)"
    "\<And>k e k'. sys_fremovexattr K ?n k = (Inl e, k') \<Longrightarrow> view k' = view k"
    "\<And>k k'. sys_fremovexattr K ?n k = (Inl ENODATA, k') \<Longrightarrow> view k ?n = None"
    using assms(1) unfolding removes_attr_def by blast+
  have "case r of Inr _ \<Rightarrow> view k' = (view k)(?n := None)
      | Inl e \<Rightarrow> view k' = view k \<and> (e = ENODATA \<longrightarrow> view k ?n = None)"
    if "retry_on_eintr (sys_fremovexattr K ?n) k = Some (r, k')" for r k k'
    using that
  proof (induction rule: retry_Some_induct)
    case (stop k r k')
    then show ?case
      using rm(1) [of k "()" k'] rm(2) [of k _ k'] rm(3) [of k k'] by (cases r) auto
  next
    case (again k k1 r k')
    then show ?case
      using rm(2) [of k EINTR k1] by (cases r) auto
  qed
  note r = this
  from assms(2) obtain x k1 where x: "retry_on_eintr (sys_fremovexattr K ?n) k = Some (x, k1)"
    "(case x of Inr _ \<Rightarrow> ret (Inr ())
      | Inl e \<Rightarrow> if e = ENODATA then ret (Inr ()) else ret (Inl (Errno e))) k1 = Some (Inr u, k')"
    by (auto simp: ignore_enodata_def fremovexattr_def with_name_def with_tn_path_eq andThen_Some)
  then have "k1 = k' \<and> (x = Inr () \<or> x = Inl ENODATA)"
    by (cases x) (auto split: if_splits)
  with r [OF x(1)] show ?thesis
    by (auto simp: fun_upd_idem)
qed

text \<open>The entries of an ACL as the kernel reads them from the encoded value.\<close>

definition ace_word :: "PosixAce \<Rightarrow> acl_word" where
  "ace_word a = (PosixTag_repr (tag a), perms a, if is_special (tag a) then 0xFFFFFFFF else word_of_int (aid a))"

lemma encode_aces_value:
  assumes "encode_aces as = Inr b"
  shows "b = acl_value (map ace_word as)"
proof -
  have "traverse encode_ace as = Inr bss \<Longrightarrow>
      concat bss = concat (map ((\<lambda>(t, p, i). le16_bytes t @ le16_bytes p @ le32_bytes i) \<circ> ace_word) as)" for bss
  proof (induction as arbitrary: bss)
    case (Cons a as)
    then show ?case
      by (auto simp: bind_res_Inr encode_ace_def ace_word_def SPECIAL_ID_def split: sum.splits if_splits)
  qed simp
  with assms show ?thesis
    by (auto simp: encode_aces_def acl_value_def VERSION_def split: sum.splits)
qed

lemma validated_words:
  assumes "validate_entries as label = Inr ()"
  shows "list_all word_canonical (map ace_word as)" "as \<noteq> []"
proof -
  have "\<forall>a \<in> set as. entry_ok a" and shape: "tag_shape (map tag as)"
    using assms by (simp_all add: validate_entries_Inr)
  then have "word_canonical (ace_word a)" if "a \<in> set as" for a
    using that by (cases "tag a") (auto simp: ace_word_def entry_ok_def is_special_def)
  then show "list_all word_canonical (map ace_word as)" by (simp add: list_all_iff)
  show "as \<noteq> []" using shape by (auto simp: tag_shape_def)
qed

lemma extended_words:
  "list_ex word_extended (map ace_word as) \<longleftrightarrow>
     list_ex (\<lambda>a. tag a = User \<or> tag a = PosixTag.Group \<or> tag a = Mask) as"
proof -
  have "word_extended (ace_word a) \<longleftrightarrow> tag a = User \<or> tag a = PosixTag.Group \<or> tag a = Mask" for a
    by (cases "tag a") (simp_all add: ace_word_def)
  then show ?thesis by (simp add: list_ex_iff)
qed

lemma mode_classes:
  assumes m: "mode AND 0x1FF = mode_bits u g r" and p: "u AND 7 = u" "g AND 7 = g" "r AND 7 = r"
  shows "ucast (drop_bit 6 mode AND 7) = u" "ucast (drop_bit 3 mode AND 7) = g" "ucast (mode AND 7) = r"
proof -
  have b: "bit mode n \<longleftrightarrow> 6 \<le> n \<and> bit u (n - 6) \<or> 3 \<le> n \<and> bit g (n - 3) \<or> bit r n" if "n < 9" for n
  proof -
    have "bit (mode AND 0x1FF) n \<longleftrightarrow> bit (mode_bits u g r) n" by (simp only: m)
    with that show ?thesis
      by (auto simp: mode_bits_def bit_or_iff bit_and_iff bit_push_bit_iff bit_unsigned_iff bit_mode_numerals
          simp del: bit_numeral_word_iff)
  qed
  have low: "\<not> bit u n" "\<not> bit g n" "\<not> bit r n" if "3 \<le> n" for n
    using p that unfolding rwx_bits by (meson not_less)+
  show "ucast (drop_bit 6 mode AND 7) = u" "ucast (drop_bit 3 mode AND 7) = g" "ucast (mode AND 7) = r"
    by (rule bit_eqI, case_tac "n < 3",
        auto simp: bit_unsigned_iff bit_and_iff bit_drop_bit_eq bit_mode_numerals b low simp del: bit_numeral_word_iff)+
qed

lemma write_default_view:
  assumes K: "keeps_posix_acls K view mode"
    and d: "\<And>b. d = Some b \<Longrightarrow> \<exists>ds label. validate_entries ds label = Inr () \<and> encode_aces ds = Inr b"
    and w: "write_default K d k = Some (Inr u, k')"
  shows "view k' = (view k)(POSIX_DEFAULT_XATTR := d)" "\<forall>b. d = Some b \<longrightarrow> length b \<le> XATTR_SIZE_MAX"
proof -
  have "view k' = (view k)(POSIX_DEFAULT_XATTR := d) \<and> (\<forall>b. d = Some b \<longrightarrow> length b \<le> XATTR_SIZE_MAX)"
  proof (cases d)
    case None
    have "removes_attr K view POSIX_DEFAULT_XATTR" using K unfolding keeps_posix_acls_def by blast
    from remove_default_view [OF this] w None show ?thesis by (simp add: write_default_def)
  next
    case (Some b)
    with d obtain ds label where ds: "validate_entries ds label = Inr ()" "encode_aces ds = Inr b" by blast
    note val = encode_aces_value [OF ds(2)] and words = validated_words [OF ds(1)]
    from w Some have set: "fsetxattr K POSIX_DEFAULT_XATTR b k = Some (Inr u, k')"
      by (simp add: write_default_def lift_errno_Inr)
    have "\<And>k e k'. sys_fsetxattr K POSIX_DEFAULT_XATTR b k = (Inl e, k') \<Longrightarrow> view k' = view k"
      using K unfolding keeps_posix_acls_def by blast
    moreover have "\<And>k w k'. sys_fsetxattr K POSIX_DEFAULT_XATTR b k = (Inr w, k') \<Longrightarrow>
        view k' = (view k)(POSIX_DEFAULT_XATTR \<mapsto> b)"
      using K words unfolding keeps_posix_acls_def val by blast
    ultimately show ?thesis
      using fsetxattr_post [OF set, of view "\<lambda>w k'. view k' = w(POSIX_DEFAULT_XATTR \<mapsto> b)"] Some by simp
  qed
  then show "view k' = (view k)(POSIX_DEFAULT_XATTR := d)" "\<forall>b. d = Some b \<longrightarrow> length b \<le> XATTR_SIZE_MAX"
    by blast+
qed

text \<open>
  The write of a validated access list: an extended list is stored, a list equivalent to a mode is
  what the new mode synthesises to.
\<close>

lemma write_access_extended:
  assumes K: "keeps_posix_acls K view mode"
    and as: "validate_entries as label = Inr ()" "encode_aces as = Inr b"
    and ext: "list_ex word_extended (map ace_word as)"
    and set: "fsetxattr K POSIX_ACCESS_XATTR b k = Some (Inr u, k')"
  shows "view k' = (view k)(POSIX_ACCESS_XATTR \<mapsto> b)" "length b \<le> XATTR_SIZE_MAX"
proof -
  note val = encode_aces_value [OF as(2)] and words = validated_words [OF as(1)]
  have "\<And>k e k'. sys_fsetxattr K POSIX_ACCESS_XATTR b k = (Inl e, k') \<Longrightarrow> view k' = view k"
    using K unfolding keeps_posix_acls_def by blast
  moreover have "\<And>k w k'. sys_fsetxattr K POSIX_ACCESS_XATTR b k = (Inr w, k') \<Longrightarrow>
      view k' = (view k)(POSIX_ACCESS_XATTR \<mapsto> b)"
    using K words(1) ext unfolding keeps_posix_acls_def val by blast
  ultimately show "view k' = (view k)(POSIX_ACCESS_XATTR \<mapsto> b)" "length b \<le> XATTR_SIZE_MAX"
    using fsetxattr_post [OF set, of view "\<lambda>w k'. view k' = w(POSIX_ACCESS_XATTR \<mapsto> b)"] by simp_all
qed

lemma write_access_mode:
  assumes K: "keeps_posix_acls K view mode"
    and as: "validate_entries as label = Inr ()" "encode_aces as = Inr b" "\<forall>a \<in> set as. Acl_Posix.ace_wf False a"
    and ext: "\<not> list_ex word_extended (map ace_word as)"
    and set: "fsetxattr K POSIX_ACCESS_XATTR b k = Some (Inr u, k')"
  shows "view k' = (view k)(POSIX_ACCESS_XATTR := None)" "access (synthesize_from_mode (mode k')) = as"
proof -
  from as(1) have ok: "\<forall>a \<in> set as. entry_ok a" and shape: "tag_shape (map tag as)"
    by (simp_all add: validate_entries_Inr)
  from shape obtain uo go ot where three: "as = [uo, go, ot]" "tag uo = UserObj" "tag go = GroupObj" "tag ot = Other"
    by (rule tag_shape_cases) (use ext [unfolded extended_words] in auto)
  then have words: "map ace_word as = mode_words (perms uo) (perms go) (perms ot)"
    by (simp add: ace_word_def mode_words_def is_special_def)
  note val = encode_aces_value [OF as(2)]
  have "\<And>k e k'. sys_fsetxattr K POSIX_ACCESS_XATTR b k = (Inl e, k') \<Longrightarrow> view k' = view k"
    using K unfolding keeps_posix_acls_def by blast
  moreover have "\<And>k w k'. sys_fsetxattr K POSIX_ACCESS_XATTR b k = (Inr w, k') \<Longrightarrow>
      view k' = (view k)(POSIX_ACCESS_XATTR := None) \<and> mode k' AND 0x1FF = mode_bits (perms uo) (perms go) (perms ot)"
    using K validated_words(1) [OF as(1)] unfolding keeps_posix_acls_def val words by blast
  ultimately have post: "view k' = (view k)(POSIX_ACCESS_XATTR := None)
      \<and> mode k' AND 0x1FF = mode_bits (perms uo) (perms go) (perms ot)"
    using fsetxattr_post(1) [OF set, of view "\<lambda>w k'. view k' = w(POSIX_ACCESS_XATTR := None)
      \<and> mode k' AND 0x1FF = mode_bits (perms uo) (perms go) (perms ot)"] by simp
  then show "view k' = (view k)(POSIX_ACCESS_XATTR := None)" by blast
  have "perms uo AND 7 = perms uo" "perms go AND 7 = perms go" "perms ot AND 7 = perms ot"
    using ok three(1) by (simp_all add: entry_ok_def)
  from mode_classes [OF conjunct2 [OF post] this] as(3) three
  show "access (synthesize_from_mode (mode k')) = as"
    by (cases uo; cases go; cases ot) (auto simp: synthesize_from_mode_def Acl_Posix.ace_wf_def is_special_def)
qed

lemma fgetxattr_unsupported:
  assumes "\<forall>cap k. sys_fgetxattr K name cap k = (Inl EOPNOTSUPP, k)" "0 \<notin> set name"
  shows "fgetxattr K name k = Some (Inl EOPNOTSUPP, k)"
  using assms
  by (simp add: fgetxattr_def with_name_def with_tn_path_eq fgetxattr_loop.simps andThen_def
      retry_no_eintr is_short_buffer_def ret_def)

lemma fsetacl_posix_steps:
  assumes "fsetacl K (Some (Posix a)) k = Some (Inr (), k')"
  obtains ab db is_dir k1 k2 u1 u2 where "Acl_Posix.validate a is_dir = Inr ()" "encode_aces (access a) = Inr ab"
    "default_bytes a = Inr db" "write_default K db k1 = Some (Inr u1, k2)"
    "fsetxattr K POSIX_ACCESS_XATTR ab k2 = Some (Inr u2, k')"
  using assms by (auto simp: fsetacl_def write_posix_def tryThen_Some andThen_Some access_bytes_def split: sum.splits)

text \<open>What the access half of \<open>fgetacl_posix\<close> finds after the write.\<close>

definition read_access :: "'k kernel \<Rightarrow> ('k, error + PosixAcl) sio" where
  "read_access K =
     andThen (fgetxattr K POSIX_ACCESS_XATTR) (\<lambda>r.
       case r of
         Inr b \<Rightarrow> ret (Acl_Posix.from_xattr b None)
       | Inl e \<Rightarrow>
           if e = EOPNOTSUPP then ret (Inl (Errno EOPNOTSUPP))
           else if e = ENODATA then
             tryThen (fstat_mode K) (\<lambda>mode. ret (Inr (synthesize_from_mode mode)))
           else ret (Inl (Errno e)))"

lemma fgetacl_posix_read:
  assumes "read_access K k = Some (Inr acl, k)"
  shows "fgetacl_posix K k =
    andThen (fgetxattr K POSIX_DEFAULT_XATTR) (\<lambda>r.
      case r of
        Inr b \<Rightarrow> ret (bind_res (set_default_from_xattr acl b) (\<lambda>a. Inr (Posix a)))
      | Inl e \<Rightarrow> if e = ENODATA then ret (Inr (Posix acl)) else ret (Inl (Errno e))) k"
  unfolding fgetacl_posix_def read_access_def [symmetric] tryThen_def [of "read_access K"]
  by (simp add: andThen_def [of "read_access K"] assms)

lemma read_access_back:
  assumes K: "keeps_posix_acls K view mode"
    and as: "validate_entries (access a) label = Inr ()" "encode_aces (access a) = Inr b"
      "\<forall>e \<in> set (access a). Acl_Posix.ace_wf False e"
    and set: "fsetxattr K POSIX_ACCESS_XATTR b k = Some (Inr u, k')"
  shows "read_access K k' = Some (Inr \<lparr>access = access a, default_acl = None, synthesized = equivalent_to_mode a\<rparr>, k')"
    "view k' POSIX_DEFAULT_XATTR = view k POSIX_DEFAULT_XATTR"
proof -
  have srv: "serves_attr K view POSIX_ACCESS_XATTR" and stat: "sys_fstat_mode K k' = (Inr (mode k'), k')"
    using K unfolding keeps_posix_acls_def by blast+
  note get = fgetxattr_view [OF srv names_no_nul(2)]
  have eq: "equivalent_to_mode a \<longleftrightarrow> \<not> list_ex word_extended (map ace_word (access a))"
    by (simp add: equivalent_to_mode_def extended_words)
  have "read_access K k' = Some (Inr \<lparr>access = access a, default_acl = None, synthesized = equivalent_to_mode a\<rparr>, k')
      \<and> view k' POSIX_DEFAULT_XATTR = view k POSIX_DEFAULT_XATTR"
  proof (cases "equivalent_to_mode a")
    case True
    with eq have "\<not> list_ex word_extended (map ace_word (access a))" by simp
    note w = write_access_mode [OF K as this set]
    obtain acc where "synthesize_from_mode (mode k') = \<lparr>access = acc, default_acl = None, synthesized = True\<rparr>"
      by (simp add: synthesize_from_mode_def)
    with w(2) have "synthesize_from_mode (mode k') = \<lparr>access = access a, default_acl = None, synthesized = True\<rparr>"
      by simp
    with w(1) get(2) stat True show ?thesis
      by (simp add: read_access_def andThen_def tryThen_def ret_def fstat_mode_def lift_errno_def)
  next
    case False
    with eq have "list_ex word_extended (map ace_word (access a))" by simp
    note w = write_access_extended [OF K as(1,2) this set]
    from get(1) [of k' b] w have "fgetxattr K POSIX_ACCESS_XATTR k' = Some (Inr b, k')" by simp
    with parse_aces_encode [OF as(2,3)] False w(1) show ?thesis
      by (simp add: read_access_def andThen_def ret_def Acl_Posix.from_xattr_def)
  qed
  then show "read_access K k' = Some (Inr \<lparr>access = access a, default_acl = None, synthesized = equivalent_to_mode a\<rparr>, k')"
    "view k' POSIX_DEFAULT_XATTR = view k POSIX_DEFAULT_XATTR" by blast+
qed

lemma default_bytes_written:
  assumes "default_bytes a = Inr db" "Acl_Posix.validate a is_dir = Inr ()"
    "\<forall>ds. default_acl a = Some ds \<longrightarrow> (\<forall>e \<in> set ds. Acl_Posix.ace_wf True e)"
  shows "db = None \<and> default_acl a = None \<or>
    (\<exists>b ds. db = Some b \<and> default_acl a = Some ds \<and> validate_entries ds ''default'' = Inr ()
       \<and> encode_aces ds = Inr b \<and> parse_aces b True = Inr ds)"
  using assms parse_aces_encode
  by (auto simp: default_bytes_def bind_res_Inr posix_validate_Inr split: option.splits)

section \<open>A kernel that stores attributes in memory\<close>

text \<open>
  A concrete kernel for the witnesses: the state is the attribute map of a directory, names in
  \<open>off\<close> are not supported, and values longer than \<open>limit name\<close> do not fit.
\<close>

definition mem_kernel :: "bytes list \<Rightarrow> (bytes \<Rightarrow> nat) \<Rightarrow> (bytes \<Rightarrow> bytes option) kernel" where
  "mem_kernel off limit = \<lparr>
     sys_fgetxattr = (\<lambda>name cap m.
       (if name \<in> set off then Inl EOPNOTSUPP
        else case m name of
          None \<Rightarrow> Inl ENODATA
        | Some v \<Rightarrow>
            if cap = 0 then Inr (length v, [])
            else if length v \<le> cap then Inr (length v, v @ replicate (cap - length v) 0)
            else Inl (if cap \<ge> 65536 then E2BIG else ERANGE), m)),
     sys_fsetxattr = (\<lambda>name v m.
       if name \<in> set off then (Inl EOPNOTSUPP, m)
       else if length v > limit name then (Inl (OtherErrno 28), m)
       else (Inr (), m(name \<mapsto> v))),
     sys_fremovexattr = (\<lambda>name m.
       if name \<in> set off then (Inl EOPNOTSUPP, m)
       else if m name = None then (Inl ENODATA, m)
       else (Inr (), m(name := None))),
     sys_flistxattr = (\<lambda>cap m. (Inr (0, []), m)),
     sys_fstat_mode = (\<lambda>m. (Inr 0x41ED, m))\<rparr>"

lemma mem_kernel_holds: "name \<notin> set off \<Longrightarrow> holds_attr (mem_kernel off limit) (\<lambda>m. m) name"
  by (auto simp: holds_attr_def serves_attr_def removes_attr_def mem_kernel_def serves_def split: if_splits)

lemma mem_kernel_separate:
  "access_separate (mem_kernel off limit) (\<lambda>m. m POSIX_ACCESS_XATTR)"
  by (auto simp: access_separate_def mem_kernel_def split: if_splits)

lemma mem_calls:
  assumes "0 \<notin> set n" "n \<notin> set off"
  shows "m n = None \<Longrightarrow> fgetxattr (mem_kernel off limit) n m = Some (Inl ENODATA, m)"
    "fsetxattr (mem_kernel off limit) n v m = Some
       (if length v > XATTR_SIZE_MAX then (Inl E2BIG, m)
        else if length v > limit n then (Inl (OtherErrno 28), m) else (Inr (), m(n \<mapsto> v)))"
    "fremovexattr (mem_kernel off limit) n m = Some
       (if m n = None then (Inl ENODATA, m) else (Inr (), m(n := None)))"
  using assms
  by (auto simp: mem_kernel_def fgetxattr_def fsetxattr_def fremovexattr_def with_name_def with_tn_path_eq
      fgetxattr_loop.simps andThen_def retry_no_eintr is_short_buffer_def ret_def)

lemma mem_is_dir: "target_is_dir (mem_kernel off limit) Fd m = Some (Inr True, m)"
  by (simp add: target_is_dir_def fstat_mode_def lift_errno_def tryThen_def andThen_def ret_def mem_kernel_def)

lemma names_nfs4 [simp]:
  "POSIX_ACCESS_XATTR \<noteq> NFS4_ACL_XATTR" "POSIX_DEFAULT_XATTR \<noteq> NFS4_ACL_XATTR"
  by code_simp+

lemma sample_posix_bytes:
  obtains ab db where "access_bytes Acl_Posix.sample_acl = Inr ab" "length ab = 44"
    "default_bytes Acl_Posix.sample_acl = Inr (Some db)" "length db = 44"
proof -
  have v: "validate_entries (sample_entries False) ''access'' = Inr ()"
    "validate_entries (sample_entries True) ''default'' = Inr ()"
    by code_simp+
  from validated_encodes [OF v(1) sample_entries_wf] obtain ab where
    "encode_aces (sample_entries False) = Inr ab" "length ab = 4 + 8 * length (sample_entries False)"
    by blast
  moreover from validated_encodes [OF v(2) sample_entries_wf] obtain db where
    "encode_aces (sample_entries True) = Inr db" "length db = 4 + 8 * length (sample_entries True)"
    by blast
  ultimately show thesis
    by (intro that [of ab db]) (simp_all add: access_bytes_def default_bytes_def Acl_Posix.sample_acl_def
        sample_entries_def)
qed

lemmas mem_eval =
  fsetacl_def write_posix_def write_default_def ignore_enodata_def lift_errno_def tryThen_def andThen_def
  ret_def mem_is_dir mem_calls XATTR_SIZE_MAX_def

section \<open>A kernel that keeps POSIX ACLs\<close>

text \<open>
  A concrete kernel for the read-back: the state is the attribute map and the mode of a directory. It
  has no NFS4 ACLs, and an access ACL of three entries equivalent to a mode goes into the mode.
\<close>

definition mode_equivalent :: "bytes \<Rightarrow> bool" where
  "mode_equivalent v \<longleftrightarrow> length v = 28 \<and> le16 v 4 = 0x01 \<and> le16 v 12 = 0x04 \<and> le16 v 20 = 0x20"

definition acl_kernel :: "((bytes \<Rightarrow> bytes option) \<times> u32) kernel" where
  "acl_kernel = \<lparr>
     sys_fgetxattr = (\<lambda>name cap (m, mode). (fst (sys_fgetxattr (mem_kernel [NFS4_ACL_XATTR] (\<lambda>_. 1000)) name cap m), (m, mode))),
     sys_fsetxattr = (\<lambda>name v (m, mode).
       if name = NFS4_ACL_XATTR then (Inl EOPNOTSUPP, (m, mode))
       else if name = POSIX_ACCESS_XATTR \<and> mode_equivalent v then
         (Inr (), (m(name := None), (mode AND NOT 0x1FF) OR mode_bits (le16 v 6) (le16 v 14) (le16 v 22)))
       else (Inr (), (m(name \<mapsto> v), mode))),
     sys_fremovexattr = (\<lambda>name (m, mode).
       if name = NFS4_ACL_XATTR then (Inl EOPNOTSUPP, (m, mode))
       else if m name = None then (Inl ENODATA, (m, mode))
       else (Inr (), (m(name := None), mode))),
     sys_flistxattr = (\<lambda>cap s. (Inr (0, []), s)),
     sys_fstat_mode = (\<lambda>(m, mode). (Inr mode, (m, mode)))\<rparr>"

lemma length_acl_value: "length (acl_value es) = 4 + 8 * length es"
proof -
  have "length (concat (map (\<lambda>(t, p, i). le16_bytes t @ le16_bytes p @ le32_bytes i) es)) = 8 * length es"
    by (induction es) (auto split: prod.splits)
  then show ?thesis by (simp add: acl_value_def)
qed

lemma acl_value_words:
  assumes "v = acl_value [(t, p, i), (t', p', i'), (t'', p'', i'')]"
  shows "le16 v 4 = t" "le16 v 6 = p" "le16 v 12 = t'" "le16 v 14 = p'" "le16 v 20 = t''" "le16 v 22 = p''"
proof -
  let ?e = "\<lambda>t p i. le16_bytes t @ le16_bytes p @ le32_bytes i"
  have v: "v = le32_bytes 2 @ ?e t p i @ (?e t' p' i' @ ?e t'' p'' i'')"
    "v = (le32_bytes 2 @ ?e t p i) @ ?e t' p' i' @ ?e t'' p'' i''"
    "v = (le32_bytes 2 @ ?e t p i @ ?e t' p' i') @ ?e t'' p'' i'' @ []"
    using assms by (simp_all add: acl_value_def)
  show "le16 v 4 = t" "le16 v 6 = p" using posix_ace_words(1,2) [OF _ v(1), of 4] by simp_all
  show "le16 v 12 = t'" "le16 v 14 = p'" using posix_ace_words(1,2) [OF _ v(2), of 12] by simp_all
  show "le16 v 20 = t''" "le16 v 22 = p''" using posix_ace_words(1,2) [OF _ v(3), of 20] by simp_all
qed

lemma mode_equivalent_words:
  "mode_equivalent (acl_value (mode_words u g r))"
  "list_ex word_extended es \<Longrightarrow> \<not> mode_equivalent (acl_value es)"
proof -
  show "mode_equivalent (acl_value (mode_words u g r))"
    by (simp add: mode_equivalent_def length_acl_value mode_words_def acl_value_words [OF refl])
  assume ext: "list_ex word_extended es"
  show "\<not> mode_equivalent (acl_value es)"
  proof
    assume eq: "mode_equivalent (acl_value es)"
    then have "length es = 3" by (simp add: mode_equivalent_def length_acl_value)
    then obtain t p i t' p' i' t'' p'' i'' where es: "es = [(t, p, i), (t', p', i'), (t'', p'', i'')]"
      by (auto simp: numeral_3_eq_3 length_Suc_conv)
    from eq ext show False
      by (auto simp: mode_equivalent_def es acl_value_words [OF refl])
  qed
qed

lemma mode_bits_and:
  assumes "u AND 7 = u" "g AND 7 = g" "r AND 7 = r"
  shows "((mode AND NOT 0x1FF) OR mode_bits u g r) AND 0x1FF = mode_bits u g r"
proof (rule bit_eqI)
  fix n
  have "bit (mode_bits u g r) n \<Longrightarrow> n < 9"
    using assms unfolding rwx_bits mode_bits_def
    by (fastforce simp: bit_or_iff bit_push_bit_iff bit_unsigned_iff)
  then show "bit (((mode AND NOT 0x1FF) OR mode_bits u g r) AND 0x1FF) n \<longleftrightarrow> bit (mode_bits u g r) n"
    unfolding bit_and_iff bit_or_iff bit_not_iff bit_mode_numerals by auto
qed

lemma acl_kernel_attr:
  "name \<noteq> NFS4_ACL_XATTR \<Longrightarrow> serves_attr acl_kernel fst name"
  "name \<noteq> NFS4_ACL_XATTR \<Longrightarrow> removes_attr acl_kernel fst name"
  by (auto simp: serves_attr_def removes_attr_def acl_kernel_def mem_kernel_def serves_def split: if_splits)

lemma acl_kernel_set:
  "sys_fsetxattr acl_kernel POSIX_DEFAULT_XATTR v (m, mode) = (Inr (), (m(POSIX_DEFAULT_XATTR \<mapsto> v), mode))"
  "sys_fsetxattr acl_kernel POSIX_ACCESS_XATTR v (m, mode) =
     (Inr (), if mode_equivalent v
        then (m(POSIX_ACCESS_XATTR := None), (mode AND NOT 0x1FF) OR mode_bits (le16 v 6) (le16 v 14) (le16 v 22))
        else (m(POSIX_ACCESS_XATTR \<mapsto> v), mode))"
  by (simp_all add: acl_kernel_def)

lemma acl_kernel_keeps: "keeps_posix_acls acl_kernel fst snd"
  unfolding keeps_posix_acls_def
proof (intro conjI allI impI acl_kernel_attr names_nfs4; (elim conjE)?)
  fix k
  show "sys_fstat_mode acl_kernel k = (Inr (snd k), k)" by (cases k) (simp add: acl_kernel_def)
next
  fix name v k e k'
  assume "name \<in> {POSIX_ACCESS_XATTR, POSIX_DEFAULT_XATTR}" "sys_fsetxattr acl_kernel name v k = (Inl e, k')"
  then show "fst k' = fst k" by (cases k) (auto simp: acl_kernel_set)
next
  fix es k w k'
  assume "sys_fsetxattr acl_kernel POSIX_DEFAULT_XATTR (acl_value es) k = (Inr w, k')"
  then show "fst k' = (fst k)(POSIX_DEFAULT_XATTR \<mapsto> acl_value es)" by (cases k) (auto simp: acl_kernel_set)
next
  fix es k w k'
  assume "list_ex word_extended es" "sys_fsetxattr acl_kernel POSIX_ACCESS_XATTR (acl_value es) k = (Inr w, k')"
  then show "fst k' = (fst k)(POSIX_ACCESS_XATTR \<mapsto> acl_value es)"
    using mode_equivalent_words(2) [of es] by (cases k) (auto simp: acl_kernel_set)
next
  fix u g r k w k'
  assume c: "list_all word_canonical (mode_words u g r)"
    and set: "sys_fsetxattr acl_kernel POSIX_ACCESS_XATTR (acl_value (mode_words u g r)) k = (Inr w, k')"
  show "fst k' = (fst k)(POSIX_ACCESS_XATTR := None)"
    using set mode_equivalent_words(1) [of u g r] by (cases k) (auto simp: acl_kernel_set)
  show "snd k' AND 0x1FF = mode_bits u g r"
    using c set mode_equivalent_words(1) [of u g r] mode_bits_and [of u g r "snd k"]
    by (cases k) (auto simp: acl_kernel_set acl_value_words [OF refl] mode_words_def)
qed

definition plain_acl :: PosixAcl where
  "plain_acl = \<lparr>access = [\<lparr>tag = UserObj, perms = 6, aid = -1, default_ace = False\<rparr>,
       \<lparr>tag = GroupObj, perms = 4, aid = -1, default_ace = False\<rparr>,
       \<lparr>tag = Other, perms = 0, aid = -1, default_ace = False\<rparr>],
     default_acl = Some (sample_entries True), synthesized = False\<rparr>"

lemma plain_acl_valid: "Acl_Posix.validate plain_acl True = Inr ()"
  by code_simp

lemma plain_acl_wf: "\<forall>a \<in> set (access plain_acl). Acl_Posix.ace_wf False a"
  by (simp add: plain_acl_def Acl_Posix.ace_wf_def is_special_def)

lemma plain_posix_bytes:
  obtains ab db where "access_bytes plain_acl = Inr ab" "length ab = 28"
    "default_bytes plain_acl = Inr (Some db)" "length db = 44"
proof -
  have v: "validate_entries (access plain_acl) ''access'' = Inr ()" "validate_entries (sample_entries True) ''default'' = Inr ()"
    by code_simp+
  from validated_encodes [OF v(1) plain_acl_wf] obtain ab where
    "encode_aces (access plain_acl) = Inr ab" "length ab = 4 + 8 * length (access plain_acl)" by blast
  moreover from validated_encodes [OF v(2) sample_entries_wf] obtain db where
    "encode_aces (sample_entries True) = Inr db" "length db = 4 + 8 * length (sample_entries True)" by blast
  ultimately show thesis
    by (intro that [of ab db]) (simp_all add: access_bytes_def default_bytes_def plain_acl_def sample_entries_def)
qed

lemma acl_kernel_writes:
  assumes "Acl_Posix.validate a True = Inr ()" "access_bytes a = Inr ab" "default_bytes a = Inr (Some db)"
    "length ab \<le> 1000" "length db \<le> 1000"
  shows "\<exists>k'. fsetacl acl_kernel (Some (Posix a)) (\<lambda>_. None, 0x41ED) = Some (Inr (), k')"
proof -
  let ?k = "(\<lambda>_. None, 0x41ED) :: (bytes \<Rightarrow> bytes option) \<times> u32"
  have dir: "target_is_dir acl_kernel Fd ?k = Some (Inr True, ?k)"
    by (simp add: target_is_dir_def fstat_mode_def lift_errno_def tryThen_def andThen_def ret_def acl_kernel_def)
  have get: "fgetxattr acl_kernel POSIX_DEFAULT_XATTR ?k = Some (Inl ENODATA, ?k)"
    by (rule fgetxattr_view(2) [OF acl_kernel_attr(1) names_no_nul(3)]) simp_all
  have set: "fsetxattr acl_kernel POSIX_DEFAULT_XATTR v (m, mode) = Some (sys_fsetxattr acl_kernel POSIX_DEFAULT_XATTR v (m, mode))"
    "fsetxattr acl_kernel POSIX_ACCESS_XATTR v (m, mode) = Some (sys_fsetxattr acl_kernel POSIX_ACCESS_XATTR v (m, mode))"
    if "length v \<le> 1000" for v m mode
    using that by (auto simp: fsetxattr_def with_name_def with_tn_path_eq retry_no_eintr acl_kernel_set XATTR_SIZE_MAX_def)
  show ?thesis
    using assms by (simp add: fsetacl_def write_posix_def write_default_def lift_errno_def tryThen_def andThen_def
        ret_def dir get set acl_kernel_set)
qed

section \<open>Properties\<close>

text \<open>
  C1. A failed POSIX write leaves the access ACL as it was: whatever step fails (the validation, the
  read of the prior default, the write of the default, the write of the access list, or the
  restore of the default), if \<open>fsetacl\<close> returns an error then the stored access ACL is
  unchanged, for every kernel in which calls on the default ACL and failed access writes do not
  change it.
\<close>

theorem fsetacl_error_keeps_access:
  assumes "access_separate K obs" and "fsetacl K (Some (Posix a)) k = Some (Inl e, k')"
  shows "obs k' = obs k"
proof -
  have "keeps obs (target_is_dir K Fd)"
    using assms(1) by (intro target_is_dir_keeps) (simp add: access_separate_def)
  then have "clean obs (fsetacl K (Some (Posix a)))"
    unfolding fsetacl_def option.simps Acl.simps
    by (intro clean_tryThen keeps_ret write_posix_clean [OF assms(1)])
  with assms(2) show ?thesis unfolding clean_def by blast
qed

theorem fsetacl_error_keeps_access_witness:
  "\<exists>k'. fsetacl (mem_kernel [NFS4_ACL_XATTR] (\<lambda>n. if n = POSIX_ACCESS_XATTR then 10 else 1000))
          (Some (Posix Acl_Posix.sample_acl)) (\<lambda>_. None) = Some (Inl (Errno (OtherErrno 28)), k')
     \<and> k' POSIX_ACCESS_XATTR = None"
proof -
  let ?K = "mem_kernel [NFS4_ACL_XATTR] (\<lambda>n. if n = POSIX_ACCESS_XATTR then 10 else 1000)"
  obtain k' where k': "fsetacl ?K (Some (Posix Acl_Posix.sample_acl)) (\<lambda>_. None)
      = Some (Inl (Errno (OtherErrno 28)), k')"
    using sample_posix_bytes by (rule that) (simp add: mem_eval sample_acl_valid)
  with fsetacl_error_keeps_access [OF mem_kernel_separate k'] show ?thesis by auto
qed

text \<open>
  An ACL that was set is read back: on a filesystem that stores attribute values verbatim,
  after \<open>fsetacl\<close> of an NFS4 ACL has succeeded, \<open>fgetacl\<close> returns that ACL.
\<close>

theorem fsetacl_fgetacl_nfs4:
  assumes "holds_attr K view NFS4_ACL_XATTR"
    and "fsetacl K (Some (Nfs4 a)) k = Some (Inr (), k')"
    and "\<forall>e \<in> set (aces a). Acl_Nfs4.ace_wf e"
  shows "fgetacl K k' = Some (Inr (Nfs4 a), k')"
proof -
  from assms(2) obtain is_dir b k1 where v: "Acl_Nfs4.validate a is_dir = Inr ()" and b: "to_xattr a = Inr b"
    and set: "fsetxattr K NFS4_ACL_XATTR b k1 = Some (Inr (), k')"
    by (auto simp: fsetacl_def tryThen_Some lift_errno_Inr)
  have srv: "serves_attr K view NFS4_ACL_XATTR" using assms(1) by (simp add: holds_attr_def)
  note w = fsetxattr_view [OF assms(1) names_no_nul(1) set]
  from v have ids: "\<forall>e \<in> set (aces a). who_type e = Named \<longrightarrow> 0 \<le> who_id e \<and> who_id e < 2 ^ 32"
    unfolding nfs4_validate_Inr using ace_storable_named by blast
  obtain b' where "to_xattr a = Inr b'" "length b' = 8 + 20 * length (aces a)"
    using ids by (rule to_xattr_total)
  with b w(2) have "length (aces a) < 2 ^ 32" by (simp add: XATTR_SIZE_MAX_def)
  with b assms(3) have "Acl_Nfs4.from_xattr b = Inr a" by (intro nfs4_decode_to_xattr)
  moreover have "fgetxattr K NFS4_ACL_XATTR k' = Some (Inr b, k')"
    using fgetxattr_view(1) [OF srv names_no_nul(1), of k' b] w by simp
  ultimately show ?thesis
    by (simp add: fgetacl_def andThen_def ret_def)
qed

theorem fsetacl_fgetacl_nfs4_witness:
  "\<exists>k'. fsetacl (mem_kernel [] (\<lambda>_. 1000)) (Some (Nfs4 Acl_Nfs4.sample_acl)) (\<lambda>_. None) = Some (Inr (), k')
     \<and> fgetacl (mem_kernel [] (\<lambda>_. 1000)) k' = Some (Inr (Nfs4 Acl_Nfs4.sample_acl), k')"
proof -
  let ?K = "mem_kernel [] (\<lambda>_. 1000)"
  have v: "Acl_Nfs4.validate Acl_Nfs4.sample_acl True = Inr ()" by code_simp
  obtain b where "to_xattr Acl_Nfs4.sample_acl = Inr b" "length b = 8 + 20 * length (aces Acl_Nfs4.sample_acl)"
    by (rule to_xattr_total [of Acl_Nfs4.sample_acl]) (auto simp: Acl_Nfs4.sample_acl_simps)
  with v obtain k' where k': "fsetacl ?K (Some (Nfs4 Acl_Nfs4.sample_acl)) (\<lambda>_. None) = Some (Inr (), k')"
    by (simp add: mem_eval Acl_Nfs4.sample_acl_def)
  have "\<forall>e \<in> set (aces Acl_Nfs4.sample_acl). Acl_Nfs4.ace_wf e"
    by (simp add: Acl_Nfs4.sample_acl_simps)
  with fsetacl_fgetacl_nfs4 [OF mem_kernel_holds k'] k' show ?thesis by auto
qed

text \<open>
  C8. The same for a POSIX ACL, whose two lists travel in two attributes: on a filesystem without NFS4
  ACLs whose kernel keeps POSIX ACLs as Linux does, \<open>fgetacl\<close> after a successful \<open>fsetacl\<close> of an ACL
  whose entries are marked for the list they are in and carry the id -1 when they name nobody returns
  the same access list and the same default list (or none when there was none). A list equivalent to a
  mode, which the kernel keeps in the permission bits only, is synthesised from them again; exactly
  then the ACL read is marked as synthesised.
\<close>

theorem fsetacl_fgetacl_posix:
  assumes K: "keeps_posix_acls K view mode"
    and nfs4: "\<forall>cap k. sys_fgetxattr K NFS4_ACL_XATTR cap k = (Inl EOPNOTSUPP, k)"
    and set: "fsetacl K (Some (Posix a)) k = Some (Inr (), k')"
    and wf: "\<forall>e \<in> set (access a). Acl_Posix.ace_wf False e"
      "\<forall>ds. default_acl a = Some ds \<longrightarrow> (\<forall>e \<in> set ds. Acl_Posix.ace_wf True e)"
  shows "fgetacl K k' = Some (Inr (Posix (a\<lparr>synthesized := equivalent_to_mode a\<rparr>)), k')"
proof -
  obtain ab db is_dir k1 k2 u1 u2 where v: "Acl_Posix.validate a is_dir = Inr ()"
    and ab: "encode_aces (access a) = Inr ab" and db: "default_bytes a = Inr db"
    and wd: "write_default K db k1 = Some (Inr u1, k2)"
    and wa: "fsetxattr K POSIX_ACCESS_XATTR ab k2 = Some (Inr u2, k')"
    by (rule fsetacl_posix_steps [OF set])
  note dflt = default_bytes_written [OF db v wf(2)]
  have va: "validate_entries (access a) ''access'' = Inr ()" using v by (simp add: posix_validate_Inr)
  have "view k2 = (view k1)(POSIX_DEFAULT_XATTR := db)" and len: "\<forall>b. db = Some b \<longrightarrow> length b \<le> XATTR_SIZE_MAX"
    by (rule write_default_view [OF K _ wd], use dflt in blast)+
  with read_access_back [OF K va ab wf(1) wa] have acc: "read_access K k' =
      Some (Inr \<lparr>access = access a, default_acl = None, synthesized = equivalent_to_mode a\<rparr>, k')"
    and vd: "view k' POSIX_DEFAULT_XATTR = db" by simp_all
  have srv: "serves_attr K view POSIX_DEFAULT_XATTR" using K unfolding keeps_posix_acls_def by blast
  have "fgetxattr K POSIX_DEFAULT_XATTR k' = Some (case db of Some b \<Rightarrow> Inr b | None \<Rightarrow> Inl ENODATA, k')"
    using fgetxattr_view [OF srv names_no_nul(3), of k'] vd len by (cases db) simp_all
  moreover have "fgetacl K k' = fgetacl_posix K k'"
    using fgetxattr_unsupported [OF nfs4] by (simp add: fgetacl_def andThen_def)
  ultimately show ?thesis
    using dflt unfolding fgetacl_posix_read [OF acc]
    by (cases a) (auto simp: andThen_def ret_def set_default_from_xattr_def)
qed

theorem fsetacl_fgetacl_posix_witness:
  "(\<exists>k'. fsetacl acl_kernel (Some (Posix Acl_Posix.sample_acl)) (\<lambda>_. None, 0x41ED) = Some (Inr (), k')
     \<and> fgetacl acl_kernel k' = Some (Inr (Posix Acl_Posix.sample_acl), k')) \<and>
   (\<exists>k'. fsetacl acl_kernel (Some (Posix plain_acl)) (\<lambda>_. None, 0x41ED) = Some (Inr (), k')
     \<and> fgetacl acl_kernel k' = Some (Inr (Posix (plain_acl\<lparr>synthesized := True\<rparr>)), k'))"
proof -
  have nfs4: "\<forall>cap k. sys_fgetxattr acl_kernel NFS4_ACL_XATTR cap k = (Inl EOPNOTSUPP, k)"
    by (simp add: acl_kernel_def mem_kernel_def)
  note readback = fsetacl_fgetacl_posix [OF acl_kernel_keeps nfs4]
  obtain ab db where b: "access_bytes Acl_Posix.sample_acl = Inr ab" "length ab = 44"
    "default_bytes Acl_Posix.sample_acl = Inr (Some db)" "length db = 44"
    by (rule sample_posix_bytes)
  have "length ab \<le> 1000" "length db \<le> 1000" by (simp_all only: b(2,4))
  from acl_kernel_writes [OF sample_acl_valid b(1,3) this] obtain k1
    where k1: "fsetacl acl_kernel (Some (Posix Acl_Posix.sample_acl)) (\<lambda>_. None, 0x41ED) = Some (Inr (), k1)" ..
  obtain ab' db' where b': "access_bytes plain_acl = Inr ab'" "length ab' = 28"
    "default_bytes plain_acl = Inr (Some db')" "length db' = 44"
    by (rule plain_posix_bytes)
  have "length ab' \<le> 1000" "length db' \<le> 1000" by (simp_all only: b'(2,4))
  from acl_kernel_writes [OF plain_acl_valid b'(1,3) this] obtain k2
    where k2: "fsetacl acl_kernel (Some (Posix plain_acl)) (\<lambda>_. None, 0x41ED) = Some (Inr (), k2)" ..
  have eq: "equivalent_to_mode Acl_Posix.sample_acl = False" "equivalent_to_mode plain_acl = True"
    by (simp_all add: equivalent_to_mode_def Acl_Posix.sample_acl_def plain_acl_def sample_entries_def)
  have wf: "\<forall>e \<in> set (access Acl_Posix.sample_acl). Acl_Posix.ace_wf False e"
    "\<forall>ds. default_acl Acl_Posix.sample_acl = Some ds \<longrightarrow> (\<forall>e \<in> set ds. Acl_Posix.ace_wf True e)"
    "\<forall>ds. default_acl plain_acl = Some ds \<longrightarrow> (\<forall>e \<in> set ds. Acl_Posix.ace_wf True e)"
    using sample_entries_wf by (simp_all add: Acl_Posix.sample_acl_def plain_acl_def)
  have same: "Acl_Posix.sample_acl\<lparr>synthesized := False\<rparr> = Acl_Posix.sample_acl"
    by (simp add: Acl_Posix.sample_acl_def)
  show ?thesis
    using k1 readback [OF k1 wf(1,2), unfolded eq same] k2 readback [OF k2 plain_acl_wf wf(3), unfolded eq] by blast
qed

end
