(* ===== verification/Rust_Str.thy ===== *)
theory Rust_Str
  imports Prelude
begin

text \<open>
  The byte and string predicates of Rust's core library the protocol code uses: the ASCII classes
  of \<^verbatim>\<open>u8\<close>, \<^verbatim>\<open>eq_ignore_ascii_case\<close>, \<^verbatim>\<open>trim_ascii\<close> and \<^verbatim>\<open>str::from_utf8\<close>. A \<^verbatim>\<open>&str\<close> is the list of
  its bytes, so \<^verbatim>\<open>from_utf8\<close> is the identity where the bytes are well formed.
\<close>

definition is_ascii_digit :: "byte \<Rightarrow> bool" where
  "is_ascii_digit b \<longleftrightarrow> 0x30 \<le> b \<and> b \<le> 0x39"

definition is_ascii_uppercase :: "byte \<Rightarrow> bool" where
  "is_ascii_uppercase b \<longleftrightarrow> 0x41 \<le> b \<and> b \<le> 0x5A"

definition is_ascii_lowercase :: "byte \<Rightarrow> bool" where
  "is_ascii_lowercase b \<longleftrightarrow> 0x61 \<le> b \<and> b \<le> 0x7A"

definition is_ascii_alphabetic :: "byte \<Rightarrow> bool" where
  "is_ascii_alphabetic b \<longleftrightarrow> is_ascii_uppercase b \<or> is_ascii_lowercase b"

definition is_ascii_alphanumeric :: "byte \<Rightarrow> bool" where
  "is_ascii_alphanumeric b \<longleftrightarrow> is_ascii_alphabetic b \<or> is_ascii_digit b"

definition is_ascii_hexdigit :: "byte \<Rightarrow> bool" where
  "is_ascii_hexdigit b \<longleftrightarrow> is_ascii_digit b \<or> 0x41 \<le> b \<and> b \<le> 0x46 \<or> 0x61 \<le> b \<and> b \<le> 0x66"

definition is_ascii_whitespace :: "byte \<Rightarrow> bool" where
  "is_ascii_whitespace b \<longleftrightarrow> b = SP \<or> b = HT \<or> b = LF \<or> b = 0x0C \<or> b = CR"

definition to_ascii_lowercase :: "byte \<Rightarrow> byte" where
  "to_ascii_lowercase b = (if is_ascii_uppercase b then b + 0x20 else b)"

definition eq_ignore_ascii_case :: "bytes \<Rightarrow> bytes \<Rightarrow> bool" where
  "eq_ignore_ascii_case xs ys \<longleftrightarrow> map to_ascii_lowercase xs = map to_ascii_lowercase ys"

definition trim_ascii_start :: "bytes \<Rightarrow> bytes" where
  "trim_ascii_start = dropWhile is_ascii_whitespace"

definition trim_ascii_end :: "bytes \<Rightarrow> bytes" where
  "trim_ascii_end xs = rev (dropWhile is_ascii_whitespace (rev xs))"

definition trim_ascii :: "bytes \<Rightarrow> bytes" where
  "trim_ascii xs = trim_ascii_end (trim_ascii_start xs)"

definition utf8_cont :: "byte \<Rightarrow> bool" where
  "utf8_cont b \<longleftrightarrow> 0x80 \<le> b \<and> b \<le> 0xBF"

text \<open>
  Well-formed UTF-8: the byte sequences of Unicode's table 3-7, without overlong forms and
  surrogates.
\<close>

fun utf8_valid :: "bytes \<Rightarrow> bool" where
  "utf8_valid [] \<longleftrightarrow> True"
| "utf8_valid (b # r) \<longleftrightarrow>
     (if b < 0x80 then utf8_valid r
      else if 0xC2 \<le> b \<and> b \<le> 0xDF then
        (case r of c # r \<Rightarrow> utf8_cont c \<and> utf8_valid r | _ \<Rightarrow> False)
      else if 0xE0 \<le> b \<and> b \<le> 0xEF then
        (case r of c # d # r \<Rightarrow>
           (if b = 0xE0 then 0xA0 \<le> c \<and> c \<le> 0xBF
            else if b = 0xED then 0x80 \<le> c \<and> c \<le> 0x9F else utf8_cont c)
           \<and> utf8_cont d \<and> utf8_valid r
         | _ \<Rightarrow> False)
      else if 0xF0 \<le> b \<and> b \<le> 0xF4 then
        (case r of c # d # e # r \<Rightarrow>
           (if b = 0xF0 then 0x90 \<le> c \<and> c \<le> 0xBF
            else if b = 0xF4 then 0x80 \<le> c \<and> c \<le> 0x8F else utf8_cont c)
           \<and> utf8_cont d \<and> utf8_cont e \<and> utf8_valid r
         | _ \<Rightarrow> False)
      else False)"

definition from_utf8 :: "bytes \<Rightarrow> bytes option" where
  "from_utf8 xs = (if utf8_valid xs then Some xs else None)"

named_theorems ascii_defs \<open>the ASCII classes, unfolded\<close>

lemmas ascii_class_defs [ascii_defs] =
  is_ascii_digit_def is_ascii_uppercase_def is_ascii_lowercase_def is_ascii_alphabetic_def
  is_ascii_alphanumeric_def is_ascii_hexdigit_def is_ascii_whitespace_def

lemma utf8_valid_ascii: "\<forall>b \<in> set xs. b < 0x80 \<Longrightarrow> utf8_valid xs"
  by (induction xs) auto

lemma from_utf8_Some: "from_utf8 xs = Some s \<longleftrightarrow> s = xs \<and> utf8_valid xs"
  by (auto simp: from_utf8_def)

lemma eq_ignore_ascii_case_refl [simp]: "eq_ignore_ascii_case xs xs"
  by (simp add: eq_ignore_ascii_case_def)

lemma eq_ignore_ascii_case_sym: "eq_ignore_ascii_case xs ys \<longleftrightarrow> eq_ignore_ascii_case ys xs"
  by (auto simp: eq_ignore_ascii_case_def)

lemma eq_ignore_ascii_case_trans:
  "eq_ignore_ascii_case xs ys \<Longrightarrow> eq_ignore_ascii_case xs zs \<longleftrightarrow> eq_ignore_ascii_case ys zs"
  by (simp add: eq_ignore_ascii_case_def)

lemma trim_ascii_split:
  "\<exists>pre post. xs = pre @ trim_ascii xs @ post
     \<and> (\<forall>b \<in> set pre \<union> set post. is_ascii_whitespace b)"
proof -
  let ?m = "trim_ascii_start xs"
  have "xs = takeWhile is_ascii_whitespace xs @ ?m"
    by (simp add: trim_ascii_start_def)
  moreover have "?m = trim_ascii xs @ rev (takeWhile is_ascii_whitespace (rev ?m))"
    unfolding trim_ascii_def trim_ascii_end_def
    by (metis rev_append rev_rev_ident takeWhile_dropWhile_id)
  ultimately have "xs = takeWhile is_ascii_whitespace xs @ trim_ascii xs
      @ rev (takeWhile is_ascii_whitespace (rev ?m))"
    by metis
  then show ?thesis
    by (metis (no_types) Un_iff set_rev set_takeWhileD)
qed

lemma trim_ascii_sub: "set (trim_ascii xs) \<subseteq> set xs"
  using trim_ascii_split [of xs] by (metis Un_iff set_append subsetI)

end
