(* ===== verification/Http_Head.thy ===== *)
theory Http_Head
  imports Rust_Str
begin

text \<open>
  Request-head analysis (\<^verbatim>\<open>src/http/head.rs\<close>): the semantic checks over what the tokenizer
  \<^verbatim>\<open>httparse\<close> reports (version, Host, request-target, body framing, keep-alive), and the index
  of offsets from which the head view is rebuilt without tokenizing again. \<^verbatim>\<open>httparse\<close> is a
  third-party crate and so a parameter; what is assumed of it is \<open>httparse_ok\<close>.
\<close>

section \<open>Types\<close>

definition MAX_HEADERS :: nat where "MAX_HEADERS = 160"

datatype BodyKind = Known nat | Chunked

datatype Version = Http10 | Http11

record HeaderView =
  hname :: bytes
  hvalue :: bytes

text \<open>
  A slice with its provenance: \<open>at\<close> is the offset of the slice in the connection buffer, or
  \<open>None\<close> when it borrows from elsewhere (a literal, or an empty slice anywhere).
\<close>

record part =
  at :: "nat option"
  text_of :: bytes

datatype HttparseError = TooManyHeaders | BadVersion | OtherError

record Request =
  req_method :: "part option"
  req_path :: "part option"
  req_version :: "nat option"
  req_headers :: "(part \<times> part) list"

text \<open>\<open>Inr None\<close> is \<^verbatim>\<open>Status::Partial\<close> and \<open>Inr (Some (len, req))\<close> is \<^verbatim>\<open>Status::Complete(len)\<close>.\<close>

type_synonym httparse = "bytes \<Rightarrow> HttparseError + (nat \<times> Request) option"

record Head =
  head_method :: bytes
  head_target :: bytes
  head_version :: Version
  head_headers :: "HeaderView list"

record FrameFacts =
  facts_len :: nat
  facts_target :: part
  facts_body :: "nat + BodyKind"
  expects_continue :: bool

section \<open>Field grammar\<close>

definition is_token_byte :: "byte \<Rightarrow> bool" where
  "is_token_byte b \<longleftrightarrow> is_ascii_alphanumeric b \<or> b \<in> set (s2b ''!#$%&*+-.^_`|~'') \<or> b = 0x27"

definition has_field_break :: "bytes \<Rightarrow> bool" where
  "has_field_break v \<longleftrightarrow> list_ex (\<lambda>b. b < 0x20 \<and> b \<noteq> HT \<or> b = 0x7F) v"

fun digits_loop :: "nat \<Rightarrow> bytes \<Rightarrow> nat option" where
  "digits_loop n [] = Some n"
| "digits_loop n (b # v) =
     (if \<not> is_ascii_digit b then None
      else case checked_mul n 10 of None \<Rightarrow> None
           | Some m \<Rightarrow> (case checked_add m (unat (b - 0x30)) of None \<Rightarrow> None
                        | Some n' \<Rightarrow> digits_loop n' v))"

definition parse_content_length :: "bytes \<Rightarrow> nat option" where
  "parse_content_length v = (if v = [] then None else digits_loop 0 v)"

definition elements :: "bytes \<Rightarrow> bytes list" where
  "elements v = map trim_ascii (split_on (\<lambda>b. b = 0x2C) v)"

definition named :: "bytes \<Rightarrow> HeaderView \<Rightarrow> bool" where
  "named n h \<longleftrightarrow> eq_ignore_ascii_case (hname h) n"

definition has_token :: "HeaderView list \<Rightarrow> bytes \<Rightarrow> bytes \<Rightarrow> bool" where
  "has_token hs n tok \<longleftrightarrow>
     list_ex (\<lambda>h. list_ex (\<lambda>t. eq_ignore_ascii_case t tok) (elements (hvalue h))) (filter (named n) hs)"

section \<open>Body framing\<close>

record te_state =
  te_any :: bool
  te_chunked :: nat
  te_other :: nat
  te_last_chunked :: bool
  cl_value :: "bytes option"
  cl_duplicate :: bool

definition te_element :: "bytes \<Rightarrow> te_state \<Rightarrow> te_state" where
  "te_element t s =
     (if t = [] then s
      else if eq_ignore_ascii_case t (s2b ''chunked'') then
        s\<lparr>te_chunked := te_chunked s + 1, te_last_chunked := True\<rparr>
      else s\<lparr>te_other := te_other s + 1, te_last_chunked := False\<rparr>)"

definition body_header :: "HeaderView \<Rightarrow> te_state \<Rightarrow> te_state" where
  "body_header h s =
     (if named (s2b ''transfer-encoding'') h then
        fold te_element (elements (hvalue h)) (s\<lparr>te_any := True\<rparr>)
      else if named (s2b ''content-length'') h then
        (if cl_value s \<noteq> None then s\<lparr>cl_duplicate := True\<rparr> else s\<lparr>cl_value := Some (hvalue h)\<rparr>)
      else s)"

definition body_from :: "HeaderView list \<Rightarrow> Version \<Rightarrow> nat + BodyKind" where
  "body_from hs v =
     (let s = fold body_header hs
                \<lparr>te_any = False, te_chunked = 0, te_other = 0, te_last_chunked = False,
                 cl_value = None, cl_duplicate = False\<rparr>
      in if cl_duplicate s then Inl 400
         else if te_any s then
           (if v = Http10 then Inl 400
            else if te_chunked s \<noteq> 1 \<or> \<not> te_last_chunked s then Inl 400
            else if (case cl_value s of None \<Rightarrow> False | Some c \<Rightarrow> parse_content_length c = None) then Inl 400
            else if te_other s > 0 then Inl 501
            else Inr Chunked)
         else case cl_value s of
             None \<Rightarrow> Inr (Known 0)
           | Some c \<Rightarrow> (case parse_content_length c of None \<Rightarrow> Inl 400 | Some n \<Rightarrow> Inr (Known n)))"

section \<open>Connection persistence\<close>

definition keep_alive :: "Head \<Rightarrow> bool" where
  "keep_alive h =
     (if has_token (head_headers h) (s2b ''connection'') (s2b ''close'') then False
      else case head_version h of
          Http11 \<Rightarrow> True
        | Http10 \<Rightarrow> has_token (head_headers h) (s2b ''connection'') (s2b ''keep-alive''))"

definition cl_te_step :: "HeaderView \<Rightarrow> bool \<times> bool \<Rightarrow> bool \<times> bool" where
  "cl_te_step h = (\<lambda>(cl, te).
     if named (s2b ''content-length'') h then (True, te)
     else if named (s2b ''transfer-encoding'') h then (cl, True) else (cl, te))"

definition cl_te_conflict :: "Head \<Rightarrow> bool" where
  "cl_te_conflict h = (let (cl, te) = fold cl_te_step (head_headers h) (False, False) in cl \<and> te)"

record conn_state =
  conn_close :: bool
  conn_keep :: bool
  has_cl :: bool
  has_te :: bool

definition conn_element :: "bytes \<Rightarrow> conn_state \<Rightarrow> conn_state" where
  "conn_element t s =
     (if eq_ignore_ascii_case t (s2b ''close'') then s\<lparr>conn_close := True\<rparr>
      else if eq_ignore_ascii_case t (s2b ''keep-alive'') then s\<lparr>conn_keep := True\<rparr>
      else s)"

definition disposition_header :: "HeaderView \<Rightarrow> conn_state \<Rightarrow> conn_state" where
  "disposition_header h s =
     (if named (s2b ''connection'') h then fold conn_element (elements (hvalue h)) s
      else if named (s2b ''content-length'') h then s\<lparr>has_cl := True\<rparr>
      else if named (s2b ''transfer-encoding'') h then s\<lparr>has_te := True\<rparr>
      else s)"

definition response_disposition :: "Head \<Rightarrow> bool \<times> bool" where
  "response_disposition h =
     (let s = fold disposition_header (head_headers h)
                \<lparr>conn_close = False, conn_keep = False, has_cl = False, has_te = False\<rparr>
      in (\<not> conn_close s \<and> (case head_version h of Http11 \<Rightarrow> True | Http10 \<Rightarrow> conn_keep s),
          has_cl s \<and> has_te s))"

section \<open>Version, Host and request-target\<close>

definition is_http_version :: "bytes \<Rightarrow> bool" where
  "is_http_version tok \<longleftrightarrow>
     (case tok of [a, b, c, d, e, major, f, minor] \<Rightarrow>
        [a, b, c, d, e] = s2b ''HTTP/'' \<and> f = 0x2E \<and> is_ascii_digit major \<and> is_ascii_digit minor
      | _ \<Rightarrow> False)"

fun skip_empty_lines :: "bytes \<Rightarrow> bytes" where
  "skip_empty_lines [] = []"
| "skip_empty_lines (b # buf) =
     (if b = LF then skip_empty_lines buf
      else if b = CR then
        (case buf of [] \<Rightarrow> b # buf | c # buf' \<Rightarrow> if c = LF then skip_empty_lines buf' else b # buf)
      else b # buf)"

definition version_status :: "bytes \<Rightarrow> nat option" where
  "version_status buf =
     (let buf = skip_empty_lines buf
      in case position (\<lambda>b. b = CR \<or> b = LF) buf of
           None \<Rightarrow> None
         | Some line_end \<Rightarrow>
             Some (case split_on (\<lambda>b. b = SP) (take line_end buf) of
                     [_, _, version] \<Rightarrow> if is_http_version version then 505 else 400
                   | _ \<Rightarrow> 400))"

definition method_is_head :: "bytes \<Rightarrow> bool" where
  "method_is_head head = starts_with (s2b ''HEAD '') (skip_empty_lines head)"

definition is_reg_name_byte :: "byte \<Rightarrow> bool" where
  "is_reg_name_byte b \<longleftrightarrow> is_ascii_alphanumeric b \<or> b \<in> set (s2b ''-._~%!$&()*+,;='') \<or> b = 0x27"

definition host_port :: "bytes \<Rightarrow> bytes \<times> bytes option" where
  "host_port v =
     (case rposition (\<lambda>b. b = 0x3A) v of
        Some i \<Rightarrow> if 0x5D \<notin> set (drop i v) then (take i v, Some (drop (i + 1) v)) else (v, None)
      | None \<Rightarrow> (v, None))"

definition host_is_valid :: "bytes \<Rightarrow> bool" where
  "host_is_valid v =
     (if v = [] then False
      else let (host, port) = host_port v
      in if (case port of None \<Rightarrow> False | Some p \<Rightarrow> \<not> list_all is_ascii_digit p) then False
         else case Option.bind (strip_prefix [0x5B] host) (strip_suffix [0x5D]) of
             Some inner \<Rightarrow> inner \<noteq> [] \<and>
               list_all (\<lambda>b. is_ascii_hexdigit b \<or> b \<in> set (s2b '':.vV'')) inner
           | None \<Rightarrow> host \<noteq> [] \<and> list_all is_reg_name_byte host)"

definition host_check :: "HeaderView list \<Rightarrow> Version \<Rightarrow> nat + bytes option" where
  "host_check hs v =
     (case filter (named (s2b ''host'')) hs of
        _ # _ # _ \<Rightarrow> Inl 400
      | [h] \<Rightarrow> if \<not> host_is_valid (hvalue h) then Inl 400 else Inr (Some (hvalue h))
      | [] \<Rightarrow> (case v of Http10 \<Rightarrow> Inr None | Http11 \<Rightarrow> Inl 400))"

text \<open>Slicing keeps the provenance: \<open>part_drop n p\<close> is \<^verbatim>\<open>&p[n..]\<close>.\<close>

definition part_drop :: "nat \<Rightarrow> part \<Rightarrow> part" where
  "part_drop n p = \<lparr>at = map_option (\<lambda>i. i + n) (at p), text_of = drop n (text_of p)\<rparr>"

definition strip_scheme :: "part \<Rightarrow> part option" where
  "strip_scheme t =
     (case text_of t of
        [] \<Rightarrow> None
      | c # _ \<Rightarrow>
          if \<not> is_ascii_alphabetic c then None
          else case position (\<lambda>b. \<not> (is_ascii_alphanumeric b \<or> b \<in> set (s2b ''+-.''))) (text_of t) of
              None \<Rightarrow> None
            | Some end \<Rightarrow>
                if starts_with (s2b ''://'') (drop end (text_of t)) then Some (part_drop (end + 3) t) else None)"

definition slash :: part where
  "slash = \<lparr>at = None, text_of = s2b ''/''\<rparr>"

text \<open>\<^verbatim>\<open>rest.find(['/', '?', '#']).unwrap_or(rest.len())\<close>.\<close>

definition authority_end :: "bytes \<Rightarrow> nat" where
  "authority_end rest =
     (case position (\<lambda>b. b \<in> set (s2b ''/?#'')) rest of Some i \<Rightarrow> i | None \<Rightarrow> length rest)"

definition target_check :: "bytes \<Rightarrow> part \<Rightarrow> bytes option \<Rightarrow> nat + part" where
  "target_check m t host =
     (if starts_with (s2b ''/'') (text_of t) then Inr t
      else if text_of t = s2b ''*'' then (if m = s2b ''OPTIONS'' then Inr t else Inl 400)
      else case strip_scheme t of
          None \<Rightarrow> Inl 400
        | Some rest \<Rightarrow>
            (let e = authority_end (text_of rest);
                 authority = take e (text_of rest);
                 path = part_drop e rest
             in if \<not> (case host of Some h \<Rightarrow> eq_ignore_ascii_case h authority | None \<Rightarrow> False) then Inl 400
                else case text_of path of
                    [] \<Rightarrow> Inr slash
                  | c # _ \<Rightarrow> if c = 0x2F then Inr path else Inl 400))"

section \<open>Tokenizing a head\<close>

definition view_header :: "part \<times> part \<Rightarrow> HeaderView" where
  "view_header h = \<lparr>hname = text_of (fst h), hvalue = text_of (snd h)\<rparr>"

definition tokenize :: "httparse \<Rightarrow> bytes \<Rightarrow> nat + (Request \<times> nat \<times> Version \<times> part) option" where
  "tokenize parse buf =
     (case parse buf of
        Inl TooManyHeaders \<Rightarrow> Inl 431
      | Inl BadVersion \<Rightarrow> (case version_status buf of Some st \<Rightarrow> Inl st | None \<Rightarrow> Inr None)
      | Inl OtherError \<Rightarrow> Inl 400
      | Inr None \<Rightarrow> Inr None
      | Inr (Some (len, req)) \<Rightarrow>
          bind_res (case req_version req of
                      Some n \<Rightarrow> if n = 0 then Inr Http10 else if n = 1 then Inr Http11 else Inl 505
                    | None \<Rightarrow> Inl 505) (\<lambda>version.
          bind_res (host_check (map view_header (req_headers req)) version) (\<lambda>host.
          bind_res (case (req_method req, req_path req) of
                      (Some m, Some p) \<Rightarrow> Inr (m, p) | _ \<Rightarrow> Inl 400) (\<lambda>(m, p).
          bind_res (target_check (text_of m) p host) (\<lambda>target.
          Inr (Some (req, len, version, target)))))))"

definition parse_head :: "httparse \<Rightarrow> bytes \<Rightarrow> nat + Head option" where
  "parse_head parse buf =
     bind_res (tokenize parse buf) (\<lambda>t. case t of
         None \<Rightarrow> Inr None
       | Some (req, _, version, target) \<Rightarrow>
           (case req_method req of
              None \<Rightarrow> Inl 400
            | Some m \<Rightarrow> Inr (Some \<lparr>head_method = text_of m, head_target = text_of target,
                head_version = version, head_headers = map view_header (req_headers req)\<rparr>)))"

section \<open>The head index\<close>

record Span =
  span_at :: u32
  span_len :: u32

definition u32_try_from :: "nat \<Rightarrow> u32 option" where
  "u32_try_from n = (if n < 2 ^ 32 then Some (of_nat n) else None)"

definition subslice_start :: "part \<Rightarrow> nat option" where
  "subslice_start p = at p"

definition Span_of :: "part \<Rightarrow> Span option" where
  "Span_of p =
     (if text_of p = [] then Some \<lparr>span_at = 0, span_len = 0\<rparr>
      else Option.bind (subslice_start p) (\<lambda>i.
           Option.bind (u32_try_from i) (\<lambda>a.
           Option.bind (u32_try_from (length (text_of p))) (\<lambda>l.
           Some \<lparr>span_at = a, span_len = l\<rparr>))))"

definition Span_bytes :: "Span \<Rightarrow> bytes \<Rightarrow> bytes option" where
  "Span_bytes s head =
     Option.bind (get_from head (unat (span_at s))) (\<lambda>r.
       if unat (span_len s) \<le> length r then Some (take (unat (span_len s)) r) else None)"

definition Span_text :: "Span \<Rightarrow> bytes \<Rightarrow> bytes option" where
  "Span_text s head = Option.bind (Span_bytes s head) from_utf8"

record IndexedHead =
  ix_len :: nat
  ix_method :: Span
  ix_target :: "Span option"
  ix_version :: Version

record HeadIndex =
  ix_head :: "IndexedHead option"
  ix_headers :: "(Span \<times> Span) list"

definition HeadIndex_default :: HeadIndex where
  "HeadIndex_default = \<lparr>ix_head = None, ix_headers = []\<rparr>"

text \<open>The header loop of \<^verbatim>\<open>place\<close>: the spans pushed before the first part that cannot be placed stay.\<close>

fun place_headers :: "(part \<times> part) list \<Rightarrow> (Span \<times> Span) list \<times> bool" where
  "place_headers [] = ([], True)"
| "place_headers (h # hs) =
     (case (Span_of (fst h), Span_of (snd h)) of
        (Some n, Some v) \<Rightarrow> (case place_headers hs of (ps, ok) \<Rightarrow> ((n, v) # ps, ok))
      | _ \<Rightarrow> ([], False))"

definition place :: "nat \<Rightarrow> Request \<Rightarrow> Version \<Rightarrow> part \<Rightarrow> (Span \<times> Span) list \<times> IndexedHead option" where
  "place len req version target =
     (case place_headers (req_headers req) of
        (ps, False) \<Rightarrow> (ps, None)
      | (ps, True) \<Rightarrow>
          (ps,
           Option.bind (case Span_of target of
                          Some sp \<Rightarrow> Some (Some sp)
                        | None \<Rightarrow> if text_of target = s2b ''/'' then Some None else None) (\<lambda>tgt.
           Option.bind (req_method req) (\<lambda>m.
           Option.bind (Span_of m) (\<lambda>ms.
           Some \<lparr>ix_len = len, ix_method = ms, ix_target = tgt, ix_version = version\<rparr>)))))"

definition described :: "HeadIndex \<Rightarrow> bytes \<Rightarrow> IndexedHead option" where
  "described ix head =
     (case ix_head ix of
        None \<Rightarrow> None
      | Some i \<Rightarrow> if ix_len i = length head then Some i else None)"

fun option_list :: "'a option list \<Rightarrow> 'a list option" where
  "option_list [] = Some []"
| "option_list (x # xs) = Option.bind x (\<lambda>y. map_option (Cons y) (option_list xs))"

definition view :: "HeadIndex \<Rightarrow> bytes \<Rightarrow> Head option" where
  "view ix head =
     Option.bind (described ix head) (\<lambda>i.
     if length (ix_headers ix) > MAX_HEADERS then None
     else Option.bind (option_list (map (\<lambda>(n, v).
            Option.bind (Span_text n head) (\<lambda>n. Option.bind (Span_bytes v head) (\<lambda>v.
              Some \<lparr>hname = n, hvalue = v\<rparr>))) (ix_headers ix))) (\<lambda>hs.
     Option.bind (Span_text (ix_method i) head) (\<lambda>m.
     Option.bind (case ix_target i of Some sp \<Rightarrow> Span_text sp head | None \<Rightarrow> Some (s2b ''/'')) (\<lambda>t.
     Some \<lparr>head_method = m, head_target = t, head_version = ix_version i, head_headers = hs\<rparr>))))"

definition head_view :: "httparse \<Rightarrow> HeadIndex \<Rightarrow> bytes \<Rightarrow> nat + Head option" where
  "head_view parse ix head =
     (if described ix head \<noteq> None then Inr (view ix head) else parse_head parse head)"

definition frame_facts_indexed :: "httparse \<Rightarrow> bytes \<Rightarrow> HeadIndex \<Rightarrow> (nat + FrameFacts option) \<times> HeadIndex" where
  "frame_facts_indexed parse buf ix =
     (let ix = ix\<lparr>ix_head := None\<rparr> in
      case tokenize parse buf of
        Inl st \<Rightarrow> (Inl st, ix)
      | Inr None \<Rightarrow> (Inr None, ix)
      | Inr (Some (req, len, version, target)) \<Rightarrow>
          (let (ps, placed) = place len req version target;
               hs = map view_header (req_headers req)
           in (Inr (Some \<lparr>facts_len = len, facts_target = target, facts_body = body_from hs version,
                    expects_continue = (version = Http11 \<and> has_token hs (s2b ''expect'') (s2b ''100-continue''))\<rparr>),
               ix\<lparr>ix_headers := ps, ix_head := placed\<rparr>)))"

definition frame_facts :: "httparse \<Rightarrow> bytes \<Rightarrow> nat + FrameFacts option" where
  "frame_facts parse buf = fst (frame_facts_indexed parse buf HeadIndex_default)"


section \<open>What is relied on of the tokenizer\<close>

definition slice_of :: "bytes \<Rightarrow> part \<Rightarrow> bool" where
  "slice_of b p \<longleftrightarrow> text_of p = [] \<or>
     (\<exists>i. at p = Some i \<and> i + length (text_of p) \<le> length b \<and> text_of p = take (length (text_of p)) (drop i b))"

definition request_parts :: "Request \<Rightarrow> part list" where
  "request_parts req = (case req_method req of None \<Rightarrow> [] | Some m \<Rightarrow> [m])
     @ (case req_path req of None \<Rightarrow> [] | Some p \<Rightarrow> [p]) @ map fst (req_headers req) @ map snd (req_headers req)"

definition request_strs :: "Request \<Rightarrow> part list" where
  "request_strs req = (case req_method req of None \<Rightarrow> [] | Some m \<Rightarrow> [m])
     @ (case req_path req of None \<Rightarrow> [] | Some p \<Rightarrow> [p]) @ map fst (req_headers req)"

text \<open>
  The tokenizer never copies (the parts of a complete head are slices of the head), what it types
  as \<^verbatim>\<open>str\<close> is UTF-8, it fills at most the slots it is given, a complete head is judged by its own
  bytes, an answer other than \<^verbatim>\<open>Partial\<close> does not change when more bytes follow, and it reads a
  version only after \<^verbatim>\<open>method SP target SP\<close>; nothing is complete before its first byte.
\<close>

definition httparse_ok :: "httparse \<Rightarrow> bool" where
  "httparse_ok parse \<longleftrightarrow>
     (\<forall>buf len req. parse buf = Inr (Some (len, req)) \<longrightarrow>
        0 < len \<and> len \<le> length buf \<and> parse (take len buf) = Inr (Some (len, req))
        \<and> (\<forall>p \<in> set (request_parts req). slice_of (take len buf) p)
        \<and> (\<forall>p \<in> set (request_strs req). utf8_valid (text_of p))
        \<and> length (req_headers req) \<le> MAX_HEADERS)
     \<and> (\<forall>buf more. parse buf \<noteq> Inr None \<longrightarrow> parse (buf @ more) = parse buf)
     \<and> (\<forall>buf. parse buf = Inl BadVersion \<longrightarrow> SP \<in> set buf)
     \<and> parse [] = Inr None"

section \<open>Content-Length\<close>

definition dec_val :: "bytes \<Rightarrow> nat" where
  "dec_val v = fold (\<lambda>b n. n * 10 + unat (b - 0x30)) v 0"

lemma fold_dec_ge: "n \<le> fold (\<lambda>b n. n * 10 + unat (b - 0x30)) (v :: bytes) (n :: nat)"
proof (induction v arbitrary: n)
  case Nil
  then show ?case by simp
next
  case (Cons b v)
  have "n \<le> n * 10 + unat (b - 0x30)" by simp
  also have "\<dots> \<le> fold (\<lambda>b n. n * 10 + unat (b - 0x30)) v (n * 10 + unat (b - 0x30))" by (rule Cons)
  finally show ?case by simp
qed

lemma digits_loop_Some:
  assumes "n < usize_bound"
  shows "digits_loop n v = Some m \<longleftrightarrow>
    list_all is_ascii_digit v \<and> m = fold (\<lambda>b n. n * 10 + unat (b - 0x30)) v n \<and> m < usize_bound"
  using assms
proof (induction v arbitrary: n)
  case Nil
  then show ?case by auto
next
  case (Cons b v)
  show ?case
  proof (cases "n * 10 + unat (b - 0x30) < usize_bound")
    case True
    then have "n * 10 < usize_bound" by linarith
    with True Cons.IH [OF True] show ?thesis by (auto simp: checked_mul_def checked_add_def)
  next
    case False
    then have "(case checked_mul n 10 of None \<Rightarrow> None
           | Some m \<Rightarrow> (case checked_add m (unat (b - 0x30)) of None \<Rightarrow> None
                        | Some n' \<Rightarrow> digits_loop n' v)) = None"
      by (auto simp: checked_mul_def checked_add_def)
    moreover from False have "usize_bound \<le> fold (\<lambda>b n. n * 10 + unat (b - 0x30)) v (n * 10 + unat (b - 0x30))"
      using fold_dec_ge [of "n * 10 + unat (b - 0x30)" v] by linarith
    ultimately show ?thesis by auto
  qed
qed

lemma parse_content_length_Some:
  "parse_content_length v = Some n \<longleftrightarrow>
     v \<noteq> [] \<and> list_all is_ascii_digit v \<and> n = dec_val v \<and> n < usize_bound"
  using digits_loop_Some [of 0 v n]
  by (auto simp: parse_content_length_def dec_val_def usize_bound_def)

section \<open>Body framing, declaratively\<close>

abbreviation (input) "TE \<equiv> s2b ''transfer-encoding''"
abbreviation (input) "CL \<equiv> s2b ''content-length''"

definition is_chunked :: "bytes \<Rightarrow> bool" where
  "is_chunked t \<longleftrightarrow> eq_ignore_ascii_case t (s2b ''chunked'')"

text \<open>The codings of all Transfer-Encoding lines in order, and the values of all Content-Length lines.\<close>

definition codings :: "HeaderView list \<Rightarrow> bytes list" where
  "codings hs = filter (\<lambda>t. t \<noteq> []) (concat (map (\<lambda>h. elements (hvalue h)) (filter (named TE) hs)))"

definition content_lengths :: "HeaderView list \<Rightarrow> bytes list" where
  "content_lengths hs = map hvalue (filter (named CL) hs)"

lemma lower_literal [simp]:
  "map to_ascii_lowercase (s2b ''transfer-encoding'') = s2b ''transfer-encoding''"
  "map to_ascii_lowercase (s2b ''content-length'') = s2b ''content-length''"
  "map to_ascii_lowercase (s2b ''connection'') = s2b ''connection''"
  "map to_ascii_lowercase (s2b ''close'') = s2b ''close''"
  "map to_ascii_lowercase (s2b ''keep-alive'') = s2b ''keep-alive''"
  by (simp_all add: to_ascii_lowercase_def is_ascii_uppercase_def)

lemma named_disjoint:
  "named TE h \<Longrightarrow> \<not> named CL h" "named (s2b ''connection'') h \<Longrightarrow> \<not> named CL h"
  "named (s2b ''connection'') h \<Longrightarrow> \<not> named TE h"
  unfolding named_def eq_ignore_ascii_case_def lower_literal by auto

lemma fold_te_element:
  "fold te_element ts s =
     (let cs = filter (\<lambda>t. t \<noteq> []) ts in
      s\<lparr>te_chunked := te_chunked s + length (filter is_chunked cs),
        te_other := te_other s + length (filter (\<lambda>t. \<not> is_chunked t) cs),
        te_last_chunked := (if cs = [] then te_last_chunked s else is_chunked (last cs))\<rparr>)"
  by (induction ts arbitrary: s) (auto simp: te_element_def is_chunked_def Let_def)

definition te_summary :: "HeaderView list \<Rightarrow> te_state" where
  "te_summary hs =
     \<lparr>te_any = list_ex (named TE) hs,
      te_chunked = length (filter is_chunked (codings hs)),
      te_other = length (filter (\<lambda>t. \<not> is_chunked t) (codings hs)),
      te_last_chunked = (codings hs \<noteq> [] \<and> is_chunked (last (codings hs))),
      cl_value = (case content_lengths hs of [] \<Rightarrow> None | c # _ \<Rightarrow> Some c),
      cl_duplicate = (length (content_lengths hs) > 1)\<rparr>"

lemma codings_snoc:
  "codings (hs @ [h]) = codings hs @ (if named TE h then filter (\<lambda>t. t \<noteq> []) (elements (hvalue h)) else [])"
  by (simp add: codings_def)

lemma content_lengths_snoc:
  "content_lengths (hs @ [h]) = content_lengths hs @ (if named CL h then [hvalue h] else [])"
  by (simp add: content_lengths_def)

lemma body_header_summary: "body_header h (te_summary hs) = te_summary (hs @ [h])"
  using named_disjoint(1) [of h]
  by (auto simp: body_header_def te_summary_def fold_te_element Let_def codings_snoc content_lengths_snoc
      split: list.splits)

lemma fold_body_header:
  "fold body_header hs \<lparr>te_any = False, te_chunked = 0, te_other = 0, te_last_chunked = False,
     cl_value = None, cl_duplicate = False\<rparr> = te_summary hs"
proof (induction hs rule: rev_induct)
  case Nil
  then show ?case by (simp add: te_summary_def codings_def content_lengths_def)
next
  case (snoc h hs)
  then show ?case by (simp add: body_header_summary)
qed

lemma codings_te: "codings hs \<noteq> [] \<Longrightarrow> list_ex (named TE) hs"
  by (rule ccontr) (simp add: codings_def list_ex_iff filter_False del: s2b_Cons)

text \<open>At most one well-formed Content-Length.\<close>

definition length_ok :: "HeaderView list \<Rightarrow> bool" where
  "length_ok hs \<longleftrightarrow>
     (case content_lengths hs of [] \<Rightarrow> True
      | [c] \<Rightarrow> c \<noteq> [] \<and> list_all is_ascii_digit c \<and> dec_val c < usize_bound
      | _ \<Rightarrow> False)"

lemma length_ok_alt:
  "length_ok hs \<longleftrightarrow> \<not> cl_duplicate (te_summary hs) \<and>
     \<not> (case cl_value (te_summary hs) of None \<Rightarrow> False | Some c \<Rightarrow> parse_content_length c = None)"
  using parse_content_length_Some
  by (auto simp: length_ok_def te_summary_def split: list.splits)

lemma one_chunked:
  "length (filter is_chunked cs) = 1 \<and> cs \<noteq> [] \<and> is_chunked (last cs) \<longleftrightarrow>
     (\<exists>pre c. cs = pre @ [c] \<and> is_chunked c \<and> list_all (\<lambda>t. \<not> is_chunked t) pre)"
proof (cases cs rule: rev_cases)
  case Nil
  then show ?thesis by simp
next
  case (snoc pre c)
  then show ?thesis by (auto simp: list_all_iff filter_empty_conv)
qed

lemma body_from_cases:
  "body_from hs v =
     (if \<not> length_ok hs then Inl 400
      else if \<not> list_ex (named TE) hs then
        Inr (Known (case content_lengths hs of [] \<Rightarrow> 0 | c # _ \<Rightarrow> dec_val c))
      else if v = Http11 \<and> (\<exists>pre c. codings hs = pre @ [c] \<and> is_chunked c \<and> list_all (\<lambda>t. \<not> is_chunked t) pre)
        then (if length (codings hs) = 1 then Inr Chunked else Inl 501)
      else Inl 400)"
proof (cases "list_ex (named TE) hs \<and> length_ok hs")
  case True
  define A where "A \<longleftrightarrow> (\<exists>pre c. codings hs = pre @ [c] \<and> is_chunked c \<and> list_all (\<lambda>t. \<not> is_chunked t) pre)"
  let ?s = "te_summary hs"
  have other: "te_other ?s > 0 \<longleftrightarrow> length (codings hs) \<noteq> 1" if "te_chunked ?s = 1"
    using that sum_length_filter_compl [of is_chunked "codings hs"] unfolding te_summary_def te_state.simps
    by linarith
  have any: "te_any ?s" using True by (simp add: te_summary_def)
  have A: "te_chunked ?s = 1 \<and> te_last_chunked ?s \<longleftrightarrow> A"
    unfolding A_def one_chunked [symmetric] by (simp add: te_summary_def)
  have cl: "\<not> cl_duplicate ?s" "\<not> (case cl_value ?s of None \<Rightarrow> False | Some c \<Rightarrow> parse_content_length c = None)"
    using True unfolding length_ok_alt by blast+
  have "body_from hs v = (if v = Http11 \<and> A then (if length (codings hs) = 1 then Inr Chunked else Inl 501) else Inl 400)"
    unfolding body_from_def fold_body_header Let_def using any cl A other by (cases v) auto
  with True show ?thesis unfolding A_def [symmetric] by simp
next
  case False
  show ?thesis
  proof (cases "length_ok hs")
    case True
    with False have "\<not> te_any (te_summary hs)" "\<not> cl_duplicate (te_summary hs)"
      by (simp_all add: te_summary_def length_ok_alt)
    with True False show ?thesis
      unfolding body_from_def fold_body_header Let_def
      by (auto simp: length_ok_def te_summary_def parse_content_length_Some [THEN iffD2]
          split: list.splits simp del: s2b_Cons)
  next
    case bad: False
    then show ?thesis
      unfolding length_ok_alt body_from_def fold_body_header Let_def
      by (auto split: option.splits)
  qed
qed

text \<open>
  C13. The smuggling rules of RFC 9112 section 6.3, exactly. A head frames a chunked body iff it is
  HTTP/1.1, its Transfer-Encoding lines combined list the one coding \<^verbatim>\<open>chunked\<close>, and any
  Content-Length beside it is single and well formed; it frames a body of \<open>n\<close> bytes iff it has no
  Transfer-Encoding and either no Content-Length (and \<open>n = 0\<close>) or a single one of decimal digits
  with value \<open>n\<close> below \<open>2 ^ 64\<close>; it is refused with 501 iff only unimplemented codings before a
  final \<^verbatim>\<open>chunked\<close> stand in the way; and everything else is refused with 400.
\<close>

theorem body_from_rules:
  "(body_from hs v = Inr Chunked \<longleftrightarrow>
      v = Http11 \<and> length_ok hs \<and> (\<exists>c. codings hs = [c] \<and> is_chunked c)) \<and>
   (body_from hs v = Inr (Known n) \<longleftrightarrow>
      \<not> list_ex (named (s2b ''transfer-encoding'')) hs \<and> length_ok hs
      \<and> n = (case content_lengths hs of [] \<Rightarrow> 0 | c # _ \<Rightarrow> dec_val c)) \<and>
   (body_from hs v = Inl 501 \<longleftrightarrow>
      v = Http11 \<and> length_ok hs \<and> (\<exists>pre c. pre \<noteq> [] \<and> codings hs = pre @ [c] \<and> is_chunked c
        \<and> list_all (\<lambda>t. \<not> is_chunked t) pre)) \<and>
   body_from hs v \<in> {Inr Chunked, Inl 400, Inl 501} \<union> range (Inr \<circ> Known)"
proof -
  have "codings hs = pre @ [c] \<Longrightarrow> list_ex (named TE) hs" for pre c
    by (rule codings_te) simp
  then show ?thesis
    unfolding body_from_cases
    by (auto simp: append_eq_Cons_conv simp del: s2b_Cons)
qed

section \<open>Connection persistence\<close>

definition wants :: "HeaderView list \<Rightarrow> bytes \<Rightarrow> bool" where
  "wants hs tok = has_token hs (s2b ''connection'') tok"

lemma wants_snoc:
  "wants (hs @ [h]) tok \<longleftrightarrow> wants hs tok \<or>
     named (s2b ''connection'') h \<and> list_ex (\<lambda>t. eq_ignore_ascii_case t tok) (elements (hvalue h))"
  by (auto simp: wants_def has_token_def simp del: s2b_Cons)

lemma fold_conn_element:
  "fold conn_element ts s =
     s\<lparr>conn_close := conn_close s \<or> list_ex (\<lambda>t. eq_ignore_ascii_case t (s2b ''close'')) ts,
       conn_keep := conn_keep s \<or> list_ex (\<lambda>t. eq_ignore_ascii_case t (s2b ''keep-alive'')) ts\<rparr>"
proof -
  have "\<not> (eq_ignore_ascii_case t (s2b ''close'') \<and> eq_ignore_ascii_case t (s2b ''keep-alive''))" for t
    unfolding eq_ignore_ascii_case_def lower_literal by auto
  then show ?thesis
    by (induction ts arbitrary: s) (auto simp: conn_element_def simp del: s2b_Cons)
qed

lemma fold_disposition:
  "fold disposition_header hs \<lparr>conn_close = False, conn_keep = False, has_cl = False, has_te = False\<rparr> =
     \<lparr>conn_close = wants hs (s2b ''close''), conn_keep = wants hs (s2b ''keep-alive''),
      has_cl = list_ex (named CL) hs, has_te = list_ex (named TE) hs\<rparr>"
proof (induction hs rule: rev_induct)
  case Nil
  then show ?case by (simp add: wants_def has_token_def)
next
  case (snoc h hs)
  then show ?case
    using named_disjoint [of h]
    by (auto simp: disposition_header_def fold_conn_element wants_snoc simp del: s2b_Cons)
qed

lemma fold_cl_te: "fold cl_te_step hs (False, False) = (list_ex (named CL) hs, list_ex (named TE) hs)"
proof (induction hs rule: rev_induct)
  case Nil
  then show ?case by simp
next
  case (snoc h hs)
  then show ?case using named_disjoint(1) [of h] by (auto simp: cl_te_step_def simp del: s2b_Cons)
qed

text \<open>
  The single pass of \<open>response_disposition\<close>, which open-codes the list grammar of \<open>has_token\<close>,
  agrees with the two separate readings on every head.
\<close>

theorem response_disposition_agrees:
  "response_disposition h = (keep_alive h, cl_te_conflict h)"
  unfolding response_disposition_def keep_alive_def cl_te_conflict_def fold_disposition fold_cl_te wants_def
  by (auto simp: Let_def split: Version.splits)

section \<open>The verdict on a head does not depend on segmentation\<close>

lemma skip_empty_lines_append:
  "skip_empty_lines xs \<noteq> [] \<Longrightarrow> skip_empty_lines xs \<noteq> [CR] \<Longrightarrow>
     skip_empty_lines (xs @ ys) = skip_empty_lines xs @ ys"
proof (induction xs rule: skip_empty_lines.induct)
  case 1
  then show ?case by simp
next
  case (2 b buf)
  then show ?case by (cases buf) (simp_all split: if_splits)
qed

lemma skip_empty_lines_SP: "SP \<in> set xs \<Longrightarrow> SP \<in> set (skip_empty_lines xs)"
proof (induction xs rule: skip_empty_lines.induct)
  case 1
  then show ?case by simp
next
  case (2 b buf)
  then show ?case by (cases buf) (auto split: if_splits)
qed

lemma version_status_stable:
  assumes "SP \<in> set xs" "version_status xs = Some st"
  shows "version_status (xs @ ys) = Some st"
proof -
  from assms(1) have "SP \<in> set (skip_empty_lines xs)" by (rule skip_empty_lines_SP)
  then have "skip_empty_lines xs \<noteq> []" "skip_empty_lines xs \<noteq> [CR]" by auto
  then have skip: "skip_empty_lines (xs @ ys) = skip_empty_lines xs @ ys"
    by (rule skip_empty_lines_append)
  from assms(2) obtain i where i: "position (\<lambda>b. b = CR \<or> b = LF) (skip_empty_lines xs) = Some i"
    by (auto simp: version_status_def Let_def split: option.splits)
  then have "i \<le> length (skip_empty_lines xs)"
    using position_Some [OF i] by simp
  with assms(2) i skip show ?thesis
    by (simp add: version_status_def Let_def position_append)
qed

lemma frame_facts_alt:
  "frame_facts parse buf =
     (case tokenize parse buf of
        Inl st \<Rightarrow> Inl st | Inr None \<Rightarrow> Inr None
      | Inr (Some (req, len, version, target)) \<Rightarrow>
          (let hs = map view_header (req_headers req)
           in Inr (Some \<lparr>facts_len = len, facts_target = target, facts_body = body_from hs version,
                expects_continue = (version = Http11 \<and> has_token hs (s2b ''expect'') (s2b ''100-continue''))\<rparr>)))"
  by (auto simp: frame_facts_def frame_facts_indexed_def Let_def split: sum.splits option.splits prod.splits)

lemma httparse_stable:
  assumes "httparse_ok parse" "parse xs \<noteq> Inr None"
  shows "parse (xs @ ys) = parse xs"
  using assms unfolding httparse_ok_def by blast

lemma httparse_version_SP: "httparse_ok parse \<Longrightarrow> parse xs = Inl BadVersion \<Longrightarrow> SP \<in> set xs"
  unfolding httparse_ok_def by blast

lemma tokenize_stable:
  assumes ok: "httparse_ok parse" and t: "tokenize parse xs \<noteq> Inr None"
  shows "tokenize parse (xs @ ys) = tokenize parse xs"
proof -
  from t have ne: "parse xs \<noteq> Inr None" by (auto simp: tokenize_def)
  note same = httparse_stable [OF ok ne, of ys]
  show ?thesis
  proof (cases "parse xs = Inl BadVersion")
    case True
    with t obtain st where st: "version_status xs = Some st"
      by (auto simp: tokenize_def split: option.splits)
    then have "version_status (xs @ ys) = Some st"
      using httparse_version_SP [OF ok True] version_status_stable by blast
    with st True same show ?thesis by (simp add: tokenize_def)
  next
    case False
    with same show ?thesis
      by (cases "parse xs") (auto simp: tokenize_def split: HttparseError.splits)
  qed
qed

lemma frame_facts_incremental:
  assumes "httparse_ok parse"
  shows "incremental (frame_facts parse) (\<lambda>v. v = Inr None)"
proof
  fix xs ys
  assume "frame_facts parse xs \<noteq> Inr None"
  then have "tokenize parse xs \<noteq> Inr None" by (auto simp: frame_facts_alt)
  then show "frame_facts parse (xs @ ys) = frame_facts parse xs"
    by (simp add: frame_facts_alt tokenize_stable [OF assms])
qed

text \<open>
  C15. The verdict on a request head (its length, body framing and expectation, or the status it is
  refused with) is a function of the bytes and not of how the transport cut them: two ways of
  receiving the same bytes, the head asked again after each arrival, give the same first verdict.
\<close>

theorem head_verdict_segmentation:
  assumes "httparse_ok parse" and "concat ss = concat ts"
  shows "first_verdict (frame_facts parse) (\<lambda>v. v = Inr None) [] ss =
         first_verdict (frame_facts parse) (\<lambda>v. v = Inr None) [] ts"
  using incremental.same_bytes_same_verdict [OF frame_facts_incremental [OF assms(1)] assms(2)] .

definition sample_head :: bytes where
  "sample_head = s2b ''GET http://h/p HTTP/1.1'' @ [CR, LF] @ s2b ''Host: h'' @ [CR, LF, CR, LF]"

definition part_at :: "nat \<Rightarrow> nat \<Rightarrow> part" where
  "part_at i n = \<lparr>at = Some i, text_of = take n (drop i sample_head)\<rparr>"

definition sample_request :: Request where
  "sample_request = \<lparr>req_method = Some (part_at 0 3), req_path = Some (part_at 4 10), req_version = Some 1,
     req_headers = [(part_at 25 4, part_at 31 1)]\<rparr>"

definition sample_httparse :: httparse where
  "sample_httparse buf =
     (if starts_with sample_head buf then Inr (Some (length sample_head, sample_request))
      else if starts_with (s2b ''GET / HTTP/2'') buf then Inl BadVersion
      else Inr None)"

lemma sample_httparse_ok: "httparse_ok sample_httparse"
proof -
  have complete: "length sample_head \<le> length buf \<and> take (length sample_head) buf = sample_head"
    if "starts_with sample_head buf" for buf :: bytes
    using that unfolding starts_with_def by (metis length_take min.cobounded1)
  have parts: "\<forall>p \<in> set (request_parts sample_request). slice_of sample_head p"
    "\<forall>p \<in> set (request_strs sample_request). utf8_valid (text_of p)"
    by (simp_all add: request_parts_def request_strs_def sample_request_def part_at_def sample_head_def slice_of_def)
  have few: "length (req_headers sample_request) \<le> MAX_HEADERS"
    by (simp add: sample_request_def MAX_HEADERS_def)
  have self: "starts_with sample_head sample_head"
    using starts_with_append [of sample_head "[]"] by simp
  have differ: "\<not> starts_with sample_head (buf @ more)" if "starts_with (s2b ''GET / HTTP/2'') buf"
    for buf more :: bytes
  proof
    assume "starts_with sample_head (buf @ more)"
    then have "take (length sample_head) (buf @ more) = sample_head" by (simp add: starts_with_def)
    moreover have "take 12 (buf @ more) = s2b ''GET / HTTP/2''"
      using starts_with_extend [OF that, of more, unfolded starts_with_def] by (simp add: eval_nat_numeral del: s2b_Cons take_append)
    moreover have "take 12 (take (length sample_head) (buf @ more)) = take 12 (buf @ more)"
      unfolding take_take by (simp add: sample_head_def min_def del: take_append)
    ultimately have "take 12 sample_head = s2b ''GET / HTTP/2''" by (simp del: s2b_Cons)
    then show False by (simp add: sample_head_def)
  qed
  have space: "SP \<in> set buf" if "starts_with (s2b ''GET / HTTP/2'') buf" for buf :: bytes
  proof -
    have "set (s2b ''GET / HTTP/2'') \<subseteq> set buf"
      using that unfolding starts_with_def by (metis set_take_subset)
    then show ?thesis by simp
  qed
  show ?thesis
    unfolding httparse_ok_def
  proof (intro conjI allI impI)
    fix buf len req
    assume "sample_httparse buf = Inr (Some (len, req))"
    then have b: "starts_with sample_head buf" "len = length sample_head" "req = sample_request"
      by (auto simp: sample_httparse_def split: if_splits)
    with complete [OF b(1)] parts few self
    show "0 < len" "len \<le> length buf" "sample_httparse (take len buf) = Inr (Some (len, req))"
      "\<forall>p \<in> set (request_parts req). slice_of (take len buf) p"
      "\<forall>p \<in> set (request_strs req). utf8_valid (text_of p)" "length (req_headers req) \<le> MAX_HEADERS"
      by (simp_all add: sample_httparse_def sample_head_def)
  next
    fix buf more
    assume "sample_httparse buf \<noteq> Inr None"
    then have "starts_with sample_head buf \<or> \<not> starts_with sample_head buf \<and> starts_with (s2b ''GET / HTTP/2'') buf"
      by (simp add: sample_httparse_def split: if_splits)
    then show "sample_httparse (buf @ more) = sample_httparse buf"
      using starts_with_extend [of sample_head buf more] starts_with_extend [of "s2b ''GET / HTTP/2''" buf more]
        differ [of buf more] unfolding sample_httparse_def by argo
  next
    fix buf
    assume "sample_httparse buf = Inl BadVersion"
    then show "SP \<in> set buf" using space [of buf] by (simp add: sample_httparse_def split: if_splits)
  next
    show "sample_httparse [] = Inr None"
      by (simp add: sample_httparse_def starts_with_def sample_head_def)
  qed
qed

theorem head_verdict_segmentation_witness:
  "concat [take 30 sample_head, drop 30 sample_head] = concat [sample_head] \<and>
   first_verdict (frame_facts sample_httparse) (\<lambda>v. v = Inr None) [] [take 30 sample_head, drop 30 sample_head] =
   first_verdict (frame_facts sample_httparse) (\<lambda>v. v = Inr None) [] [sample_head]"
proof
  show cut: "concat [take 30 sample_head, drop 30 sample_head] = concat [sample_head]" by simp
  show "first_verdict (frame_facts sample_httparse) (\<lambda>v. v = Inr None) [] [take 30 sample_head, drop 30 sample_head] =
    first_verdict (frame_facts sample_httparse) (\<lambda>v. v = Inr None) [] [sample_head]"
    by (rule head_verdict_segmentation [OF sample_httparse_ok cut])
qed

section \<open>Host and target screening\<close>

definition host_byte :: "byte \<Rightarrow> bool" where
  "host_byte b \<longleftrightarrow> is_reg_name_byte b \<or> b \<in> set (s2b '':[]'')"

lemma host_port_split:
  assumes "host_port v = (host, port)"
  shows "v = host @ (case port of None \<Rightarrow> [] | Some p \<Rightarrow> 0x3A # p)"
proof (cases "rposition (\<lambda>b. b = 0x3A) v")
  case None
  with assms show ?thesis by (auto simp: host_port_def)
next
  case (Some i)
  then obtain j where j: "position (\<lambda>b. b = 0x3A) (rev v) = Some j" "i = length v - 1 - j"
    by (auto simp: rposition_def)
  from position_Some [OF j(1)] have "j < length v" "rev v ! j = 0x3A" by auto
  then have "i < length v" "v ! i = 0x3A" using j(2) by (auto simp: rev_nth)
  then have "v = take i v @ 0x3A # drop (i + 1) v"
    by (metis Suc_eq_plus1 id_take_nth_drop)
  with assms Some show ?thesis by (auto simp: host_port_def split: if_splits)
qed

lemma strip_prefix_Some: "strip_prefix pre xs = Some ys \<longleftrightarrow> xs = pre @ ys"
  unfolding strip_prefix_def starts_with_def
  by (metis append_eq_conv_conj append_take_drop_id option.distinct(1) option.inject)

lemma strip_suffix_Some: "strip_suffix suf xs = Some ys \<longleftrightarrow> xs = ys @ suf"
  by (auto simp: strip_suffix_def strip_prefix_Some) (metis rev_append rev_rev_ident)

lemma reg_name_digit: "is_ascii_hexdigit b \<Longrightarrow> is_reg_name_byte b" "is_ascii_digit b \<Longrightarrow> is_reg_name_byte b"
  unfolding is_reg_name_byte_def ascii_defs by (auto simp: word_le_nat_alt)

lemma ip_literal_byte: "is_ascii_hexdigit b \<or> b \<in> set (s2b '':.vV'') \<Longrightarrow> host_byte b"
proof (elim disjE)
  assume "is_ascii_hexdigit b"
  then show ?thesis by (simp add: host_byte_def reg_name_digit(1))
qed (auto simp: host_byte_def is_reg_name_byte_def ascii_defs)

lemma host_is_valid_bytes:
  assumes "host_is_valid v"
  shows "v \<noteq> [] \<and> list_all host_byte v"
proof -
  obtain host port where hp: "host_port v = (host, port)" by fastforce
  define inner where "inner = Option.bind (strip_prefix [0x5B] host) (strip_suffix [0x5D])"
  from assms have v: "v \<noteq> []" by (auto simp: host_is_valid_def)
  with assms hp have port: "port = Some p \<Longrightarrow> list_all is_ascii_digit p"
    and valid: "case inner of
        Some i \<Rightarrow> i \<noteq> [] \<and> list_all (\<lambda>b. is_ascii_hexdigit b \<or> b \<in> set (s2b '':.vV'')) i
      | None \<Rightarrow> host \<noteq> [] \<and> list_all is_reg_name_byte host" for p
    unfolding host_is_valid_def inner_def by (simp_all split: if_splits del: s2b_Cons)
  have "list_all host_byte host"
  proof (cases inner)
    case None
    with valid show ?thesis by (simp add: host_byte_def list_all_iff del: s2b_Cons)
  next
    case (Some i)
    then have "host = 0x5B # i @ [0x5D]"
      by (auto simp: inner_def Option.bind_eq_Some_conv strip_prefix_Some strip_suffix_Some)
    with valid Some ip_literal_byte show ?thesis by (simp add: list_all_iff host_byte_def)
  qed
  moreover have "list_all host_byte (case port of None \<Rightarrow> [] | Some p \<Rightarrow> 0x3A # p)"
    using port reg_name_digit(2) by (auto simp: host_byte_def list_all_iff split: option.splits)
  ultimately show ?thesis
    using v by (subst host_port_split [OF hp]) simp
qed

lemma reg_name_ascii: "is_reg_name_byte b \<Longrightarrow> b < 0x80"
  unfolding is_reg_name_byte_def ascii_defs
  by (elim disjE conjE) (auto simp: word_le_nat_alt word_less_nat_alt)

lemma host_byte_ascii: "host_byte b \<Longrightarrow> b < 0x80"
  unfolding host_byte_def using reg_name_ascii [of b] by auto

lemma lower_ascii: "to_ascii_lowercase b < 0x80 \<longleftrightarrow> b < 0x80"
  unfolding to_ascii_lowercase_def is_ascii_uppercase_def
  by (auto simp: word_le_nat_alt word_less_nat_alt unat_word_ariths)

lemma eq_ignore_ascii_case_ascii:
  assumes "eq_ignore_ascii_case xs ys" "\<forall>b \<in> set xs. b < 0x80"
  shows "\<forall>b \<in> set ys. b < 0x80"
proof
  fix b
  assume "b \<in> set ys"
  then have "to_ascii_lowercase b \<in> set (map to_ascii_lowercase xs)"
    using assms(1) by (simp add: eq_ignore_ascii_case_def)
  then obtain c where "c \<in> set xs" "to_ascii_lowercase b = to_ascii_lowercase c" by auto
  with assms(2) show "b < 0x80" by (metis lower_ascii)
qed

lemma utf8_valid_ascii_prefix: "\<forall>b \<in> set xs. b < 0x80 \<Longrightarrow> utf8_valid (xs @ ys) = utf8_valid ys"
  by (induction xs) auto

lemma slice_of_part_drop: "slice_of b p \<Longrightarrow> slice_of b (part_drop n p)"
proof (cases "text_of p = []")
  case False
  assume "slice_of b p"
  with False obtain i where i: "at p = Some i" "i + length (text_of p) \<le> length b"
    "text_of p = take (length (text_of p)) (drop i b)"
    by (auto simp: slice_of_def)
  have "drop n (text_of p) = take (length (text_of p) - n) (drop (i + n) b)"
    by (subst i(3)) (simp add: drop_take add.commute)
  with i show ?thesis
    by (auto simp: slice_of_def part_drop_def)
qed (simp add: slice_of_def part_drop_def)

lemma strip_scheme_Some:
  assumes "strip_scheme t = Some r"
  obtains sch where "text_of t = sch @ s2b ''://'' @ text_of r" "r = part_drop (length sch + 3) t"
    "\<forall>b \<in> set sch. b < 0x80"
proof -
  let ?bad = "\<lambda>b. \<not> (is_ascii_alphanumeric b \<or> b \<in> set (s2b ''+-.''))"
  from assms obtain e where e: "position ?bad (text_of t) = Some e"
    and pre: "starts_with (s2b ''://'') (drop e (text_of t))" and r: "r = part_drop (e + 3) t"
    unfolding strip_scheme_def by (auto split: list.splits if_splits option.splits simp del: s2b_Cons)
  have "strip_prefix (s2b ''://'') (drop e (text_of t)) = Some (text_of r)"
    using pre r by (simp add: strip_prefix_def part_drop_def eval_nat_numeral del: s2b_Cons)
  then have "drop e (text_of t) = s2b ''://'' @ text_of r" by (simp add: strip_prefix_Some del: s2b_Cons)
  then have "text_of t = take e (text_of t) @ s2b ''://'' @ text_of r" by (metis append_take_drop_id)
  moreover have "b < 0x80" if "b \<in> set (take e (text_of t))" for b
  proof -
    have "is_reg_name_byte b"
      using position_take [OF e] that by (auto simp: is_reg_name_byte_def)
    then show ?thesis by (rule reg_name_ascii)
  qed
  moreover have "length (take e (text_of t)) = e" using position_Some [OF e] by simp
  ultimately show thesis using r that [of "take e (text_of t)"] by metis
qed

definition host_ok :: "bytes option \<Rightarrow> bool" where
  "host_ok host \<longleftrightarrow> (case host of None \<Rightarrow> True | Some h \<Rightarrow> host_is_valid h)"

lemma host_check_ok: "host_check hs v = Inr host \<Longrightarrow> host_ok host"
  by (auto simp: host_check_def host_ok_def split: list.splits if_splits Version.splits simp del: s2b_Cons)

lemma text_of_part_drop: "text_of (part_drop n p) = drop n (text_of p)"
  by (simp add: part_drop_def)

lemma part_drop_drop: "part_drop m (part_drop n p) = part_drop (n + m) p"
  by (cases "at p") (simp_all add: part_drop_def add.commute add.left_commute)

definition absolute_form :: "bytes \<Rightarrow> bytes \<Rightarrow> bytes \<Rightarrow> bytes \<Rightarrow> bool" where
  "absolute_form t authority path r \<longleftrightarrow>
     (\<exists>sch. t = sch @ s2b ''://'' @ authority @ path \<and> (\<forall>b \<in> set sch. b < 0x80))
     \<and> (path = [] \<and> r = s2b ''/'' \<or> path = r \<and> starts_with (s2b ''/'') r)"

lemma target_check_cases:
  assumes "target_check m t host = Inr r"
  obtains "r = t" "starts_with (s2b ''/'') (text_of t) \<or> text_of t = s2b ''*'' \<and> m = s2b ''OPTIONS''"
  | h authority path where "host = Some h" "eq_ignore_ascii_case h authority"
    "absolute_form (text_of t) authority path (text_of r)"
    "r = slash \<or> r = part_drop (length (text_of t) - length (text_of r)) t"
proof -
  consider "starts_with (s2b ''/'') (text_of t)" | "text_of t = s2b ''*''"
    | "\<not> starts_with (s2b ''/'') (text_of t)" "text_of t \<noteq> s2b ''*''" by blast
  then show thesis
  proof cases
    case 3
    then obtain rest where rest: "strip_scheme t = Some rest"
      using assms by (auto simp: target_check_def split: option.splits simp del: s2b_Cons)
    obtain sch where sch: "text_of t = sch @ s2b ''://'' @ text_of rest" "rest = part_drop (length sch + 3) t"
      "\<forall>b \<in> set sch. b < 0x80"
      using strip_scheme_Some [OF rest] by blast
    define e where "e = authority_end (text_of rest)"
    have tc: "target_check m t host =
        (if \<not> (case host of Some h \<Rightarrow> eq_ignore_ascii_case h (take e (text_of rest)) | None \<Rightarrow> False) then Inl 400
         else case drop e (text_of rest) of [] \<Rightarrow> Inr slash
           | c # _ \<Rightarrow> if c = 0x2F then Inr (part_drop e rest) else Inl 400)"
      unfolding e_def using 3 rest by (simp add: target_check_def Let_def text_of_part_drop del: s2b_Cons)
    with assms obtain h where h: "host = Some h" "eq_ignore_ascii_case h (take e (text_of rest))"
      by (cases host) (simp_all split: if_splits)
    with tc assms have r: "drop e (text_of rest) = [] \<and> r = slash \<or> r = part_drop e rest \<and> (\<exists>p. drop e (text_of rest) = 0x2F # p)"
      by (cases "drop e (text_of rest)") (simp_all split: if_splits)
    let ?a = "take e (text_of rest)" and ?p = "drop e (text_of rest)"
    have t: "text_of t = sch @ s2b ''://'' @ ?a @ ?p" using sch(1) by simp
    from r have "?p = [] \<and> text_of r = s2b ''/'' \<or> ?p = text_of r \<and> starts_with (s2b ''/'') (text_of r)"
    proof (elim disjE conjE exE)
      fix p
      assume "r = part_drop e rest" "?p = 0x2F # p"
      then show ?thesis by (simp add: text_of_part_drop starts_with_def)
    qed (simp add: slash_def)
    with t sch(3) have form: "absolute_form (text_of t) ?a ?p (text_of r)"
      unfolding absolute_form_def by blast
    from r have "r = slash \<or> r = part_drop (length (text_of t) - length (text_of r)) t"
    proof (elim disjE conjE exE)
      fix p
      assume n: "r = part_drop e rest" "?p = 0x2F # p"
      then have "?p \<noteq> []" by simp
      then have "e < length (text_of rest)" by simp
      then have "length (text_of t) - length (text_of r) = length sch + 3 + e"
        using n(1) arg_cong [OF sch(1), of length] by (simp add: text_of_part_drop)
      then show ?thesis using n(1) sch(2) part_drop_drop by simp
    qed simp
    then show thesis by (rule that(2) [OF h form])
  next
    case 1
    with assms that(1) show thesis by (simp add: target_check_def del: s2b_Cons)
  next
    case 2
    then have "\<not> starts_with (s2b ''/'') (text_of t)" by (simp add: starts_with_def)
    with 2 assms that(1) show thesis by (simp add: target_check_def split: if_splits del: s2b_Cons)
  qed
qed

lemma target_slice:
  assumes t: "target_check m t host = Inr r" and host: "host_ok host"
    and b: "slice_of b t" "utf8_valid (text_of t)"
  shows "r = slash \<or> slice_of b r \<and> utf8_valid (text_of r)"
  using t
proof (cases rule: target_check_cases)
  case 1
  with b show ?thesis by simp
next
  case (2 h authority path)
  have "\<forall>b \<in> set h. b < 0x80"
    using 2 host host_is_valid_bytes [of h] host_byte_ascii by (auto simp: host_ok_def list_all_iff)
  with 2 have auth: "\<forall>b \<in> set authority. b < 0x80" by (blast dest: eq_ignore_ascii_case_ascii)
  from 2(3) obtain sch where sch: "text_of t = sch @ s2b ''://'' @ authority @ path" "\<forall>b \<in> set sch. b < 0x80"
    and path: "path = [] \<and> text_of r = s2b ''/'' \<or> path = text_of r"
    unfolding absolute_form_def by blast
  have "\<forall>b \<in> set (sch @ s2b ''://'' @ authority). b < 0x80" using sch auth by auto
  then have "utf8_valid path"
    using b(2) utf8_valid_ascii_prefix [of "sch @ s2b ''://'' @ authority" path] sch by simp
  moreover have "utf8_valid (s2b ''/'')" by simp
  ultimately have "utf8_valid (text_of r)" using path by auto
  with 2(4) b(1) slice_of_part_drop show ?thesis by metis
qed

section \<open>The index rebuilds the head\<close>

lemma Span_of_slice:
  assumes "slice_of b p" "length b < 2 ^ 32"
  obtains s where "Span_of p = Some s" "Span_bytes s b = Some (text_of p)"
proof (cases "text_of p = []")
  case True
  then show thesis
    using that by (simp add: Span_of_def Span_bytes_def get_from_def)
next
  case False
  with assms(1) obtain i where i: "at p = Some i" "i + length (text_of p) \<le> length b"
    "text_of p = take (length (text_of p)) (drop i b)"
    by (auto simp: slice_of_def)
  let ?s = "\<lparr>span_at = of_nat i, span_len = of_nat (length (text_of p))\<rparr>"
  have small: "i < 2 ^ 32" "length (text_of p) < 2 ^ 32" using i(2) assms(2) by linarith+
  then have "unat (of_nat i :: u32) = i" "unat (of_nat (length (text_of p)) :: u32) = length (text_of p)"
    by (simp_all add: unat_word_of_nat_eq)
  then have "Span_bytes ?s b = Some (text_of p)"
    using i by (simp add: Span_bytes_def get_from_def)
  moreover have "Span_of p = Some ?s"
    using False i(1) small by (simp add: Span_of_def subslice_start_def u32_try_from_def)
  ultimately show thesis using that by blast
qed

lemma Span_text_slice: "Span_bytes s b = Some t \<Longrightarrow> utf8_valid t \<Longrightarrow> Span_text s b = Some t"
  by (simp add: Span_text_def from_utf8_def)

definition view_spans :: "bytes \<Rightarrow> Span \<times> Span \<Rightarrow> HeaderView option" where
  "view_spans head = (\<lambda>(n, v). Option.bind (Span_text n head) (\<lambda>n. Option.bind (Span_bytes v head) (\<lambda>v.
              Some \<lparr>hname = n, hvalue = v\<rparr>)))"

lemma place_headers_slices:
  assumes "\<forall>h \<in> set hs. slice_of b (fst h) \<and> slice_of b (snd h) \<and> utf8_valid (text_of (fst h))"
    "length b < 2 ^ 32"
  shows "\<exists>ps. place_headers hs = (ps, True) \<and> length ps = length hs
    \<and> option_list (map (view_spans b) ps) = Some (map view_header hs)"
  using assms(1)
proof (induction hs)
  case Nil
  then show ?case by simp
next
  case (Cons h hs)
  then obtain ps where ps: "place_headers hs = (ps, True)" "length ps = length hs"
    "option_list (map (view_spans b) ps) = Some (map view_header hs)"
    by auto
  from Cons.prems have h: "slice_of b (fst h)" "slice_of b (snd h)" "utf8_valid (text_of (fst h))" by auto
  obtain n where n: "Span_of (fst h) = Some n" "Span_bytes n b = Some (text_of (fst h))"
    using Span_of_slice [OF h(1) assms(2)] by blast
  obtain v where v: "Span_of (snd h) = Some v" "Span_bytes v b = Some (text_of (snd h))"
    using Span_of_slice [OF h(2) assms(2)] by blast
  have "view_spans b (n, v) = Some (view_header h)"
    using Span_text_slice [OF n(2) h(3)] v(2) by (simp add: view_spans_def view_header_def)
  with ps n v show ?case by simp
qed

lemma tokenize_Some:
  assumes "tokenize parse buf = Inr (Some (req, len, v, target))"
  obtains m p host where "parse buf = Inr (Some (len, req))" "req_method req = Some m" "req_path req = Some p"
    "host_check (map view_header (req_headers req)) v = Inr host" "target_check (text_of m) p host = Inr target"
  using assms
  by (auto simp: tokenize_def bind_res_def split: sum.splits HttparseError.splits option.splits prod.splits if_splits)

lemma httparse_complete:
  assumes "httparse_ok parse" "parse buf = Inr (Some (len, req))"
  shows "len \<le> length buf" "parse (take len buf) = Inr (Some (len, req))"
    "p \<in> set (request_parts req) \<Longrightarrow> slice_of (take len buf) p"
    "p \<in> set (request_strs req) \<Longrightarrow> utf8_valid (text_of p)"
    "length (req_headers req) \<le> MAX_HEADERS"
  using assms unfolding httparse_ok_def by blast+

lemma tokenize_own_bytes:
  assumes "httparse_ok parse" "tokenize parse buf = Inr (Some (req, len, v, target))"
  shows "tokenize parse (take len buf) = Inr (Some (req, len, v, target))"
proof -
  obtain "parse buf = Inr (Some (len, req))" using tokenize_Some [OF assms(2)] by metis
  with assms show ?thesis
    using httparse_complete(2) [OF assms(1)] by (simp add: tokenize_def)
qed

lemma place_view:
  assumes ok: "httparse_ok parse" and t: "tokenize parse buf = Inr (Some (req, len, v, target))"
    and len: "len < 2 ^ 32"
  obtains ps i m where "place len req v target = (ps, Some i)" "ix_len i = len" "req_method req = Some m"
    "view \<lparr>ix_head = Some i, ix_headers = ps\<rparr> (take len buf) =
       Some \<lparr>head_method = text_of m, head_target = text_of target, head_version = v,
             head_headers = map view_header (req_headers req)\<rparr>"
proof -
  obtain m p host where tok: "parse buf = Inr (Some (len, req))" "req_method req = Some m" "req_path req = Some p"
    "host_check (map view_header (req_headers req)) v = Inr host" "target_check (text_of m) p host = Inr target"
    using tokenize_Some [OF t] by blast
  let ?b = "take len buf"
  note c = httparse_complete [OF ok tok(1)]
  have b: "length ?b = len" "length ?b < 2 ^ 32" using c(1) len by auto
  have "\<forall>h \<in> set (req_headers req). slice_of ?b (fst h) \<and> slice_of ?b (snd h) \<and> utf8_valid (text_of (fst h))"
    using c(3,4) by (auto simp: request_parts_def request_strs_def)
  then obtain ps where ps: "place_headers (req_headers req) = (ps, True)" "length ps = length (req_headers req)"
    "option_list (map (view_spans ?b) ps) = Some (map view_header (req_headers req))"
    using place_headers_slices [OF _ b(2)] by blast
  have m: "slice_of ?b m" "utf8_valid (text_of m)" and p: "slice_of ?b p" "utf8_valid (text_of p)"
    using c(3,4) tok(2,3) by (auto simp: request_parts_def request_strs_def)
  obtain ms where ms: "Span_of m = Some ms" "Span_text ms ?b = Some (text_of m)"
    using Span_of_slice [OF m(1) b(2)] Span_text_slice m(2) by metis
  obtain ts where ts: "(case Span_of target of Some sp \<Rightarrow> Some (Some sp)
      | None \<Rightarrow> if text_of target = s2b ''/'' then Some None else None) = Some ts"
    "(case ts of Some sp \<Rightarrow> Span_text sp ?b | None \<Rightarrow> Some (s2b ''/'')) = Some (text_of target)"
  proof (cases "target = slash")
    case True
    then have "Span_of target = None" by (simp add: Span_of_def slash_def subslice_start_def)
    with True that [of None] show thesis by (simp add: slash_def)
  next
    case False
    then have "slice_of ?b target" "utf8_valid (text_of target)"
      using target_slice [OF tok(5) host_check_ok [OF tok(4)] p] by auto
    then obtain sp where "Span_of target = Some sp" "Span_text sp ?b = Some (text_of target)"
      using Span_of_slice [OF _ b(2)] Span_text_slice by metis
    with that [of "Some sp"] show thesis by simp
  qed
  let ?i = "\<lparr>ix_len = len, ix_method = ms, ix_target = ts, ix_version = v\<rparr>"
  have "place len req v target = (ps, Some ?i)"
    using ps(1) ts(1) tok(2) ms(1) by (simp add: place_def del: s2b_Cons)
  moreover have "view \<lparr>ix_head = Some ?i, ix_headers = ps\<rparr> ?b =
       Some \<lparr>head_method = text_of m, head_target = text_of target, head_version = v,
             head_headers = map view_header (req_headers req)\<rparr>"
    using ps(2,3) ms(2) ts(2) b(1) c(5)
    by (simp add: view_def described_def view_spans_def [symmetric] del: s2b_Cons)
  ultimately show thesis using that [of ps ?i m] tok(2) by simp
qed

text \<open>
  C14. The framer and the glue cannot disagree about a head: after the framer has accepted a head,
  the view rebuilt from the recorded offsets exists and is the head that tokenizing the same bytes
  again would give, for every tokenizer that keeps its contract and every head below 4 GiB,
  including absolute-form targets that are reduced to their path.
\<close>

theorem head_view_agrees:
  assumes "httparse_ok parse" and "frame_facts_indexed parse buf ix = (Inr (Some f), ix')"
    and "facts_len f < 2 ^ 32"
  shows "described ix' (take (facts_len f) buf) \<noteq> None \<and>
    (\<exists>h. view ix' (take (facts_len f) buf) = Some h) \<and>
    head_view parse ix' (take (facts_len f) buf) = parse_head parse (take (facts_len f) buf)"
proof -
  from assms(2) obtain req v target where t: "tokenize parse buf = Inr (Some (req, facts_len f, v, target))"
    and ix: "ix' = ix\<lparr>ix_headers := fst (place (facts_len f) req v target),
                     ix_head := snd (place (facts_len f) req v target)\<rparr>"
    by (auto simp: frame_facts_indexed_def Let_def split: sum.splits option.splits prod.splits)
  obtain ps i m where pl: "place (facts_len f) req v target = (ps, Some i)" "ix_len i = facts_len f"
    "req_method req = Some m"
    "view \<lparr>ix_head = Some i, ix_headers = ps\<rparr> (take (facts_len f) buf) =
       Some \<lparr>head_method = text_of m, head_target = text_of target, head_version = v,
             head_headers = map view_header (req_headers req)\<rparr>"
    using place_view [OF assms(1) t assms(3)] by blast
  have ix': "ix' = \<lparr>ix_head = Some i, ix_headers = ps\<rparr>" using ix pl(1) by simp
  have "described ix' (take (facts_len f) buf) \<noteq> None"
    using pl(4) ix' by (cases "described ix' (take (facts_len f) buf)") (simp_all add: view_def)
  moreover have "parse_head parse (take (facts_len f) buf) =
       Inr (Some \<lparr>head_method = text_of m, head_target = text_of target, head_version = v,
             head_headers = map view_header (req_headers req)\<rparr>)"
    using tokenize_own_bytes [OF assms(1) t] pl(3) by (simp add: parse_head_def)
  ultimately show ?thesis
    using pl(4) ix' by (simp add: head_view_def)
qed

lemma sample_facts:
  "frame_facts_indexed sample_httparse sample_head HeadIndex_default =
     (Inr (Some \<lparr>facts_len = 36, facts_target = \<lparr>at = Some 12, text_of = s2b ''/p''\<rparr>, facts_body = Inr (Known 0),
        expects_continue = False\<rparr>),
      \<lparr>ix_head = Some \<lparr>ix_len = 36, ix_method = \<lparr>span_at = 0, span_len = 3\<rparr>,
         ix_target = Some \<lparr>span_at = 12, span_len = 2\<rparr>, ix_version = Http11\<rparr>,
       ix_headers = [(\<lparr>span_at = 25, span_len = 4\<rparr>, \<lparr>span_at = 31, span_len = 1\<rparr>)]\<rparr>)"
  by code_simp

theorem head_view_agrees_witness:
  "\<exists>f ix'. frame_facts_indexed sample_httparse sample_head HeadIndex_default = (Inr (Some f), ix') \<and>
     described ix' (take (facts_len f) sample_head) \<noteq> None \<and>
     head_view sample_httparse ix' (take (facts_len f) sample_head) =
       parse_head sample_httparse (take (facts_len f) sample_head)"
  using head_view_agrees [OF sample_httparse_ok sample_facts] sample_facts by simp

section \<open>What reaches routing\<close>

text \<open>The bytes a URI authority is delimited by, and everything that is not visible ASCII.\<close>

definition delimiter :: "byte \<Rightarrow> bool" where
  "delimiter b \<longleftrightarrow> b \<le> 0x20 \<or> 0x7F \<le> b \<or> b \<in> set (s2b ''/?#@<>'')  \<or> b = 0x5C \<or> b = 0x22"

lemma host_byte_no_delimiter: "host_byte b \<Longrightarrow> \<not> delimiter b"
  unfolding host_byte_def is_reg_name_byte_def delimiter_def ascii_defs
  by (elim disjE conjE) (auto simp: word_le_nat_alt)

lemma host_check_Inr:
  assumes "host_check hs v = Inr host"
  shows "filter (named (s2b ''host'')) hs = [] \<and> v = Http10 \<and> host = None \<or>
    (\<exists>h. filter (named (s2b ''host'')) hs = [h] \<and> host_is_valid (hvalue h) \<and> host = Some (hvalue h))"
  using assms unfolding host_check_def
  by (auto split: list.splits if_splits Version.splits simp del: s2b_Cons)

lemma host_fields_valid:
  assumes "host_check hs v = Inr host" "h \<in> set hs" "named (s2b ''host'') h"
  shows "hvalue h \<noteq> [] \<and> list_all (\<lambda>b. \<not> delimiter b) (hvalue h)"
proof -
  from assms(2,3) have "h \<in> set (filter (named (s2b ''host'')) hs)" by simp
  then have "host_is_valid (hvalue h)"
    using host_check_Inr [OF assms(1)] by (auto simp del: set_filter s2b_Cons)
  then show ?thesis
    using host_is_valid_bytes host_byte_no_delimiter by (auto simp: list_all_iff)
qed

lemma parse_head_Some:
  assumes "parse_head parse buf = Inr (Some h)"
  obtains req len host and target m p :: part where "parse buf = Inr (Some (len, req))"
    "req_path req = Some p" "head_method h = text_of m" "head_target h = text_of target"
    "host_check (head_headers h) (head_version h) = Inr host" "target_check (text_of m) p host = Inr target"
proof -
  from assms obtain req len v target m where t: "tokenize parse buf = Inr (Some (req, len, v, target))"
    and m: "req_method req = Some m"
    and h: "h = \<lparr>head_method = text_of m, head_target = text_of target, head_version = v,
             head_headers = map view_header (req_headers req)\<rparr>"
    by (auto simp: parse_head_def bind_res_def split: sum.splits option.splits prod.splits)
  show thesis
    using tokenize_Some [OF t] m h that by (metis Head.select_convs option.inject)
qed

text \<open>
  C16. What a request that passes the head analysis can name: its target is a path or, for
  \<^verbatim>\<open>OPTIONS\<close>, the asterisk; it carries at most one Host, exactly one under HTTP/1.1; the Host value is
  not empty and has no byte that delimits an authority, no space, no control byte and nothing
  outside ASCII; and where the request line had another form than the target, it was
  \<^verbatim>\<open>scheme://authority\<close> and that target, with the authority equal to the Host value.
\<close>

theorem parse_head_routing:
  assumes "parse_head parse buf = Inr (Some h)"
  shows "(starts_with (s2b ''/'') (head_target h)
       \<or> head_target h = s2b ''*'' \<and> head_method h = s2b ''OPTIONS'') \<and>
    length (filter (named (s2b ''host'')) (head_headers h)) \<le> 1 \<and>
    (head_version h = Http11 \<longrightarrow> length (filter (named (s2b ''host'')) (head_headers h)) = 1) \<and>
    (\<forall>x \<in> set (head_headers h). named (s2b ''host'') x \<longrightarrow>
       hvalue x \<noteq> [] \<and> list_all (\<lambda>b. \<not> delimiter b) (hvalue x)) \<and>
    (\<exists>len req p. parse buf = Inr (Some (len, req)) \<and> req_path req = Some p \<and>
       (head_target h = text_of p \<or>
        (\<exists>x authority path. x \<in> set (head_headers h) \<and> named (s2b ''host'') x \<and>
           eq_ignore_ascii_case (hvalue x) authority \<and> absolute_form (text_of p) authority path (head_target h))))"
  using assms
proof (cases rule: parse_head_Some)
  case (1 req len host target m p)
  have one: "length (filter (named (s2b ''host'')) (head_headers h)) \<le> 1"
    "head_version h = Http11 \<longrightarrow> length (filter (named (s2b ''host'')) (head_headers h)) = 1"
    using host_check_Inr [OF 1(5)] by (auto simp del: s2b_Cons)
  have valid: "\<forall>x \<in> set (head_headers h). named (s2b ''host'') x \<longrightarrow>
       hvalue x \<noteq> [] \<and> list_all (\<lambda>b. \<not> delimiter b) (hvalue x)"
    using host_fields_valid [OF 1(5)] by blast
  from 1(6) have "(starts_with (s2b ''/'') (text_of target)
       \<or> text_of target = s2b ''*'' \<and> text_of m = s2b ''OPTIONS'') \<and>
    (text_of target = text_of p \<or>
        (\<exists>x authority path. x \<in> set (head_headers h) \<and> named (s2b ''host'') x \<and>
           eq_ignore_ascii_case (hvalue x) authority \<and> absolute_form (text_of p) authority path (text_of target)))"
  proof (cases rule: target_check_cases)
    case 1
    then show ?thesis by blast
  next
    case (2 x authority path)
    then obtain hd where "filter (named (s2b ''host'')) (head_headers h) = [hd]" "hvalue hd = x"
      using host_check_Inr [OF 1(5)] by auto
    then have "hd \<in> {x \<in> set (head_headers h). named (s2b ''host'') x}"
      by (metis list.set_intros(1) set_filter)
    then have "hd \<in> set (head_headers h)" "named (s2b ''host'') hd" by blast+
    moreover have "starts_with (s2b ''/'') (text_of target)"
      using 2(3) unfolding absolute_form_def by (auto simp: starts_with_def)
    ultimately show ?thesis using 2 \<open>hvalue hd = x\<close> by blast
  qed
  with one valid 1(1-4) show ?thesis by metis
qed

lemma sample_parse_head:
  "parse_head sample_httparse sample_head =
     Inr (Some \<lparr>head_method = s2b ''GET'', head_target = s2b ''/p'', head_version = Http11,
       head_headers = [\<lparr>hname = s2b ''Host'', hvalue = s2b ''h''\<rparr>]\<rparr>)"
  by code_simp

theorem parse_head_routing_witness:
  "\<exists>h. parse_head sample_httparse sample_head = Inr (Some h) \<and> starts_with (s2b ''/'') (head_target h)
     \<and> length (filter (named (s2b ''host'')) (head_headers h)) = 1"
  using parse_head_routing [OF sample_parse_head] sample_parse_head by auto

end
