(* ===== verification/Http_Chunked.thy ===== *)
theory Http_Chunked
  imports Http_Head
begin

text \<open>
  The chunked transfer coding (\<^verbatim>\<open>src/http/chunked.rs\<close>): the resumable scanner, the decoder and
  the in-place compactor over one state machine \<open>run\<close>, and the chunk-at-a-time \<open>step\<close>. The two
  sinks \<^verbatim>\<open>run\<close> reports ranges to are the two lists of its result. The counters of a scan never
  exceed the length of the buffer they index, so they need no width.
\<close>

section \<open>Definitions\<close>

definition CHUNK_LINE_MAX :: nat where "CHUNK_LINE_MAX = 256"
definition TRAILER_LINE_MAX :: nat where "TRAILER_LINE_MAX = 1024"
definition TRAILER_MAX :: nat where "TRAILER_MAX = 8 * 1024"

datatype State = Size | Data nat | DataCrlf | Trailer | Done

record ChunkScan =
  consumed :: nat
  decoded :: nat
  trailer_bytes :: nat
  state :: State

definition ChunkScan_default :: ChunkScan where
  "ChunkScan_default = \<lparr>consumed = 0, decoded = 0, trailer_bytes = 0, state = Size\<rparr>"

datatype Find = At nat | NeedMore | TooLong

definition find_crlf :: "bytes \<Rightarrow> nat \<Rightarrow> Find" where
  "find_crlf rest max_line =
     (let window = min (length rest) (max_line + 2)
      in case find_sub [CR, LF] (take window rest) of
           Some i \<Rightarrow> At i
         | None \<Rightarrow> if length rest \<ge> max_line + 2 then TooLong else NeedMore)"

definition line_has_bare_crlf :: "bytes \<Rightarrow> bool" where
  "line_has_bare_crlf line = list_ex (\<lambda>b. b = CR \<or> b = LF) line"

definition hex_digit :: "byte \<Rightarrow> byte option" where
  "hex_digit b =
     (if 0x30 \<le> b \<and> b \<le> 0x39 then Some (b - 0x30)
      else if 0x61 \<le> b \<and> b \<le> 0x66 then Some (b - 0x61 + 10)
      else if 0x41 \<le> b \<and> b \<le> 0x46 then Some (b - 0x41 + 10)
      else None)"

text \<open>The loop of \<^verbatim>\<open>parse_size_line\<close>: \<open>None\<close> is the overflow, \<open>Some (digits, n)\<close> the break or the end.\<close>

fun size_loop :: "bytes \<Rightarrow> nat \<Rightarrow> nat \<Rightarrow> (nat \<times> nat) option" where
  "size_loop [] digits n = Some (digits, n)"
| "size_loop (b # line) digits n =
     (case hex_digit b of
        None \<Rightarrow> Some (digits, n)
      | Some d \<Rightarrow>
          Option.bind (checked_mul n 16) (\<lambda>m. Option.bind (checked_add m (unat d)) (\<lambda>n'.
            size_loop line (digits + 1) n')))"

definition trim_ows_start :: "bytes \<Rightarrow> bytes" where
  "trim_ows_start = dropWhile (\<lambda>b. b = SP \<or> b = HT)"

definition parse_size_line :: "bytes \<Rightarrow> nat option" where
  "parse_size_line line =
     Option.bind (size_loop line 0 0) (\<lambda>(digits, n).
       if digits = 0 then None
       else (case trim_ows_start (drop digits line) of
               [] \<Rightarrow> Some n
             | c # _ \<Rightarrow> if c = 0x3B then Some n else None))"

definition split_trailer :: "bytes \<Rightarrow> (bytes \<times> bytes) option" where
  "split_trailer line =
     Option.bind (position (\<lambda>b. b = 0x3A) line) (\<lambda>colon.
       if colon = 0 \<or> \<not> list_all is_token_byte (take colon line) then None
       else let v = trim_ascii (drop (colon + 1) line)
            in if has_field_break v then None else Some (take colon line, v))"

definition FORBIDDEN_TRAILERS :: "bytes list" where
  "FORBIDDEN_TRAILERS = map s2b [''transfer-encoding'', ''content-length'', ''host'',
     ''authorization'', ''proxy-authorization'', ''cookie'']"

definition forbidden_trailer :: "bytes \<Rightarrow> bool" where
  "forbidden_trailer n = list_ex (eq_ignore_ascii_case n) FORBIDDEN_TRAILERS"

text \<open>
  One turn of the loop of \<^verbatim>\<open>run\<close>: it returns a verdict, with the payload range reported on the way
  if there is one, or goes on, with the payload or trailer range reported.
\<close>

type_synonym range = "nat \<times> nat"

datatype turn = Return "nat + nat option" ChunkScan "range option" | Continue ChunkScan "range option" "range option"

definition size_turn :: "bytes \<Rightarrow> ChunkScan \<Rightarrow> turn" where
  "size_turn rest s =
     (case find_crlf rest CHUNK_LINE_MAX of
        NeedMore \<Rightarrow> Return (Inr None) s None
      | TooLong \<Rightarrow> Return (Inl 400) s None
      | At i \<Rightarrow>
          if line_has_bare_crlf (take i rest) then Return (Inl 400) s None
          else case parse_size_line (take i rest) of
              None \<Rightarrow> Return (Inl 400) s None
            | Some sz \<Rightarrow>
                Continue (s\<lparr>consumed := consumed s + (i + 2),
                            state := (if sz = 0 then Trailer else Data sz)\<rparr>) None None)"

definition data_turn :: "bytes \<Rightarrow> nat \<Rightarrow> ChunkScan \<Rightarrow> turn" where
  "data_turn rest remaining s =
     (let take_n = min remaining (length rest);
          p = (if take_n > 0 then Some (consumed s, consumed s + take_n) else None);
          s = (if take_n > 0 then s\<lparr>consumed := consumed s + take_n, decoded := decoded s + take_n\<rparr> else s)
      in if take_n = remaining then Continue (s\<lparr>state := DataCrlf\<rparr>) p None
         else Return (Inr None) (s\<lparr>state := Data (remaining - take_n)\<rparr>) p)"

definition crlf_turn :: "bytes \<Rightarrow> ChunkScan \<Rightarrow> turn" where
  "crlf_turn rest s =
     (if length rest < 2 then Return (Inr None) s None
      else if take 2 rest \<noteq> [CR, LF] then Return (Inl 400) s None
      else Continue (s\<lparr>consumed := consumed s + 2, state := Size\<rparr>) None None)"

definition trailer_turn :: "bytes \<Rightarrow> ChunkScan \<Rightarrow> turn" where
  "trailer_turn rest s =
     (case find_crlf rest TRAILER_LINE_MAX of
        NeedMore \<Rightarrow> Return (Inr None) s None
      | TooLong \<Rightarrow> Return (Inl 431) s None
      | At i \<Rightarrow>
          (let s = s\<lparr>trailer_bytes := trailer_bytes s + (i + 2)\<rparr>
           in if trailer_bytes s > TRAILER_MAX then Return (Inl 431) s None
              else let start = consumed s; line = take i rest; s = s\<lparr>consumed := consumed s + (i + 2)\<rparr>
                in if line_has_bare_crlf line then Return (Inl 400) s None
                   else if line = [] then Continue (s\<lparr>state := Done\<rparr>) None None
                   else case split_trailer line of
                       Some (n, _) \<Rightarrow>
                         if forbidden_trailer n then Continue s None None
                         else Continue s None (Some (start, start + i))
                     | None \<Rightarrow> Return (Inl 400) s None))"

definition run_turn :: "bytes \<Rightarrow> ChunkScan \<Rightarrow> turn" where
  "run_turn body s =
     (if state s = Done then Return (Inr (Some (consumed s))) s None
      else case get_from body (consumed s) of
          None \<Rightarrow> Return (Inl 400) s None
        | Some rest \<Rightarrow>
            (case state s of
               Done \<Rightarrow> Return (Inr (Some (consumed s))) s None
             | Size \<Rightarrow> size_turn rest s
             | Data remaining \<Rightarrow> data_turn rest remaining s
             | DataCrlf \<Rightarrow> crlf_turn rest s
             | Trailer \<Rightarrow> trailer_turn rest s))"

definition pushed :: "'a option \<Rightarrow> 'a list \<Rightarrow> 'a list" where
  "pushed x xs = (case x of None \<Rightarrow> xs | Some y \<Rightarrow> y # xs)"

function run :: "bytes \<Rightarrow> ChunkScan \<Rightarrow> (nat + nat option) \<times> ChunkScan \<times> range list \<times> range list" where
  "run body s =
     (case run_turn body s of
        Return r s' p \<Rightarrow> (r, s', pushed p [], [])
      | Continue s' p t \<Rightarrow>
          (case run body s' of (r, s'', ps, ts) \<Rightarrow> (r, s'', pushed p ps, pushed t ts)))"
  by pat_completeness auto

text \<open>Every turn that goes on consumes bytes, or leaves a finished chunk for its CRLF.\<close>

definition todo :: "bytes \<Rightarrow> ChunkScan \<Rightarrow> nat" where
  "todo body s = 2 * (length body - consumed s) + (case state s of Data _ \<Rightarrow> 1 | _ \<Rightarrow> 0)"

lemma find_crlf_At:
  assumes "find_crlf rest m = At i"
  shows "i \<le> m \<and> i + 2 \<le> length rest \<and> drop i rest = [CR, LF] @ drop (i + 2) rest"
proof -
  let ?w = "min (length rest) (m + 2)"
  from assms have "find_sub [CR, LF] (take ?w rest) = Some i"
    by (auto simp: find_crlf_def Let_def split: option.splits if_splits)
  from find_sub_Some [OF this] have i: "i + 2 \<le> ?w" "take 2 (drop i (take ?w rest)) = [CR, LF]"
    by (auto simp: starts_with_def numeral_2_eq_2)
  then have "take 2 (drop i rest) = [CR, LF]"
    by (simp add: drop_take min_def split: if_splits)
  with i show ?thesis
    by (metis (no_types, lifting) add.commute append_take_drop_id drop_drop min.bounded_iff add_le_cancel_right)
qed

lemma run_turn_todo: "run_turn body s = Continue s' p t \<Longrightarrow> todo body s' < todo body s"
  by (auto simp: run_turn_def get_from_def size_turn_def data_turn_def crlf_turn_def trailer_turn_def todo_def Let_def
      split: State.splits if_splits Find.splits option.splits prod.splits dest!: find_crlf_At)

termination run
  by (relation "measure (\<lambda>(body, s). todo body s)") (auto simp: run_turn_todo)

declare run.simps [simp del]

definition scan :: "bytes \<Rightarrow> ChunkScan \<Rightarrow> (nat + nat option) \<times> ChunkScan" where
  "scan body s = (case run body s of (r, s', _, _) \<Rightarrow> (r, s'))"

datatype Step = More | Chunk nat nat | Last nat | Bad nat

text \<open>The part of \<^verbatim>\<open>step\<close> after the CRLF that closes the previous payload, at offset \<open>off\<close>.\<close>

definition step_locate :: "bytes \<Rightarrow> nat \<Rightarrow> Step" where
  "step_locate buf off =
     (let rest = drop off buf
      in case find_crlf rest CHUNK_LINE_MAX of
           NeedMore \<Rightarrow> More
         | TooLong \<Rightarrow> Bad 400
         | At nl \<Rightarrow>
             if line_has_bare_crlf (take nl rest) then Bad 400
             else case parse_size_line (take nl rest) of
                 None \<Rightarrow> Bad 400
               | Some payload \<Rightarrow>
                   if payload = 0 then
                     (case fst (scan rest ChunkScan_default) of
                        Inr (Some extent) \<Rightarrow> Last (off + extent)
                      | Inr None \<Rightarrow> More
                      | Inl status \<Rightarrow> Bad status)
                   else Chunk (off + nl + 2) payload)"

definition step :: "bytes \<Rightarrow> bool \<Rightarrow> Step" where
  "step buf after_payload =
     (if after_payload then
        (if take 2 buf = [CR, LF] then step_locate buf 2
         else if buf = [] \<or> buf = [CR] then More
         else Bad 400)
      else step_locate buf 0)"

datatype Entity = Empty | Span bytes | Stitched bytes

fun entity_add :: "Entity \<Rightarrow> bytes \<Rightarrow> Entity" where
  "entity_add Empty p = Span p"
| "entity_add (Span first) p = Stitched (first @ p)"
| "entity_add (Stitched v) p = Stitched (v @ p)"

fun entity_bytes :: "Entity \<Rightarrow> bytes" where
  "entity_bytes Empty = []"
| "entity_bytes (Span v) = v"
| "entity_bytes (Stitched v) = v"

definition trailer_views :: "bytes list \<Rightarrow> unit + HeaderView list" where
  "trailer_views = traverse (\<lambda>line. case split_trailer line of
      None \<Rightarrow> Inl ()
    | Some (n, v) \<Rightarrow> (case from_utf8 n of None \<Rightarrow> Inl () | Some n \<Rightarrow> Inr \<lparr>hname = n, hvalue = v\<rparr>))"

definition cut :: "bytes \<Rightarrow> range \<Rightarrow> bytes" where
  "cut w r = slice w (fst r) (snd r)"

definition decode :: "bytes \<Rightarrow> unit + bytes \<times> HeaderView list" where
  "decode wire =
     (case run wire ChunkScan_default of (r, _, ps, ts) \<Rightarrow>
        if r = Inr (Some (length wire)) then
          bind_res (trailer_views (map (cut wire) ts)) (\<lambda>trailers.
            Inr (entity_bytes (foldl entity_add Empty (map (cut wire) ps)), trailers))
        else Inl ())"

record Compacted =
  start :: nat
  len :: nat
  trailer_lines :: "bytes list"

definition trailers :: "Compacted \<Rightarrow> unit + HeaderView list" where
  "trailers c = trailer_views (trailer_lines c)"

text \<open>\<^verbatim>\<open>copy_within(a..b, dest)\<close>; \<open>None\<close> is its panic on ranges out of bounds.\<close>

definition copy_within :: "bytes \<Rightarrow> range \<Rightarrow> nat \<Rightarrow> bytes option" where
  "copy_within w r dest =
     (if snd r \<le> length w \<and> fst r \<le> snd r \<and> dest + (snd r - fst r) \<le> length w
      then Some (take dest w @ cut w r @ drop (dest + (snd r - fst r)) w) else None)"

fun compact_spans :: "bytes \<Rightarrow> range list \<Rightarrow> nat \<Rightarrow> (bytes \<times> nat) option" where
  "compact_spans w [] e = Some (w, e)"
| "compact_spans w (r # rs) e =
     Option.bind (copy_within w r e) (\<lambda>w'. compact_spans w' rs (e + (snd r - fst r)))"

definition compact :: "bytes \<Rightarrow> (unit + Compacted \<times> bytes) option" where
  "compact wire =
     (case run wire ChunkScan_default of (r, _, ps, ts) \<Rightarrow>
        if r = Inr (Some (length wire)) then
          (case ps of
             [] \<Rightarrow> Some (Inr (\<lparr>start = 0, len = 0, trailer_lines = map (cut wire) ts\<rparr>, wire))
           | head_span # rest_spans \<Rightarrow>
               map_option (\<lambda>(w, e). Inr (\<lparr>start = fst head_span, len = e - fst head_span,
                   trailer_lines = map (cut wire) ts\<rparr>, w))
                 (compact_spans wire rest_spans (snd head_span)))
        else Some (Inl ()))"

section \<open>Lines\<close>

lemma find_sub_extend: "find_sub pat xs = Some i \<Longrightarrow> find_sub pat (xs @ ys) = Some i"
proof (induction xs arbitrary: i)
  case Nil
  then show ?case by simp
next
  case (Cons x xs)
  show ?case
  proof (cases "starts_with pat (x # xs)")
    case True
    with Cons.prems starts_with_extend [OF True, of ys] show ?thesis by simp
  next
    case False
    with Cons.prems obtain j where j: "find_sub pat xs = Some j" "i = Suc j" by auto
    with find_sub_Some [OF j(1)] False have "\<not> starts_with pat (x # xs @ ys)"
      unfolding starts_with_def
      by (metis append_Cons le_add2 le_Suc_eq le_trans length_Cons take_append append_Nil2 diff_is_0_eq take_0)
    with Cons.IH [OF j(1)] j(2) show ?thesis by simp
  qed
qed

lemma find_sub_line: "\<forall>b \<in> set l. b \<noteq> CR \<Longrightarrow> find_sub [CR, LF] (l @ CR # LF # rest) = Some (length l)"
  by (induction l) (auto simp: starts_with_def)

lemma find_crlf_line:
  assumes "\<not> line_has_bare_crlf l" "length l \<le> m"
  shows "find_crlf (l @ CR # LF # rest) m = At (length l)"
proof -
  let ?w = "min (length (l @ CR # LF # rest)) (m + 2)"
  have "take ?w (l @ CR # LF # rest) = l @ CR # LF # take (?w - length l - 2) rest"
    using assms(2) by (auto simp: take_Cons' min_def)
  then show ?thesis
    using assms(1) find_sub_line [of l] by (simp add: find_crlf_def line_has_bare_crlf_def list_ex_iff)
qed

lemma find_crlf_extend:
  assumes "find_crlf xs m \<noteq> NeedMore"
  shows "find_crlf (xs @ ys) m = find_crlf xs m"
proof (cases "length xs \<ge> m + 2")
  case True
  then show ?thesis by (simp add: find_crlf_def Let_def min_def)
next
  case False
  with assms obtain i where i: "find_sub [CR, LF] xs = Some i"
    by (auto simp: find_crlf_def Let_def min_def split: option.splits if_splits)
  have "take (min (length (xs @ ys)) (m + 2)) (xs @ ys) = xs @ take (min (length (xs @ ys)) (m + 2) - length xs) ys"
    using False by (auto simp: min_def)
  then show ?thesis
    using False find_sub_extend [OF i] i by (simp add: find_crlf_def Let_def min_def)
qed

section \<open>Resuming\<close>

text \<open>What a run reports, with the ranges replaced by the bytes they denote.\<close>

definition cut_opt :: "bytes \<Rightarrow> range option \<Rightarrow> bytes list" where
  "cut_opt body r = (case r of None \<Rightarrow> [] | Some r \<Rightarrow> [cut body r])"

definition prepend :: "bytes \<Rightarrow> bytes list \<Rightarrow> 'r \<times> 's \<times> bytes \<times> bytes list \<Rightarrow> 'r \<times> 's \<times> bytes \<times> bytes list" where
  "prepend p t = (\<lambda>(r, s, ps, ts). (r, s, p @ ps, t @ ts))"

definition outcome :: "bytes \<Rightarrow> ChunkScan \<Rightarrow> (nat + nat option) \<times> ChunkScan \<times> bytes \<times> bytes list" where
  "outcome body s = (case run body s of (r, s', ps, ts) \<Rightarrow>
     (r, s', concat (map (cut body) ps), map (cut body) ts))"

lemma outcome_rec:
  "outcome body s =
     (case run_turn body s of
        Return r s' p \<Rightarrow> (r, s', concat (cut_opt body p), [])
      | Continue s' p t \<Rightarrow> prepend (concat (cut_opt body p)) (cut_opt body t) (outcome body s'))"
  unfolding outcome_def
  by (subst run.simps)
    (auto simp: prepend_def cut_opt_def pushed_def split: turn.splits prod.splits option.splits)

lemma prepend_Nil [simp]: "prepend [] [] o1 = o1"
  by (cases o1) (simp add: prepend_def)

lemma prepend_prepend: "prepend p t (prepend p' t' o1) = prepend (p @ p') (t @ t') o1"
  by (cases o1) (simp add: prepend_def)

lemma prepend_eq:
  "prepend p t o1 = (r, s, ps, ts) \<longleftrightarrow> (\<exists>ps' ts'. o1 = (r, s, ps', ts') \<and> ps = p @ ps' \<and> ts = t @ ts')"
  by (cases o1) (auto simp: prepend_def)

lemma get_from_append: "i \<le> length xs \<Longrightarrow> get_from (xs @ ys) i = Some (drop i xs @ ys)"
  by (simp add: get_from_def)

lemma size_turn_extend:
  assumes "\<And>s' p. size_turn r s \<noteq> Return (Inr None) s' p"
  shows "size_turn (r @ ys) s = size_turn r s"
proof (cases "find_crlf r CHUNK_LINE_MAX")
  case (At i)
  then have "i \<le> length r" using find_crlf_At [OF At] by simp
  with At find_crlf_extend [of r CHUNK_LINE_MAX ys] show ?thesis by (simp add: size_turn_def)
qed (use assms find_crlf_extend [of r CHUNK_LINE_MAX ys] in \<open>auto simp: size_turn_def\<close>)

lemma trailer_turn_extend:
  assumes "\<And>s' p. trailer_turn r s \<noteq> Return (Inr None) s' p"
  shows "trailer_turn (r @ ys) s = trailer_turn r s"
proof (cases "find_crlf r TRAILER_LINE_MAX")
  case (At i)
  then have "i \<le> length r" using find_crlf_At [OF At] by simp
  with At find_crlf_extend [of r TRAILER_LINE_MAX ys] show ?thesis by (simp add: trailer_turn_def Let_def)
qed (use assms find_crlf_extend [of r TRAILER_LINE_MAX ys] in \<open>auto simp: trailer_turn_def\<close>)

lemma turn_extend:
  assumes "consumed s \<le> length xs" "\<And>s' p. run_turn xs s \<noteq> Return (Inr None) s' p"
  shows "run_turn (xs @ ys) s = run_turn xs s"
proof -
  let ?r = "drop (consumed s) xs"
  have g: "get_from xs (consumed s) = Some ?r" "get_from (xs @ ys) (consumed s) = Some (?r @ ys)"
    using assms(1) by (simp_all add: get_from_def)
  show ?thesis
  proof (cases "state s")
    case Size
    with assms(2) g show ?thesis using size_turn_extend [of ?r s ys] by (simp add: run_turn_def)
  next
    case (Data n)
    have "n \<le> length ?r"
    proof (rule ccontr)
      assume "\<not> n \<le> length ?r"
      then obtain s' p where "data_turn ?r n s = Return (Inr None) s' p" by (auto simp: data_turn_def Let_def)
      with Data g assms(2) [of s' p] show False by (simp add: run_turn_def)
    qed
    with Data g show ?thesis by (simp add: run_turn_def data_turn_def Let_def min_def)
  next
    case DataCrlf
    with g assms(2) [of s None] have "2 \<le> length ?r" by (simp add: run_turn_def crlf_turn_def split: if_splits)
    with DataCrlf g show ?thesis by (simp add: run_turn_def crlf_turn_def)
  next
    case Trailer
    with assms(2) g show ?thesis using trailer_turn_extend [of ?r s ys] by (simp add: run_turn_def)
  next
    case Done
    then show ?thesis by (simp add: run_turn_def)
  qed
qed

lemma turn_Continue:
  assumes "run_turn xs s = Continue s' p t"
  shows "consumed s \<le> length xs \<and> consumed s \<le> consumed s' \<and> consumed s' \<le> length xs"
  using assms
  by (auto simp: run_turn_def get_from_def size_turn_def data_turn_def crlf_turn_def trailer_turn_def Let_def
      split: State.splits if_splits Find.splits option.splits prod.splits dest!: find_crlf_At)

lemma turn_ranges:
  "run_turn xs s = Continue s' (Some r) t \<Longrightarrow> snd r \<le> length xs"
  "run_turn xs s = Continue s' p (Some r) \<Longrightarrow> snd r \<le> length xs"
  "run_turn xs s = Return v s' (Some r) \<Longrightarrow> snd r \<le> length xs"
  by (auto simp: run_turn_def get_from_def size_turn_def data_turn_def crlf_turn_def trailer_turn_def Let_def
      split: State.splits if_splits Find.splits option.splits prod.splits dest!: find_crlf_At)

lemma cut_extend: "snd r \<le> length xs \<Longrightarrow> cut (xs @ ys) r = cut xs r"
  by (auto simp: cut_def slice_def)

lemma cut_opt_extend: "(\<And>q. r = Some q \<Longrightarrow> snd q \<le> length xs) \<Longrightarrow> cut_opt (xs @ ys) r = cut_opt xs r"
  by (cases r) (auto simp: cut_opt_def cut_extend)

lemma turn_pending:
  assumes "run_turn xs s = Return (Inr None) s' p"
  shows "consumed s \<le> length xs \<and> (s' = s \<and> p = None \<or>
    (\<exists>n k. state s = Data n \<and> k = length xs - consumed s \<and> k < n
       \<and> s' = s\<lparr>consumed := consumed s + k, decoded := decoded s + k, state := Data (n - k)\<rparr>
       \<and> concat (cut_opt xs p) = drop (consumed s) xs))"
  using assms
  by (auto simp: run_turn_def get_from_def size_turn_def data_turn_def crlf_turn_def trailer_turn_def Let_def
      cut_opt_def cut_def slice_def
      split: State.splits if_splits Find.splits option.splits prod.splits)

lemma data_resume:
  assumes st: "state s = Data n" and k: "k = length xs - consumed s" "k < n" "consumed s \<le> length xs"
    and s': "s' = s\<lparr>consumed := consumed s + k, decoded := decoded s + k, state := Data (n - k)\<rparr>"
  shows "outcome (xs @ ys) s = prepend (drop (consumed s) xs) [] (outcome (xs @ ys) s')"
proof -
  have c: "consumed s' = length xs" "state s' = Data (n - k)" using s' k by auto
  have t: "run_turn (xs @ ys) s = data_turn (drop (consumed s) xs @ ys) n s"
    "run_turn (xs @ ys) s' = data_turn ys (n - k) s'"
    using k(3) st c by (simp_all add: run_turn_def get_from_def)
  let ?k2 = "min n (k + length ys)"
  have k2: "min n (length (drop (consumed s) xs @ ys)) = ?k2" "min (n - k) (length ys) = ?k2 - k"
    using k by auto
  have p: "concat (cut_opt (xs @ ys) (if ?k2 > 0 then Some (consumed s, consumed s + ?k2) else None)) =
      drop (consumed s) xs @ concat (cut_opt (xs @ ys) (if ?k2 - k > 0 then Some (length xs, length xs + (?k2 - k)) else None))"
    using k by (cases ys) (auto simp: cut_opt_def cut_def slice_def min_def)
  have same: "s'\<lparr>consumed := length xs + (?k2 - k), decoded := decoded s' + (?k2 - k), state := v\<rparr> =
      s\<lparr>consumed := consumed s + ?k2, decoded := decoded s + ?k2, state := v\<rparr>" for v
    using s' k by auto
  show ?thesis
  proof (cases "?k2 = n")
    case True
    then have "data_turn (drop (consumed s) xs @ ys) n s =
        Continue (s\<lparr>consumed := consumed s + ?k2, decoded := decoded s + ?k2, state := DataCrlf\<rparr>)
          (if ?k2 > 0 then Some (consumed s, consumed s + ?k2) else None) None"
      using k2(1) k by (simp add: data_turn_def Let_def)
    moreover have "data_turn ys (n - k) s' =
        Continue (s\<lparr>consumed := consumed s + ?k2, decoded := decoded s + ?k2, state := DataCrlf\<rparr>)
          (if ?k2 - k > 0 then Some (length xs, length xs + (?k2 - k)) else None) None"
      using True k2(2) k c same [of DataCrlf] by (simp add: data_turn_def Let_def)
    ultimately show ?thesis
      using t p by (subst (1 2) outcome_rec) (simp add: prepend_prepend cut_opt_def)
  next
    case False
    then have "data_turn (drop (consumed s) xs @ ys) n s =
        Return (Inr None) (s\<lparr>consumed := consumed s + ?k2, decoded := decoded s + ?k2, state := Data (n - ?k2)\<rparr>)
          (if ?k2 > 0 then Some (consumed s, consumed s + ?k2) else None)"
      using k2(1) k by (auto simp: data_turn_def Let_def)
    moreover have "data_turn ys (n - k) s' =
        Return (Inr None) (s\<lparr>consumed := consumed s + ?k2, decoded := decoded s + ?k2, state := Data (n - ?k2)\<rparr>)
          (if ?k2 - k > 0 then Some (length xs, length xs + (?k2 - k)) else None)"
      using False k2(2) k c same [of "Data (n - ?k2)"] s' by (auto simp: data_turn_def Let_def)
    ultimately show ?thesis
      using t p by (subst (1 2) outcome_rec) (simp add: prepend_def)
  qed
qed

lemma outcome_resume:
  assumes "outcome xs s = (Inr None, s', p, t)"
  shows "outcome (xs @ ys) s = prepend p t (outcome (xs @ ys) s') \<and> consumed s' \<le> length xs"
  using assms
proof (induction xs s arbitrary: p t rule: run.induct)
  case (1 xs s)
  show ?case
  proof (cases "run_turn xs s")
    case (Return r s1 q)
    with 1(2) have r: "run_turn xs s = Return (Inr None) s' q" "p = concat (cut_opt xs q)" "t = []"
      by (auto simp: outcome_rec [of xs s])
    from turn_pending [OF r(1)] show ?thesis
    proof (elim conjE disjE exE)
      assume "s' = s" "q = None" "consumed s \<le> length xs"
      with r show ?thesis by (simp add: cut_opt_def)
    next
      fix n k
      assume "consumed s \<le> length xs" "state s = Data n" "k = length xs - consumed s" "k < n"
        "s' = s\<lparr>consumed := consumed s + k, decoded := decoded s + k, state := Data (n - k)\<rparr>"
        "concat (cut_opt xs q) = drop (consumed s) xs"
      with r data_resume [of s n k xs s' ys] show ?thesis by simp
    qed
  next
    case (Continue s1 q u)
    with 1(2) obtain p' t' where o: "outcome xs s1 = (Inr None, s', p', t')"
      "p = concat (cut_opt xs q) @ p'" "t = cut_opt xs u @ t'"
      by (auto simp: outcome_rec [of xs s] prepend_eq)
    note IH = 1(1) [OF Continue o(1)]
    have "run_turn (xs @ ys) s = Continue s1 q u"
      using turn_extend [of s xs ys] turn_Continue [OF Continue] Continue by simp
    moreover have "cut_opt (xs @ ys) q = cut_opt xs q" "cut_opt (xs @ ys) u = cut_opt xs u"
      using turn_ranges(1,2) Continue by (auto intro!: cut_opt_extend)
    ultimately show ?thesis
      using IH o by (subst outcome_rec) (simp add: prepend_prepend)
  qed
qed

lemma outcome_decided:
  assumes "outcome xs s = (r, s', p, t)" "r \<noteq> Inr None" "consumed s \<le> length xs"
  shows "outcome (xs @ ys) s = (r, s', p, t)"
  using assms
proof (induction xs s arbitrary: p t rule: run.induct)
  case (1 xs s)
  have ext: "run_turn (xs @ ys) s = run_turn xs s"
  proof (rule turn_extend)
    fix s1 q
    show "run_turn xs s \<noteq> Return (Inr None) s1 q"
      using 1(2,3) by (auto simp: outcome_rec [of xs s])
  qed (rule 1(4))
  show ?case
  proof (cases "run_turn xs s")
    case (Return v s1 q)
    then have "cut_opt (xs @ ys) q = cut_opt xs q"
      using turn_ranges(3) by (auto intro!: cut_opt_extend)
    with 1(2) Return ext show ?thesis by (simp add: outcome_rec [of _ s])
  next
    case (Continue s1 q u)
    with 1(2) obtain p' t' where o: "outcome xs s1 = (r, s', p', t')"
      "p = concat (cut_opt xs q) @ p'" "t = cut_opt xs u @ t'"
      by (auto simp: outcome_rec [of xs s] prepend_eq)
    have "outcome (xs @ ys) s1 = (r, s', p', t')"
      using 1(1) [OF Continue o(1) 1(3)] turn_Continue [OF Continue] by simp
    moreover have "cut_opt (xs @ ys) q = cut_opt xs q" "cut_opt (xs @ ys) u = cut_opt xs u"
      using turn_ranges(1,2) Continue by (auto intro!: cut_opt_extend)
    ultimately show ?thesis
      using o ext Continue by (simp add: outcome_rec [of _ s] prepend_def)
  qed
qed

lemma scan_outcome: "scan body s = (case outcome body s of (r, s', _, _) \<Rightarrow> (r, s'))"
  by (simp add: scan_def outcome_def split: prod.splits)

lemma scan_extend:
  assumes "consumed s \<le> length xs" "scan xs s = (r, s')"
  shows "scan (xs @ ys) s = (if r = Inr None then scan (xs @ ys) s' else (r, s'))"
    "r = Inr None \<Longrightarrow> consumed s' \<le> length xs"
proof -
  obtain p t where o: "outcome xs s = (r, s', p, t)"
    using assms(2) by (auto simp: scan_outcome split: prod.splits)
  show "scan (xs @ ys) s = (if r = Inr None then scan (xs @ ys) s' else (r, s'))"
    using outcome_resume [of xs s s' p t ys] outcome_decided [OF o _ assms(1), of ys] o
    by (auto simp: scan_outcome prepend_def split: prod.splits)
  show "r = Inr None \<Longrightarrow> consumed s' \<le> length xs"
    using outcome_resume [of xs s s' p t] o by auto
qed

text \<open>The framer's use: the scan is asked again after each arrival, from where it stopped, until it decides.\<close>

fun scan_pump :: "bytes \<Rightarrow> ChunkScan \<Rightarrow> bytes list \<Rightarrow> (nat + nat option) \<times> ChunkScan" where
  "scan_pump acc s [] = scan acc s"
| "scan_pump acc s (a # as) =
     (case scan acc s of (r, s') \<Rightarrow> if r = Inr None then scan_pump (acc @ a) s' as else (r, s'))"

text \<open>
  C11. Resuming is invisible: feeding a chunked body to the scanner in any segmentation, each call
  resuming from the state the last one left, ends in the verdict and in the state (bytes consumed,
  bytes decoded, trailer bytes) of a single scan over all the bytes.
\<close>

theorem scan_resumable:
  "scan_pump [] ChunkScan_default arrivals = scan (concat arrivals) ChunkScan_default"
proof -
  have "consumed s \<le> length acc \<Longrightarrow> scan_pump acc s as = scan (acc @ concat as) s" for acc s as
  proof (induction as arbitrary: acc s)
    case (Cons a as)
    obtain r s' where r: "scan acc s = (r, s')" by fastforce
    with scan_extend [OF Cons.prems r] Cons.IH [of s' "acc @ a"] show ?case
      by (cases "r = Inr None") simp_all
  qed simp
  from this [of ChunkScan_default "[]"] show ?thesis by (simp add: ChunkScan_default_def)
qed

lemma scan_incremental: "incremental (\<lambda>b. fst (scan b ChunkScan_default)) (\<lambda>v. v = Inr None)"
proof
  fix xs ys
  assume "fst (scan xs ChunkScan_default) \<noteq> Inr None"
  then show "fst (scan (xs @ ys) ChunkScan_default) = fst (scan xs ChunkScan_default)"
    using scan_extend(1) [of ChunkScan_default xs _ _ ys]
    by (cases "scan xs ChunkScan_default") (simp add: ChunkScan_default_def)
qed

interpretation chunk_scan: incremental "\<lambda>b. fst (scan b ChunkScan_default)" "\<lambda>v. v = Inr None"
  by (rule scan_incremental)

section \<open>The grammar of a chunked message\<close>

text \<open>
  RFC 9112 section 7.1 with the caps of the code: a message is a list of chunks (size line and
  payload), the line of the last chunk, and the trailer lines.
\<close>

abbreviation (input) "CRLF \<equiv> [CR, LF]"

definition clean_line :: "nat \<Rightarrow> bytes \<Rightarrow> bool" where
  "clean_line m l \<longleftrightarrow> \<not> line_has_bare_crlf l \<and> length l \<le> m"

definition chunk_ok :: "bytes \<times> bytes \<Rightarrow> bool" where
  "chunk_ok c \<longleftrightarrow> clean_line CHUNK_LINE_MAX (fst c) \<and> snd c \<noteq> [] \<and> parse_size_line (fst c) = Some (length (snd c))"

definition chunk_wire :: "bytes \<times> bytes \<Rightarrow> bytes" where
  "chunk_wire c = fst c @ CRLF @ snd c @ CRLF"

definition trailer_ok :: "bytes \<Rightarrow> bool" where
  "trailer_ok l \<longleftrightarrow> clean_line TRAILER_LINE_MAX l \<and> l \<noteq> [] \<and> split_trailer l \<noteq> None"

definition trailer_wire :: "bytes list \<Rightarrow> bytes" where
  "trailer_wire ts = concat (map (\<lambda>l. l @ CRLF) ts) @ CRLF"

definition surfaced :: "bytes \<Rightarrow> bool" where
  "surfaced l \<longleftrightarrow> (case split_trailer l of None \<Rightarrow> False | Some (n, _) \<Rightarrow> \<not> forbidden_trailer n)"

definition trailers_ok :: "nat \<Rightarrow> bytes list \<Rightarrow> bool" where
  "trailers_ok tb ts \<longleftrightarrow> list_all trailer_ok ts \<and> tb + length (trailer_wire ts) \<le> TRAILER_MAX"

definition message_ok :: "nat \<Rightarrow> (bytes \<times> bytes) list \<Rightarrow> bytes \<Rightarrow> bytes list \<Rightarrow> bool" where
  "message_ok tb cs l ts \<longleftrightarrow> list_all chunk_ok cs \<and> clean_line CHUNK_LINE_MAX l \<and> parse_size_line l = Some 0
     \<and> trailers_ok tb ts"

definition message_wire :: "(bytes \<times> bytes) list \<Rightarrow> bytes \<Rightarrow> bytes list \<Rightarrow> bytes" where
  "message_wire cs l ts = concat (map chunk_wire cs) @ l @ CRLF @ trailer_wire ts"

subsection \<open>The machine accepts every message of the grammar\<close>

lemma outcome_step:
  assumes "run_turn body s = Continue s' p t"
  shows "outcome body s = prepend (concat (cut_opt body p)) (cut_opt body t) (outcome body s')"
  using assms by (simp add: outcome_rec [of body s])

lemma outcome_size_line:
  assumes "body = pre @ l @ CRLF @ rest" "consumed s = length pre" "state s = Size" "clean_line CHUNK_LINE_MAX l"
    "parse_size_line l = Some n"
  shows "outcome body s =
    outcome body (s\<lparr>consumed := length pre + length l + 2, state := (if n = 0 then Trailer else Data n)\<rparr>)"
proof -
  have "find_crlf (l @ CR # LF # rest) CHUNK_LINE_MAX = At (length l)"
    using assms(4) by (simp add: clean_line_def find_crlf_line)
  then have "run_turn body s =
      Continue (s\<lparr>consumed := length pre + length l + 2, state := (if n = 0 then Trailer else Data n)\<rparr>) None None"
    using assms by (simp add: run_turn_def get_from_def size_turn_def clean_line_def)
  from outcome_step [OF this] show ?thesis by (simp add: cut_opt_def)
qed

lemma outcome_data:
  assumes "body = pre @ p @ rest" "consumed s = length pre" "state s = Data (length p)" "p \<noteq> []"
  shows "outcome body s = prepend p []
    (outcome body (s\<lparr>consumed := length pre + length p, decoded := decoded s + length p, state := DataCrlf\<rparr>))"
proof -
  have "run_turn body s =
      Continue (s\<lparr>consumed := length pre + length p, decoded := decoded s + length p, state := DataCrlf\<rparr>)
        (Some (length pre, length pre + length p)) None"
    using assms by (simp add: run_turn_def get_from_def data_turn_def Let_def)
  from outcome_step [OF this] show ?thesis
    using assms(1) by (simp add: cut_opt_def cut_def slice_def)
qed

lemma outcome_data_crlf:
  assumes "body = pre @ CRLF @ rest" "consumed s = length pre" "state s = DataCrlf"
  shows "outcome body s = outcome body (s\<lparr>consumed := length pre + 2, state := Size\<rparr>)"
proof -
  have "run_turn body s = Continue (s\<lparr>consumed := length pre + 2, state := Size\<rparr>) None None"
    using assms by (simp add: run_turn_def get_from_def crlf_turn_def)
  from outcome_step [OF this] show ?thesis by (simp add: cut_opt_def)
qed

lemma outcome_chunk:
  assumes "body = pre @ chunk_wire c @ post" "consumed s = length pre" "state s = Size" "chunk_ok c"
  shows "outcome body s = prepend (snd c) []
    (outcome body (s\<lparr>consumed := length (pre @ chunk_wire c), decoded := decoded s + length (snd c), state := Size\<rparr>))"
proof -
  let ?n = "length (snd c)" and ?b1 = "pre @ fst c @ CRLF" and ?b2 = "pre @ fst c @ CRLF @ snd c"
  let ?s1 = "s\<lparr>consumed := length pre + length (fst c) + 2, state := Data ?n\<rparr>"
  let ?s2 = "?s1\<lparr>consumed := length ?b1 + ?n, decoded := decoded ?s1 + ?n, state := DataCrlf\<rparr>"
  let ?s3 = "?s2\<lparr>consumed := length ?b2 + 2, state := Size\<rparr>"
  have body: "body = pre @ fst c @ CRLF @ snd c @ CRLF @ post"
    using assms(1) by (simp add: chunk_wire_def)
  have "outcome body s = outcome body ?s1"
    using outcome_size_line [of body pre "fst c" "snd c @ CRLF @ post" s ?n] assms(2-4) body
    by (simp add: chunk_ok_def)
  also have "outcome body ?s1 = prepend (snd c) [] (outcome body ?s2)"
    by (rule outcome_data) (use assms(4) in \<open>simp_all add: body chunk_ok_def\<close>)
  also have "outcome body ?s2 = outcome body ?s3"
    by (rule outcome_data_crlf) (simp_all add: body)
  finally show ?thesis by (cases s) (simp add: chunk_wire_def)
qed

lemma outcome_trailer_line:
  assumes body: "body = pre @ l @ CRLF @ rest" and s: "consumed s = length pre" "state s = Trailer"
    and l: "trailer_ok l" and tb: "trailer_bytes s + length l + 2 \<le> TRAILER_MAX"
  shows "outcome body s = prepend [] (if surfaced l then [l] else [])
    (outcome body (s\<lparr>trailer_bytes := trailer_bytes s + length l + 2, consumed := length pre + length l + 2\<rparr>))"
proof -
  have "find_crlf (l @ CR # LF # rest) TRAILER_LINE_MAX = At (length l)"
    using l by (simp add: trailer_ok_def clean_line_def find_crlf_line)
  then have "run_turn body s =
      Continue (s\<lparr>trailer_bytes := trailer_bytes s + length l + 2, consumed := length pre + length l + 2\<rparr>) None
        (if surfaced l then Some (length pre, length pre + length l) else None)"
    using body s l tb
    by (auto simp: run_turn_def get_from_def trailer_turn_def Let_def trailer_ok_def clean_line_def surfaced_def)
  from outcome_step [OF this] show ?thesis
    using body by (simp add: cut_opt_def cut_def slice_def)
qed

lemma outcome_trailer_end:
  assumes "body = pre @ CRLF @ rest" "consumed s = length pre" "state s = Trailer"
    "trailer_bytes s + 2 \<le> TRAILER_MAX"
  shows "\<exists>s'. outcome body s = (Inr (Some (length pre + 2)), s', [], [])"
proof -
  have "find_crlf ([] @ CR # LF # rest) TRAILER_LINE_MAX = At (length ([] :: bytes))"
    by (rule find_crlf_line) (simp_all add: line_has_bare_crlf_def)
  then have "run_turn body s =
      Continue (s\<lparr>trailer_bytes := trailer_bytes s + 2, consumed := length pre + 2, state := Done\<rparr>) None None"
    using assms by (simp add: run_turn_def get_from_def trailer_turn_def Let_def line_has_bare_crlf_def)
  from outcome_step [OF this] show ?thesis
    by (simp add: cut_opt_def outcome_rec [of body "s\<lparr>trailer_bytes := _, consumed := _, state := Done\<rparr>"] run_turn_def)
qed

lemma outcome_trailers:
  assumes "body = pre @ trailer_wire ts @ post" "consumed s = length pre" "state s = Trailer"
    "trailers_ok (trailer_bytes s) ts"
  shows "\<exists>s'. outcome body s = (Inr (Some (length pre + length (trailer_wire ts))), s', [], filter surfaced ts)"
  using assms
proof (induction ts arbitrary: pre s)
  case Nil
  then show ?case
    using outcome_trailer_end [of body pre post s] by (simp add: trailer_wire_def trailers_ok_def)
next
  case (Cons l ts)
  let ?s = "s\<lparr>trailer_bytes := trailer_bytes s + length l + 2, consumed := length pre + length l + 2\<rparr>"
  have "outcome body s = prepend [] (if surfaced l then [l] else []) (outcome body ?s)"
    using Cons.prems by (intro outcome_trailer_line [of _ _ _ "trailer_wire ts @ post"])
      (auto simp: trailer_wire_def trailers_ok_def)
  moreover have "\<exists>s'. outcome body ?s =
      (Inr (Some (length (pre @ l @ CRLF) + length (trailer_wire ts))), s', [], filter surfaced ts)"
    using Cons.prems by (intro Cons.IH) (auto simp: trailer_wire_def trailers_ok_def)
  ultimately show ?case
    by (auto simp: prepend_def trailer_wire_def)
qed

lemma outcome_message:
  assumes "body = pre @ message_wire cs l ts @ post" "consumed s = length pre" "state s = Size"
    "message_ok (trailer_bytes s) cs l ts"
  shows "\<exists>s'. outcome body s =
    (Inr (Some (length pre + length (message_wire cs l ts))), s', concat (map snd cs), filter surfaced ts)"
  using assms
proof (induction cs arbitrary: pre s)
  case Nil
  let ?s = "s\<lparr>consumed := length pre + length l + 2, state := Trailer\<rparr>"
  have "outcome body s = outcome body ?s"
    using Nil outcome_size_line [of body pre l "trailer_wire ts @ post" s 0]
    by (simp add: message_wire_def message_ok_def)
  moreover have "\<exists>s'. outcome body ?s =
      (Inr (Some (length (pre @ l @ CRLF) + length (trailer_wire ts))), s', [], filter surfaced ts)"
    using Nil by (intro outcome_trailers) (auto simp: message_wire_def message_ok_def)
  ultimately show ?case by (simp add: message_wire_def add.assoc)
next
  case (Cons c cs)
  let ?s3 = "s\<lparr>consumed := length (pre @ chunk_wire c), decoded := decoded s + length (snd c), state := Size\<rparr>"
  have "outcome body s = prepend (snd c) [] (outcome body ?s3)"
    using Cons.prems by (intro outcome_chunk [where post = "message_wire cs l ts @ post"])
      (simp_all add: message_wire_def message_ok_def)
  moreover have "\<exists>s'. outcome body ?s3 =
      (Inr (Some (length (pre @ chunk_wire c) + length (message_wire cs l ts))), s', concat (map snd cs), filter surfaced ts)"
    using Cons.prems by (intro Cons.IH) (auto simp: message_wire_def chunk_wire_def message_ok_def)
  ultimately show ?case
    by (auto simp: prepend_def message_wire_def add.assoc)
qed

subsection \<open>The machine accepts nothing else\<close>

definition message_spells :: "nat \<Rightarrow> bytes \<Rightarrow> bytes \<Rightarrow> bytes list \<Rightarrow> bool" where
  "message_spells tb w p t \<longleftrightarrow>
     (\<exists>cs l ts. message_ok tb cs l ts \<and> w = message_wire cs l ts \<and> p = concat (map snd cs) \<and> t = filter surfaced ts)"

text \<open>The bytes that lead from a state to the end, with the payload and the trailers they carry.\<close>

definition spells :: "State \<Rightarrow> nat \<Rightarrow> bytes \<Rightarrow> bytes \<Rightarrow> bytes list \<Rightarrow> bool" where
  "spells st tb w p t \<longleftrightarrow>
     (case st of
        Done \<Rightarrow> w = [] \<and> p = [] \<and> t = []
      | Trailer \<Rightarrow> \<exists>ts. trailers_ok tb ts \<and> w = trailer_wire ts \<and> p = [] \<and> t = filter surfaced ts
      | Size \<Rightarrow> message_spells tb w p t
      | DataCrlf \<Rightarrow> \<exists>w'. w = CRLF @ w' \<and> message_spells tb w' p t
      | Data n \<Rightarrow> \<exists>q p' w'. length q = n \<and> w = q @ CRLF @ w' \<and> p = q @ p' \<and> message_spells tb w' p' t)"

lemma spells_size:
  assumes "clean_line CHUNK_LINE_MAX l" "parse_size_line l = Some n"
    "spells (if n = 0 then Trailer else Data n) tb w p t"
  shows "spells Size tb (l @ CRLF @ w) p t"
proof (cases "n = 0")
  case True
  with assms obtain ts where "trailers_ok tb ts" "w = trailer_wire ts" "p = []" "t = filter surfaced ts"
    by (auto simp: spells_def)
  with True assms have "message_ok tb [] l ts \<and> l @ CRLF @ w = message_wire [] l ts \<and> p = concat (map snd [])"
    by (simp add: message_ok_def message_wire_def)
  with \<open>t = filter surfaced ts\<close> show ?thesis
    unfolding spells_def message_spells_def State.case by blast
next
  case False
  with assms(3) obtain q p' w' cs l' ts where q: "length q = n" "w = q @ CRLF @ w'" "p = q @ p'"
    "message_ok tb cs l' ts" "w' = message_wire cs l' ts" "p' = concat (map snd cs)" "t = filter surfaced ts"
    by (auto simp: spells_def message_spells_def)
  then have "message_ok tb ((l, q) # cs) l' ts" "l @ CRLF @ w = message_wire ((l, q) # cs) l' ts"
    "p = concat (map snd ((l, q) # cs))"
    using assms False by (auto simp: message_ok_def message_wire_def chunk_ok_def chunk_wire_def)
  with q(7) show ?thesis unfolding spells_def message_spells_def State.case by blast
qed

lemma spells_trailer:
  assumes "trailer_ok l" "spells Trailer (tb + length l + 2) w p t"
  shows "spells Trailer tb (l @ CRLF @ w) p ((if surfaced l then [l] else []) @ t)"
proof -
  from assms(2) obtain ts where "trailers_ok (tb + length l + 2) ts" "w = trailer_wire ts" "p = []" "t = filter surfaced ts"
    by (auto simp: spells_def)
  with assms(1) have "trailers_ok tb (l # ts)" "l @ CRLF @ w = trailer_wire (l # ts)"
    "(if surfaced l then [l] else []) @ t = filter surfaced (l # ts)" "p = []"
    by (auto simp: trailers_ok_def trailer_wire_def)
  then show ?thesis unfolding spells_def State.case by blast
qed

lemma drop_take_split:
  "c \<le> k \<Longrightarrow> k \<le> e \<Longrightarrow> drop c (take e b) = take (k - c) (drop c b) @ drop k (take e b)"
  using append_take_drop_id [of "k - c" "drop c (take e b)"] by (simp add: drop_take min_absorb1 diff_le_mono)

lemma line_split:
  assumes "find_crlf (drop c b) m = At i" "c + i + 2 \<le> e"
  shows "drop c (take e b) = take i (drop c b) @ CRLF @ drop (c + i + 2) (take e b)"
proof -
  have "take (i + 2) (drop c b) = take i (drop c b) @ take 2 (drop i (drop c b))"
    by (rule take_add)
  also have "take 2 (drop i (drop c b)) = CRLF"
    using find_crlf_At [OF assms(1)] by (simp add: numeral_2_eq_2)
  finally show ?thesis
    using drop_take_split [of c "c + i + 2" e b] assms(2) by simp
qed

lemma size_turn_Continue:
  assumes "size_turn r s = Continue s' q u"
  obtains i n where "find_crlf r CHUNK_LINE_MAX = At i" "\<not> line_has_bare_crlf (take i r)"
    "parse_size_line (take i r) = Some n" "q = None" "u = None"
    "s' = s\<lparr>consumed := consumed s + i + 2, state := (if n = 0 then Trailer else Data n)\<rparr>"
  using assms by (auto simp: size_turn_def split: Find.splits if_splits option.splits)

lemma trailer_turn_Continue:
  assumes "trailer_turn r s = Continue s' q u"
  obtains i where "find_crlf r TRAILER_LINE_MAX = At i" "\<not> line_has_bare_crlf (take i r)"
    "trailer_bytes s + i + 2 \<le> TRAILER_MAX" "take i r = []" "q = None" "u = None"
    "s' = s\<lparr>trailer_bytes := trailer_bytes s + i + 2, consumed := consumed s + i + 2, state := Done\<rparr>"
  | i where "find_crlf r TRAILER_LINE_MAX = At i" "\<not> line_has_bare_crlf (take i r)"
    "trailer_bytes s + i + 2 \<le> TRAILER_MAX" "take i r \<noteq> []" "split_trailer (take i r) \<noteq> None" "q = None"
    "u = (if surfaced (take i r) then Some (consumed s, consumed s + i) else None)"
    "s' = s\<lparr>trailer_bytes := trailer_bytes s + i + 2, consumed := consumed s + i + 2\<rparr>"
  using assms
  by (auto simp: trailer_turn_def Let_def surfaced_def split: Find.splits if_splits option.splits prod.splits)

lemma turn_spells:
  assumes turn: "run_turn body s = Continue s' q u"
    and IH: "spells (state s') (trailer_bytes s') (drop (consumed s') (take e body)) p t"
    and e: "consumed s' \<le> e"
  shows "spells (state s) (trailer_bytes s) (drop (consumed s) (take e body))
    (concat (cut_opt body q) @ p) (cut_opt body u @ t)"
proof -
  let ?c = "consumed s" and ?r = "drop (consumed s) body"
  have g: "get_from body ?c = Some ?r" using turn_Continue [OF turn] by (simp add: get_from_def)
  show ?thesis
  proof (cases "state s")
    case Size
    with turn g have "size_turn ?r s = Continue s' q u" by (simp add: run_turn_def)
    then obtain i n where t: "find_crlf ?r CHUNK_LINE_MAX = At i" "\<not> line_has_bare_crlf (take i ?r)"
      "parse_size_line (take i ?r) = Some n" "q = None" "u = None"
      "s' = s\<lparr>consumed := ?c + i + 2, state := (if n = 0 then Trailer else Data n)\<rparr>"
      by (rule size_turn_Continue)
    then have "clean_line CHUNK_LINE_MAX (take i ?r)"
      using find_crlf_At [OF t(1)] by (simp add: clean_line_def)
    with t IH e Size spells_size [of "take i ?r" n "trailer_bytes s" "drop (?c + i + 2) (take e body)" p t]
    show ?thesis by (simp add: line_split [OF t(1)] cut_opt_def)
  next
    case (Data n)
    with turn g have "data_turn ?r n s = Continue s' q u" by (simp add: run_turn_def)
    then have d: "n \<le> length ?r" "consumed s' = ?c + n" "state s' = DataCrlf" "trailer_bytes s' = trailer_bytes s"
      "concat (cut_opt body q) = take n ?r" "u = None"
      by (auto simp: data_turn_def Let_def cut_opt_def cut_def slice_def split: if_splits)
    with IH obtain w' where "drop (?c + n) (take e body) = CRLF @ w'" "message_spells (trailer_bytes s) w' p t"
      by (auto simp: spells_def)
    moreover from d e have "drop ?c (take e body) = take n ?r @ drop (?c + n) (take e body)"
      using drop_take_split [of ?c "?c + n" e body] by simp
    ultimately show ?thesis
      using d unfolding spells_def Data State.case
      by (intro exI [of _ "take n ?r"] exI [of _ p] exI [of _ w']) (simp add: cut_opt_def)
  next
    case DataCrlf
    with turn g have "crlf_turn ?r s = Continue s' q u" by (simp add: run_turn_def)
    then have d: "take 2 ?r = CRLF" "consumed s' = ?c + 2" "state s' = Size" "trailer_bytes s' = trailer_bytes s"
      "q = None" "u = None"
      by (auto simp: crlf_turn_def split: if_splits)
    with IH e DataCrlf drop_take_split [of ?c "?c + 2" e body] show ?thesis
      by (simp add: spells_def cut_opt_def)
  next
    case Trailer
    with turn g have "trailer_turn ?r s = Continue s' q u" by (simp add: run_turn_def)
    then show ?thesis
    proof (cases rule: trailer_turn_Continue)
      case (1 i)
      from 1(4) have "i = 0" using find_crlf_At [OF 1(1)] by auto
      with 1 IH e line_split [OF 1(1), of e] have w: "drop ?c (take e body) = CRLF" "p = []" "t = []"
        by (auto simp: spells_def)
      have "trailers_ok (trailer_bytes s) []" "CRLF = trailer_wire []"
        using 1(3) by (simp_all add: trailers_ok_def trailer_wire_def)
      with 1 w show ?thesis
        unfolding spells_def Trailer State.case by (auto simp: cut_opt_def)
    next
      case (2 i)
      have i: "i \<le> TRAILER_LINE_MAX" "i \<le> length ?r" using find_crlf_At [OF 2(1)] by auto
      with 2 have l: "trailer_ok (take i ?r)" by (simp add: trailer_ok_def clean_line_def)
      have "cut_opt body u = (if surfaced (take i ?r) then [take i ?r] else [])"
        using 2(7) by (simp add: cut_opt_def cut_def slice_def)
      with 2 i IH e Trailer
        spells_trailer [OF l, of "trailer_bytes s" "drop (?c + i + 2) (take e body)" p t]
      show ?thesis by (simp add: line_split [OF 2(1)] cut_opt_def)
    qed
  next
    case Done
    with turn show ?thesis by (simp add: run_turn_def)
  qed
qed

lemma outcome_sound:
  assumes "outcome body s = (Inr (Some e), s', p, t)" "consumed s \<le> length body"
  shows "consumed s \<le> e \<and> e \<le> length body \<and>
    spells (state s) (trailer_bytes s) (drop (consumed s) (take e body)) p t"
  using assms
proof (induction body s arbitrary: p t rule: run.induct)
  case (1 body s)
  show ?case
  proof (cases "run_turn body s")
    case (Return r s1 q)
    with 1(2) have "run_turn body s = Return (Inr (Some e)) s1 q" by (simp add: outcome_rec [of body s])
    then have "state s = Done" "e = consumed s" "q = None"
      by (auto simp: run_turn_def size_turn_def data_turn_def crlf_turn_def trailer_turn_def Let_def
          split: if_splits option.splits State.splits Find.splits prod.splits)
    with 1(2,3) Return show ?thesis by (simp add: outcome_rec [of body s] spells_def cut_opt_def)
  next
    case (Continue s1 q u)
    with 1(2) obtain p' t' where o: "outcome body s1 = (Inr (Some e), s', p', t')"
      "p = concat (cut_opt body q) @ p'" "t = cut_opt body u @ t'"
      by (auto simp: outcome_rec [of body s] prepend_eq)
    note c = turn_Continue [OF Continue]
    have "consumed s1 \<le> e \<and> e \<le> length body \<and>
        spells (state s1) (trailer_bytes s1) (drop (consumed s1) (take e body)) p' t'"
      using 1(1) [OF Continue o(1)] c by simp
    with c o(2,3) turn_spells [OF Continue, of e p' t'] show ?thesis by simp
  qed
qed

lemma outcome_iff:
  "(\<exists>s'. outcome body ChunkScan_default = (Inr (Some e), s', p, t)) \<longleftrightarrow>
     e \<le> length body \<and> message_spells 0 (take e body) p t"
proof
  assume "\<exists>s'. outcome body ChunkScan_default = (Inr (Some e), s', p, t)"
  then show "e \<le> length body \<and> message_spells 0 (take e body) p t"
    using outcome_sound [of body ChunkScan_default e _ p t] by (auto simp: ChunkScan_default_def spells_def)
next
  assume m: "e \<le> length body \<and> message_spells 0 (take e body) p t"
  then obtain cs l ts where "message_ok 0 cs l ts" "take e body = message_wire cs l ts"
    "p = concat (map snd cs)" "t = filter surfaced ts"
    by (auto simp: message_spells_def)
  moreover from this m have "body = [] @ message_wire cs l ts @ drop e body" "length (message_wire cs l ts) = e"
    by (metis append_Nil append_take_drop_id, metis length_take min.absorb2)
  ultimately show "\<exists>s'. outcome body ChunkScan_default = (Inr (Some e), s', p, t)"
    using outcome_message [of body "[]" cs l ts "drop e body" ChunkScan_default]
    by (simp add: ChunkScan_default_def)
qed

section \<open>Chunk sizes\<close>

definition hex_val :: "bytes \<Rightarrow> nat" where
  "hex_val ds = fold (\<lambda>b n. n * 16 + unat (the (hex_digit b))) ds 0"

lemma hex_digit_Some: "(\<exists>d. hex_digit b = Some d) \<longleftrightarrow> is_ascii_hexdigit b"
  by (auto simp: hex_digit_def is_ascii_hexdigit_def is_ascii_digit_def)

lemma fold_hex_ge: "n \<le> fold (\<lambda>b n. n * 16 + unat (the (hex_digit b))) ds (n :: nat)"
proof (induction ds arbitrary: n)
  case Nil
  then show ?case by simp
next
  case (Cons b ds)
  have "n \<le> n * 16 + unat (the (hex_digit b))" by simp
  also have "\<dots> \<le> fold (\<lambda>b n. n * 16 + unat (the (hex_digit b))) ds (n * 16 + unat (the (hex_digit b)))" by (rule Cons)
  finally show ?case by simp
qed

lemma size_loop_eq:
  assumes "n < usize_bound"
  shows "size_loop line k n =
    (let ds = takeWhile is_ascii_hexdigit line; m = fold (\<lambda>b n. n * 16 + unat (the (hex_digit b))) ds n
     in if m < usize_bound then Some (k + length ds, m) else None)"
  using assms
proof (induction line arbitrary: k n)
  case Nil
  then show ?case by simp
next
  case (Cons b line)
  show ?case
  proof (cases "hex_digit b")
    case None
    then have "\<not> is_ascii_hexdigit b" using hex_digit_Some [of b] by auto
    with None Cons.prems show ?thesis by simp
  next
    case (Some d)
    then have hex: "is_ascii_hexdigit b" using hex_digit_Some [of b] by auto
    show ?thesis
    proof (cases "n * 16 + unat d < usize_bound")
      case True
      then have "n * 16 < usize_bound" by linarith
      with True Some hex Cons.IH [OF True, of "k + 1"] show ?thesis
        by (simp add: checked_mul_def checked_add_def Let_def)
    next
      case False
      have "size_loop (b # line) k n = None"
        using False Some by (auto simp: checked_mul_def checked_add_def Option.bind_eq_None_conv)
      moreover have "\<not> fold (\<lambda>b n. n * 16 + unat (the (hex_digit b))) (takeWhile is_ascii_hexdigit line) (n * 16 + unat d) < usize_bound"
        using False fold_hex_ge [of "n * 16 + unat d" "takeWhile is_ascii_hexdigit line"] by linarith
      ultimately show ?thesis using Some hex by (simp add: Let_def)
    qed
  qed
qed

text \<open>
  A chunk size never wraps: a size line is accepted iff it starts with at least one hex digit,
  the number its leading hex digits denote is below \<open>2 ^ 64\<close>, and what follows is, after optional
  whitespace, nothing or an extension; the size is then that number.
\<close>

theorem parse_size_line_exact:
  "parse_size_line line =
     (let ds = takeWhile is_ascii_hexdigit line;
          rest = dropWhile (\<lambda>b. b = SP \<or> b = HT) (dropWhile is_ascii_hexdigit line)
      in if ds \<noteq> [] \<and> hex_val ds < 2 ^ 64 \<and> (rest = [] \<or> hd rest = 0x3B) then Some (hex_val ds) else None)"
proof -
  define ds where "ds = takeWhile is_ascii_hexdigit line"
  define rest where "rest = dropWhile (\<lambda>b. b = SP \<or> b = HT) (dropWhile is_ascii_hexdigit line)"
  have "trim_ows_start (drop (length ds) line) = rest"
    by (simp add: trim_ows_start_def rest_def ds_def dropWhile_eq_drop)
  moreover have "size_loop line 0 0 = (if hex_val ds < 2 ^ 64 then Some (length ds, hex_val ds) else None)"
    using size_loop_eq [of 0 line 0] by (simp add: Let_def hex_val_def ds_def usize_bound_def)
  ultimately show ?thesis
    unfolding ds_def [symmetric] rest_def [symmetric] Let_def parse_size_line_def by (cases rest) simp_all
qed

section \<open>The decoder, the compactor and the walker agree\<close>

definition trailer_field :: "bytes \<Rightarrow> HeaderView" where
  "trailer_field l = (case split_trailer l of Some (n, v) \<Rightarrow> \<lparr>hname = n, hvalue = v\<rparr>
     | None \<Rightarrow> \<lparr>hname = [], hvalue = []\<rparr>)"

lemma is_token_byte_ascii: "is_token_byte b \<Longrightarrow> b < 0x80"
  unfolding is_token_byte_def ascii_defs
  by (elim disjE conjE) (auto simp: word_le_nat_alt word_less_nat_alt)

lemma split_trailer_name:
  assumes "split_trailer l = Some (n, v)"
  shows "list_all is_token_byte n \<and> n \<noteq> [] \<and> \<not> has_field_break v"
  using assms
  by (auto simp: split_trailer_def Let_def Option.bind_eq_Some_conv dest!: position_Some split: if_splits)

lemma trailer_views_surfaced: "trailer_views (filter surfaced ts) = Inr (map trailer_field (filter surfaced ts))"
proof -
  have "(case split_trailer l of None \<Rightarrow> Inl () | Some (n, v) \<Rightarrow>
      (case from_utf8 n of None \<Rightarrow> Inl () | Some n \<Rightarrow> Inr \<lparr>hname = n, hvalue = v\<rparr>)) = Inr (trailer_field l)"
    if l: "surfaced l" for l
  proof -
    from l obtain n v where s: "split_trailer l = Some (n, v)"
      by (auto simp: surfaced_def split: option.splits)
    then have "from_utf8 n = Some n"
      using split_trailer_name [OF s] is_token_byte_ascii
      by (auto simp: from_utf8_def list_all_iff intro!: utf8_valid_ascii)
    with s show ?thesis by (simp add: trailer_field_def)
  qed
  then show ?thesis
    unfolding trailer_views_def by (induction ts) simp_all
qed

lemma entity_bytes_foldl: "entity_bytes (foldl entity_add e ps) = entity_bytes e @ concat ps"
proof (induction ps arbitrary: e)
  case (Cons p ps)
  then show ?case by (cases e) simp_all
qed simp

lemma decode_outcome:
  "decode w = (case outcome w ChunkScan_default of (r, _, p, t) \<Rightarrow>
     if r = Inr (Some (length w)) then bind_res (trailer_views t) (\<lambda>ts. Inr (p, ts)) else Inl ())"
  by (simp add: decode_def outcome_def entity_bytes_foldl split: prod.splits)

lemma decode_message:
  assumes "message_spells 0 w p t"
  shows "decode w = Inr (p, map trailer_field t)"
proof -
  from assms obtain s' where "outcome w ChunkScan_default = (Inr (Some (length w)), s', p, t)"
    using outcome_iff [of w "length w" p t] by auto
  moreover from assms obtain ts where "t = filter surfaced ts" by (auto simp: message_spells_def)
  ultimately show ?thesis by (simp add: decode_outcome trailer_views_surfaced)
qed

lemma decode_Inr:
  assumes "decode w = Inr d"
  obtains p t where "message_spells 0 w p t"
proof -
  from assms obtain s' p t where "outcome w ChunkScan_default = (Inr (Some (length w)), s', p, t)"
    by (auto simp: decode_outcome split: prod.splits if_splits)
  then have "message_spells 0 (take (length w) w) p t" using outcome_iff [of w "length w" p t] by blast
  with that show thesis by simp
qed

text \<open>
  C10. The decoder accepts exactly the chunked messages of RFC 9112 within the line and trailer caps
  and returns their meaning: the wire is a sequence of chunks, each a size line without bare CR or
  LF that gives the length of its non-empty payload, a last-chunk line of size zero and trailer
  lines; the entity is the payloads joined, and the fields are the trailer lines in order without
  those that name framing, routing or credential fields.
\<close>

theorem decode_grammar:
  "decode w = Inr (entity, hs) \<longleftrightarrow>
     (\<exists>cs l ts. message_ok 0 cs l ts \<and> w = message_wire cs l ts
        \<and> entity = concat (map snd cs) \<and> hs = map trailer_field (filter surfaced ts))"
proof
  assume d: "decode w = Inr (entity, hs)"
  then obtain p t where m: "message_spells 0 w p t" by (rule decode_Inr)
  with d decode_message [OF m] show "\<exists>cs l ts. message_ok 0 cs l ts \<and> w = message_wire cs l ts
        \<and> entity = concat (map snd cs) \<and> hs = map trailer_field (filter surfaced ts)"
    by (auto simp: message_spells_def)
next
  assume "\<exists>cs l ts. message_ok 0 cs l ts \<and> w = message_wire cs l ts
        \<and> entity = concat (map snd cs) \<and> hs = map trailer_field (filter surfaced ts)"
  then have "\<exists>t. message_spells 0 w entity t \<and> hs = map trailer_field t"
    unfolding message_spells_def by blast
  then show "decode w = Inr (entity, hs)" using decode_message by blast
qed

text \<open>
  The framer's scan and the glue's decoder agree about where a message ends: the scan gives the
  extent \<open>n\<close> exactly when the first \<open>n\<close> received bytes are a message the decoder accepts, whatever
  follows them in the buffer.
\<close>

theorem scan_extent_decodes:
  "fst (scan body ChunkScan_default) = Inr (Some n) \<longleftrightarrow>
     n \<le> length body \<and> (\<exists>d. decode (take n body) = Inr d)"
proof -
  have "fst (scan body ChunkScan_default) = Inr (Some n) \<longleftrightarrow>
      (\<exists>p t s'. outcome body ChunkScan_default = (Inr (Some n), s', p, t))"
    by (auto simp: scan_outcome split: prod.splits)
  also have "\<dots> \<longleftrightarrow> n \<le> length body \<and> (\<exists>p t. message_spells 0 (take n body) p t)"
    using outcome_iff by blast
  also have "\<dots> \<longleftrightarrow> n \<le> length body \<and> (\<exists>d. decode (take n body) = Inr d)"
    using decode_message decode_Inr by (metis (no_types))
  finally show ?thesis .
qed

subsection \<open>Compaction in place\<close>

fun chained :: "nat \<Rightarrow> nat \<Rightarrow> range list \<Rightarrow> bool" where
  "chained lo hi [] \<longleftrightarrow> True"
| "chained lo hi (r # rs) \<longleftrightarrow> lo \<le> fst r \<and> fst r \<le> snd r \<and> snd r \<le> hi \<and> chained (snd r) hi rs"

lemma chained_mono: "chained lo hi rs \<Longrightarrow> lo' \<le> lo \<Longrightarrow> chained lo' hi rs"
  by (cases rs) auto

lemma turn_payload:
  "run_turn body s = Continue s' (Some r) t \<Longrightarrow> fst r = consumed s \<and> snd r = consumed s'"
  "run_turn body s = Return v s' (Some r) \<Longrightarrow> fst r = consumed s \<and> fst r \<le> snd r"
  by (auto simp: run_turn_def size_turn_def data_turn_def crlf_turn_def trailer_turn_def Let_def
      split: State.splits if_splits Find.splits option.splits prod.splits)

lemma run_chained: "run body s = (r, s', ps, ts) \<Longrightarrow> chained (consumed s) (length body) ps"
proof (induction body s arbitrary: ps ts rule: run.induct)
  case (1 body s)
  show ?case
  proof (cases "run_turn body s")
    case (Return v s1 q)
    with 1(2) have "ps = pushed q []" by (simp add: run.simps [of body s])
    with Return turn_payload(2) [of body s v s1] turn_ranges(3) [of body s v s1] show ?thesis
      by (cases q) (auto simp: pushed_def)
  next
    case (Continue s1 q u)
    with 1(2) obtain ps' ts' where o: "run body s1 = (r, s', ps', ts')" "ps = pushed q ps'"
      by (auto simp: run.simps [of body s] split: prod.splits)
    have IH: "chained (consumed s1) (length body) ps'" using 1(1) [OF Continue o(1)] .
    note c = turn_Continue [OF Continue]
    show ?thesis
    proof (cases q)
      case None
      with IH c o(2) show ?thesis by (simp add: pushed_def chained_mono)
    next
      case (Some r)
      with turn_payload(1) [of body s s1 r u] Continue IH c o(2) show ?thesis by (simp add: pushed_def)
    qed
  qed
qed

lemma compact_spans_eq:
  assumes "chained e (length w0) rs" "length w = length w0" "drop e w = drop e w0" "e \<le> length w0"
  shows "\<exists>w' e'. compact_spans w rs e = Some (w', e') \<and> e \<le> e' \<and> length w' = length w0
    \<and> take e' w' = take e w @ concat (map (cut w0) rs)"
  using assms
proof (induction rs arbitrary: w e)
  case Nil
  then show ?case by simp
next
  case (Cons r rs)
  let ?n = "snd r - fst r"
  have r: "e \<le> fst r" "fst r \<le> snd r" "snd r \<le> length w0" "chained (snd r) (length w0) rs" using Cons.prems(1) by auto
  have cut: "cut w r = cut w0 r"
  proof -
    have "drop (fst r) w = drop (fst r) w0"
      using Cons.prems(3) r(1) by (metis drop_drop le_add_diff_inverse2)
    then show ?thesis by (simp add: cut_def slice_def)
  qed
  have len: "length (cut w0 r) = ?n" using r by (simp add: cut_def slice_def)
  let ?w = "take e w @ cut w0 r @ drop (e + ?n) w"
  have copy: "copy_within w r e = Some ?w"
    using r Cons.prems(2) cut by (simp add: copy_within_def)
  have "\<exists>w' e'. compact_spans ?w rs (e + ?n) = Some (w', e') \<and> e + ?n \<le> e' \<and> length w' = length w0
      \<and> take e' w' = take (e + ?n) ?w @ concat (map (cut w0) rs)"
  proof (rule Cons.IH)
    show "chained (e + ?n) (length w0) rs" using r by (intro chained_mono [OF r(4)]) simp
    show "length ?w = length w0" using r Cons.prems(2) len by simp
    have "drop (e + ?n) ?w = drop (e + ?n) w" using len r Cons.prems(2) by simp
    also have "\<dots> = drop (e + ?n) w0" using Cons.prems(3) by (metis add.commute drop_drop)
    finally show "drop (e + ?n) ?w = drop (e + ?n) w0" .
    show "e + ?n \<le> length w0" using r by simp
  qed
  moreover have "take (e + ?n) ?w = take e w @ cut w0 r"
    using len r Cons.prems(2) by simp
  ultimately show ?case using copy by auto
qed

text \<open>What a caller of \<^verbatim>\<open>compact\<close> reads: the entity where it now lies, and the trailer views.\<close>

definition compact_view :: "bytes \<Rightarrow> (unit + bytes \<times> HeaderView list) option" where
  "compact_view w = map_option (\<lambda>r. case r of Inl u \<Rightarrow> Inl u
     | Inr (c, w') \<Rightarrow> bind_res (trailers c) (\<lambda>ts. Inr (slice w' (start c) (start c + len c), ts))) (compact w)"

text \<open>
  C12. Compacting in place is decoding: on every buffer \<open>compact\<close> returns without an out-of-range move,
  it fails exactly when \<open>decode\<close> fails, and the span it reports holds the decoded entity after its
  overlapping moves, with the same trailer fields.
\<close>

theorem compact_decodes: "compact_view w = Some (decode w)"
proof -
  obtain r s' ps ts where run: "run w ChunkScan_default = (r, s', ps, ts)" by (metis prod_cases4)
  show ?thesis
  proof (cases "r = Inr (Some (length w)) \<and> ps \<noteq> []")
    case True
    then obtain h rs where ps: "ps = h # rs" by (cases ps) auto
    have ch: "chained 0 (length w) (h # rs)"
      using run_chained [OF run] ps by (simp add: ChunkScan_default_def)
    then obtain w' e' where c: "compact_spans w rs (snd h) = Some (w', e')" "snd h \<le> e'" "length w' = length w"
      "take e' w' = take (snd h) w @ concat (map (cut w) rs)"
      using compact_spans_eq [of "snd h" w rs w] by auto
    have "slice w' (fst h) e' = drop (fst h) (take e' w')" by (simp add: slice_def drop_take)
    also have "\<dots> = cut w h @ concat (map (cut w) rs)"
      using c(4) ch by (simp add: cut_def slice_def drop_take)
    finally have "slice w' (fst h) (fst h + (e' - fst h)) = concat (map (cut w) ps)"
      using c(2) ch ps by simp
    with True run ps c show ?thesis
      by (simp add: compact_view_def compact_def decode_def trailers_def entity_bytes_foldl)
  next
    case False
    with run show ?thesis
      by (auto simp: compact_view_def compact_def decode_def trailers_def slice_def)
  qed
qed

subsection \<open>One chunk at a time\<close>

lemma step_locate_stable:
  assumes more: "step_locate xs i \<noteq> More" and i: "i \<le> length xs"
  shows "step_locate (xs @ ys) i = step_locate xs i"
proof (cases "find_crlf (drop i xs) CHUNK_LINE_MAX")
  case (At nl)
  have ext: "find_crlf (drop i xs @ ys) CHUNK_LINE_MAX = At nl"
    using find_crlf_extend [of "drop i xs" CHUNK_LINE_MAX ys] At by simp
  have nl: "take nl (drop i xs @ ys) = take nl (drop i xs)" using find_crlf_At [OF At] by simp
  have drop: "drop i (xs @ ys) = drop i xs @ ys" using i by simp
  have "fst (scan (drop i xs @ ys) ChunkScan_default) = fst (scan (drop i xs) ChunkScan_default)"
    if "\<not> line_has_bare_crlf (take nl (drop i xs))" "parse_size_line (take nl (drop i xs)) = Some 0"
    using more that At by (intro chunk_scan.decided_stable) (auto simp: step_locate_def)
  then show ?thesis
    unfolding step_locate_def Let_def drop ext At Find.case nl by (auto split: option.splits)
qed (use more i find_crlf_extend [of "drop i xs" CHUNK_LINE_MAX ys] in \<open>simp_all add: step_locate_def\<close>)

lemma step_stable:
  assumes "step xs ap \<noteq> More"
  shows "step (xs @ ys) ap = step xs ap"
proof (cases "take 2 xs = CRLF \<or> \<not> ap")
  case True
  then have "ap \<Longrightarrow> 2 \<le> length xs" by (auto dest: arg_cong [where f = length])
  with True assms step_locate_stable [of xs _ ys] show ?thesis by (auto simp: step_def)
next
  case False
  with assms have ne: "xs \<noteq> []" "xs \<noteq> [CR]" by (auto simp: step_def)
  then have "take 2 (xs @ ys) \<noteq> CRLF" "xs @ ys \<noteq> [CR]"
    using False by (cases xs; cases "tl xs"; auto simp: numeral_2_eq_2)+
  with False ne show ?thesis by (simp add: step_def)
qed

interpretation chunk_step: incremental "\<lambda>b. step b after_payload" "\<lambda>v. v = More" for after_payload
  by unfold_locales (rule step_stable)

text \<open>A caller that has all the bytes and takes one chunk after the other: the payload and the extent.\<close>

function walk :: "bytes \<Rightarrow> bool \<Rightarrow> (bytes \<times> nat) option" where
  "walk buf after_payload =
     (case step buf after_payload of
        Chunk framing payload \<Rightarrow>
          if framing + payload \<le> length buf \<and> 0 < framing then
            map_option (\<lambda>(p, e). (take payload (drop framing buf) @ p, framing + payload + e))
              (walk (drop (framing + payload) buf) True)
          else None
      | Last framing \<Rightarrow> Some ([], framing)
      | _ \<Rightarrow> None)"
  by pat_completeness auto

termination walk
  by (relation "measure (\<lambda>(buf, _). length buf)") auto

declare walk.simps [simp del]

lemma step_locate_chunk:
  assumes "chunk_ok c" "length pre = off"
  shows "step_locate (pre @ chunk_wire c @ rest) off = Chunk (off + length (fst c) + 2) (length (snd c))"
proof -
  have "find_crlf (fst c @ CR # LF # (snd c @ CRLF @ rest)) CHUNK_LINE_MAX = At (length (fst c))"
    using assms(1) by (intro find_crlf_line) (auto simp: chunk_ok_def clean_line_def)
  with assms show ?thesis
    by (simp add: step_locate_def chunk_wire_def chunk_ok_def clean_line_def)
qed

lemma step_locate_last:
  assumes "message_ok 0 [] l ts" "length pre = off"
  shows "step_locate (pre @ message_wire [] l ts @ post) off = Last (off + length (message_wire [] l ts))"
proof -
  let ?m = "message_wire [] l ts @ post"
  have "find_crlf (l @ CR # LF # (trailer_wire ts @ post)) CHUNK_LINE_MAX = At (length l)"
    using assms(1) by (intro find_crlf_line) (auto simp: message_ok_def clean_line_def)
  moreover obtain s' where "outcome ?m ChunkScan_default =
      (Inr (Some (length (message_wire [] l ts))), s', [], filter surfaced ts)"
    using outcome_message [of ?m "[]" "[]" l ts post ChunkScan_default] assms(1)
    by (auto simp: ChunkScan_default_def)
  then have "fst (scan ?m ChunkScan_default) = Inr (Some (length (message_wire [] l ts)))"
    by (simp add: scan_outcome)
  ultimately show ?thesis
    using assms by (simp add: step_locate_def message_ok_def clean_line_def message_wire_def)
qed

lemma step_locate_step: "step ((if ap then CRLF else []) @ w) ap = step_locate ((if ap then CRLF else []) @ w) (if ap then 2 else 0)"
  by (simp add: step_def)

lemma walk_message:
  assumes "message_ok 0 cs l ts"
  shows "walk ((if ap then CRLF else []) @ message_wire cs l ts @ post) ap =
    Some (concat (map snd cs), (if ap then 2 else 0) + length (message_wire cs l ts))"
  using assms
proof (induction cs arbitrary: ap)
  case Nil
  let ?pre = "if ap then CRLF else []"
  have "step (?pre @ message_wire [] l ts @ post) ap = Last ((if ap then 2 else 0) + length (message_wire [] l ts))"
    unfolding step_locate_step by (rule step_locate_last) (use Nil in auto)
  then show ?case by (subst walk.simps) simp
next
  case (Cons c cs)
  let ?pre = "if ap then CRLF else []" and ?off = "if ap then 2 else 0 :: nat"
  let ?buf = "?pre @ chunk_wire c @ message_wire cs l ts @ post"
  have c: "chunk_ok c" and cs: "message_ok 0 cs l ts" using Cons.prems by (auto simp: message_ok_def)
  have s: "step ?buf ap = Chunk (?off + length (fst c) + 2) (length (snd c))"
    unfolding step_locate_step by (rule step_locate_chunk [OF c]) simp
  have buf: "?buf = (?pre @ fst c @ CRLF) @ snd c @ CRLF @ message_wire cs l ts @ post"
    by (simp add: chunk_wire_def)
  have len: "?off + length (fst c) + 2 = length (?pre @ fst c @ CRLF)" by simp
  have "walk ?buf ap = Some (snd c @ concat (map snd cs),
      ?off + length (fst c) + 2 + length (snd c) + (2 + length (message_wire cs l ts)))"
    using Cons.IH [OF cs, of True] unfolding buf
    by (subst walk.simps, subst s [unfolded buf], subst (asm) if_P) (simp_all add: len)
  then show ?case by (simp add: message_wire_def chunk_wire_def)
qed

text \<open>
  Streaming a body chunk by chunk sees the entity the decoder sees: on a buffer that starts with
  a message the decoder accepts, the walk that locates one payload after the other ends, its
  payloads joined are the decoded entity, and it ends at the last byte of the message.
\<close>

theorem walk_decodes:
  assumes "decode w = Inr (entity, hs)"
  shows "walk (w @ post) False = Some (entity, length w)"
proof -
  obtain p t where m: "message_spells 0 w p t" using decode_Inr [OF assms] .
  then obtain cs l ts where "message_ok 0 cs l ts" "w = message_wire cs l ts" "p = concat (map snd cs)"
    by (auto simp: message_spells_def)
  with walk_message [of cs l ts False post] decode_message [OF m] assms show ?thesis by simp
qed

definition sample_wire :: bytes where
  "sample_wire = s2b ''4;x=1'' @ CRLF @ s2b ''Wiki'' @ CRLF @ s2b ''3'' @ CRLF @ s2b ''ped'' @ CRLF
     @ s2b ''0'' @ CRLF @ s2b ''ETag: abc'' @ CRLF @ s2b ''Host: x'' @ CRLF @ CRLF"

lemma decode_sample: "decode sample_wire = Inr (s2b ''Wikiped'', [\<lparr>hname = s2b ''ETag'', hvalue = s2b ''abc''\<rparr>])"
  by code_simp

theorem walk_decodes_witness:
  "walk (sample_wire @ s2b ''GET'') False = Some (s2b ''Wikiped'', length sample_wire)"
  using walk_decodes [OF decode_sample] .

end
