(* ===== verification/Net_Framing.thy ===== *)
theory Net_Framing
  imports Tn_Error
begin

text \<open>
  The framing interface of the reactor (\<^verbatim>\<open>src/net/core/protocol.rs\<close>, \<^verbatim>\<open>src/net/core/reactor/io.rs\<close>):
  a framer's verdict, the pump's decision \<open>frame_step\<close> on it, the reusable length-prefix framer and
  the body a handler receives. The locale \<open>framer\<close> states what the pump needs of a framer.
\<close>

section \<open>Verdicts and steps\<close>

definition RECV_CHUNK :: nat where "RECV_CHUNK = 4096"

datatype Framing =
    Need nat | NeedInMessage nat | More | MoreInMessage
  | Complete nat nat | SpliceBody nat nat int | Invalid

datatype CloseReason =
    PeerClosed | TruncatedMessage | Malformed | TooLarge | HandlerClosed | WorkerClosed | PushClosed
  | IdleTimeout | RequestTimeout | ReceiptTimeout | SendTimeout | ShuttingDown | SendBacklog
  | RecvError errno | SendError errno | FileBody errno | FileBodyTruncated | TlsControl
  | SpliceBadFd | SpliceFdInUse | SpliceUnbounded

datatype FrameStep =
    Close CloseReason
  | ReadHeader (want: nat) (exact: bool) (in_message: bool)
  | ReadBody (want: nat) (rb_header: nat) (rb_body: nat) (place: bool)
  | Deliver nat nat
  | SpliceStep nat nat int

definition need_step :: "nat \<Rightarrow> nat \<Rightarrow> nat \<Rightarrow> bool \<Rightarrow> FrameStep" where
  "need_step n buffered max_request_bytes in_msg =
     (if n = 0 then Close Malformed
      else case checked_add buffered n of
          Some tot \<Rightarrow> if tot \<le> max_request_bytes then ReadHeader n True in_msg else Close TooLarge
        | None \<Rightarrow> Close TooLarge)"

definition frame_step :: "Framing \<Rightarrow> nat \<Rightarrow> nat \<Rightarrow> nat option \<Rightarrow> FrameStep" where
  "frame_step verdict buffered max_request_bytes body_placement_threshold =
     (case verdict of
        Invalid \<Rightarrow> Close Malformed
      | Need n \<Rightarrow> need_step n buffered max_request_bytes False
      | NeedInMessage n \<Rightarrow> need_step n buffered max_request_bytes True
      | More \<Rightarrow> ReadHeader RECV_CHUNK False False
      | MoreInMessage \<Rightarrow> ReadHeader RECV_CHUNK False True
      | Complete header_len body_len \<Rightarrow>
          (case checked_add header_len body_len of
             None \<Rightarrow> Close TooLarge
           | Some tot \<Rightarrow>
               if tot = 0 then Close Malformed
               else if tot > max_request_bytes then Close TooLarge
               else if buffered \<ge> tot then Deliver header_len body_len
               else ReadBody (tot - buffered) header_len body_len
                 (buffered \<ge> header_len \<and>
                  (case body_placement_threshold of Some t \<Rightarrow> body_len \<ge> t | None \<Rightarrow> False)))
      | SpliceBody header_len body_len fd \<Rightarrow>
          if header_len = 0 \<or> body_len = 0 then Close Malformed
          else if header_len > max_request_bytes then Close TooLarge
          else if checked_add header_len body_len = None then Close TooLarge
          else if buffered \<noteq> header_len then Close Malformed
          else SpliceStep header_len body_len fd)"

definition recv_pool_buf_len :: "nat \<Rightarrow> nat \<Rightarrow> nat" where
  "recv_pool_buf_len buffer_bytes max_request_bytes =
     saturating_add (min buffer_bytes max_request_bytes) RECV_CHUNK"

section \<open>Length prefixes\<close>

datatype PrefixWidth = U8 | U16 | U32 | U64

fun PrefixWidth_bytes :: "PrefixWidth \<Rightarrow> nat" where
  "PrefixWidth_bytes U8 = 1"
| "PrefixWidth_bytes U16 = 2"
| "PrefixWidth_bytes U32 = 4"
| "PrefixWidth_bytes U64 = 8"

datatype Endian = Big | Little

fun read_little :: "nat \<Rightarrow> bytes \<Rightarrow> u64 \<Rightarrow> u64" where
  "read_little i [] v = v"
| "read_little i (b # bs) v = read_little (i + 1) bs (v OR push_bit (8 * i) (ucast b))"

definition read_prefix :: "bytes \<Rightarrow> PrefixWidth \<Rightarrow> Endian \<Rightarrow> u64" where
  "read_prefix header width endian =
     (case endian of
        Big \<Rightarrow> fold (\<lambda>b v. push_bit 8 v OR ucast b) (take (PrefixWidth_bytes width) header) 0
      | Little \<Rightarrow> read_little 0 (take (PrefixWidth_bytes width) header) 0)"

definition length_prefix_header :: "PrefixWidth \<Rightarrow> Endian \<Rightarrow> bool \<Rightarrow> bytes \<Rightarrow> Framing" where
  "length_prefix_header width endian includes_self buf =
     (let hlen = PrefixWidth_bytes width
      in if length buf < hlen then Need (hlen - length buf)
         else let tot = unat (read_prefix buf width endian)
           in case (if includes_self then checked_sub tot hlen else Some tot) of
                None \<Rightarrow> Invalid
              | Some body \<Rightarrow> Complete hlen body)"

section \<open>Delivered bodies\<close>

datatype Body = Inline bytes | InlineMut bytes | Owned "bytes option" nat nat

text \<open>\<^verbatim>\<open>Deref\<close>: the bytes a body reads as.\<close>

fun body_deref :: "Body \<Rightarrow> bytes" where
  "body_deref (Inline b) = b"
| "body_deref (InlineMut b) = b"
| "body_deref (Owned (Some v) start len) = slice v start (start + len)"
| "body_deref (Owned None start len) = []"

definition placed :: "bytes \<Rightarrow> Body" where
  "placed b = Owned (Some b) 0 (length b)"

fun body_take :: "Body \<Rightarrow> bytes \<times> Body" where
  "body_take (Inline b) = (b, Inline [])"
| "body_take (InlineMut b) = (b, InlineMut [])"
| "body_take (Owned (Some v) start len) =
     (let v = (if start > 0 then slice v start (start + len) @ drop len v else v)
      in (take len v, Owned None start 0))"
| "body_take (Owned None start len) = ([], Owned None start len)"

fun try_take_owned :: "Body \<Rightarrow> bytes option \<times> Body" where
  "try_take_owned (Owned v start len) = (v, Owned None start 0)"
| "try_take_owned b = (None, b)"

section \<open>The pump\<close>

text \<open>
  The receiving of one message seen from outside the reactor: the guard of \<^verbatim>\<open>pump_gate\<close> on the
  buffered size, the framer, the decision \<open>frame_step\<close> on its verdict as \<^verbatim>\<open>enact_frame_step\<close>
  carries it out. A header read of \<open>n\<close> bytes takes bytes from the peer's \<open>stream\<close>: all \<open>n\<close> of them
  when it is exact, otherwise the number the transport has ready (the next of \<open>reads\<close>), at most \<open>n\<close>.
  A read the peer has not sent the bytes for stays armed. The guards of \<^verbatim>\<open>pump_gate\<close> on what else
  the connection is doing are not part of it.
\<close>

fun pump :: "(bytes \<Rightarrow> 's \<Rightarrow> Framing \<times> 's) \<Rightarrow> nat \<Rightarrow> nat option \<Rightarrow> bytes \<Rightarrow> 's \<Rightarrow> bytes \<Rightarrow> nat list \<Rightarrow> FrameStep" where
  "pump frame cap thr buf s stream reads =
     (if length buf > cap then Close TooLarge
      else case frame buf s of (v, s') \<Rightarrow>
        (case frame_step v (length buf) cap thr of
           ReadHeader n ex m \<Rightarrow>
             (case reads of
                [] \<Rightarrow> ReadHeader n ex m
              | k # ks \<Rightarrow>
                  (let got = (if ex then n else min k n)
                   in if got = 0 \<or> length stream < got then ReadHeader n ex m
                      else pump frame cap thr (buf @ take got stream) s' (drop got stream) ks))
         | st \<Rightarrow> st))"

declare pump.simps [simp del]

section \<open>The contract of a framer\<close>

text \<open>
  A verdict on \<open>n\<close> buffered bytes fits what a framer says it needs: an exact read stays within the
  need, bytes are left pending only within it, and a complete message is neither empty nor larger
  than the need or what is already buffered.
\<close>

fun verdict_fits :: "nat \<Rightarrow> nat \<Rightarrow> Framing \<Rightarrow> bool" where
  "verdict_fits need n (Need k) \<longleftrightarrow> 0 < k \<and> n + k \<le> need"
| "verdict_fits need n (NeedInMessage k) \<longleftrightarrow> 0 < k \<and> n + k \<le> need"
| "verdict_fits need n More \<longleftrightarrow> n \<le> need"
| "verdict_fits need n MoreInMessage \<longleftrightarrow> n \<le> need"
| "verdict_fits need n (Complete h b) \<longleftrightarrow> 0 < h + b \<and> h + b \<le> max need n"
| "verdict_fits need n (SpliceBody h b fd) \<longleftrightarrow> h = n \<and> 0 < h \<and> 0 < b \<and> h + b < usize_bound"
| "verdict_fits need n Invalid \<longleftrightarrow> False"

fun pending :: "Framing \<Rightarrow> bool" where
  "pending (Need k) \<longleftrightarrow> True"
| "pending (NeedInMessage k) \<longleftrightarrow> True"
| "pending More \<longleftrightarrow> True"
| "pending MoreInMessage \<longleftrightarrow> True"
| "pending _ \<longleftrightarrow> False"

lemma frame_step_fits:
  assumes "verdict_fits need n v" "need \<le> cap" "n \<le> cap" "cap < usize_bound"
  shows "frame_step v n cap thr \<noteq> Close r"
  using assms
  by (cases v) (auto simp: frame_step_def need_step_def checked_add_def max_def split: option.splits if_splits)

lemma frame_step_pending: "frame_step v n cap thr = ReadHeader k ex m \<Longrightarrow> pending v"
  by (cases v) (auto simp: frame_step_def split: option.splits if_splits)

lemma frame_step_read:
  assumes "verdict_fits need n v" "need + RECV_CHUNK \<le> cap" "frame_step v n cap thr = ReadHeader k ex m"
  shows "n + k \<le> cap"
  using assms by (cases v) (auto simp: frame_step_def need_step_def split: option.splits if_splits)

locale framer =
  fixes frame :: "bytes \<Rightarrow> 's \<Rightarrow> Framing \<times> 's" and ok :: "bytes \<Rightarrow> 's \<Rightarrow> bool" and need :: nat
  assumes fits: "ok buf s \<Longrightarrow> verdict_fits need (length buf) (fst (frame buf s))"
    and keeps_ok: "ok buf s \<Longrightarrow> pending (fst (frame buf s)) \<Longrightarrow> ok (buf @ more) (snd (frame buf s))"
begin

lemma never_closed:
  assumes "ok buf s" "need \<le> cap" "length buf \<le> cap" "cap < usize_bound"
  shows "frame_step (fst (frame buf s)) (length buf) cap thr \<noteq> Close r"
  by (rule frame_step_fits [OF fits [OF assms(1)] assms(2-4)])

lemma pump_never_closed:
  assumes "ok buf s" "need + RECV_CHUNK \<le> cap" "cap < usize_bound" "length buf \<le> cap"
  shows "pump frame cap thr buf s stream reads \<noteq> Close r"
  using assms(1,4)
proof (induction reads arbitrary: buf s stream)
  case Nil
  from assms(2) have "need \<le> cap" by simp
  from never_closed [OF Nil.prems(1) this Nil.prems(2) assms(3)] Nil.prems(2) show ?case
    by (subst pump.simps) (auto split: prod.splits FrameStep.splits)
next
  case (Cons k ks)
  from assms(2) have need: "need \<le> cap" by simp
  obtain v s' where v: "frame buf s = (v, s')" by fastforce
  have next_closed: "pump frame cap thr (buf @ take got stream) s' (drop got stream) ks \<noteq> Close r"
    if st: "frame_step v (length buf) cap thr = ReadHeader n ex m" and "got \<le> n" for n ex m got
  proof (rule Cons.IH)
    show "ok (buf @ take got stream) s'"
      using keeps_ok [OF Cons.prems(1)] frame_step_pending [OF st] v by simp
    have "length buf + n \<le> cap"
      using frame_step_read [OF _ assms(2) st] fits [OF Cons.prems(1)] v by simp
    with that(2) show "length (buf @ take got stream) \<le> cap" by simp
  qed
  show ?case
  proof (cases "frame_step v (length buf) cap thr")
    case (ReadHeader n ex m)
    with Cons.prems(2) v next_closed [OF ReadHeader, of "if ex then n else min k n"] show ?thesis
      by (subst pump.simps) (simp add: Let_def)
  qed (use never_closed [OF Cons.prems(1) need Cons.prems(2) assms(3), of thr] Cons.prems(2) v in
      \<open>subst pump.simps, simp\<close>)+
qed

end

section \<open>Reading a prefix\<close>

lemma or_push_bit_nat: "a < 2 ^ m \<Longrightarrow> a OR push_bit m c = a + c * 2 ^ m" for a c :: nat
proof -
  assume "a < 2 ^ m"
  then have "take_bit m a = a" by (simp add: take_bit_nat_eq_self)
  then have "\<not> bit a n \<or> \<not> bit (push_bit m c) n" for n
    by (metis bit_push_bit_iff bit_take_bit_iff leD)
  then show ?thesis by (simp add: disjunctive_add [symmetric] push_bit_eq_mult)
qed

lemma unat_push_byte:
  fixes b :: byte
  assumes "m \<le> 56"
  shows "unat (push_bit m (ucast b :: u64)) = push_bit m (unat b)"
proof -
  have "unat b * 2 ^ m < 2 ^ 8 * 2 ^ m" using unat_byte_lt [of b] by simp
  also have "\<dots> = 2 ^ (8 + m)" by (simp add: power_add)
  also have "\<dots> \<le> (2 :: nat) ^ 64" using assms by (intro power_increasing) auto
  finally have "unat b * 2 ^ m < 2 ^ LENGTH(64)" by simp
  then have "unat (of_nat (unat b * 2 ^ m) :: u64) = unat b * 2 ^ m" by (rule unat_word_of_nat_eq)
  moreover have "push_bit m (ucast b :: u64) = of_nat (unat b * 2 ^ m)"
    by (simp add: push_bit_eq_mult unsigned_ucast_eq)
  ultimately show ?thesis by (simp add: push_bit_eq_mult)
qed

lemma unat_shift_byte:
  fixes v :: u64 and b :: byte
  assumes "unat v < 256 ^ n" "n < 8"
  shows "unat (push_bit 8 v OR ucast b) = unat v * 256 + unat b"
proof -
  have "unat v * 256 < 256 ^ Suc n" using assms by simp
  also have "\<dots> \<le> (256 :: nat) ^ 8" using assms by (intro power_increasing) auto
  finally have lt: "unat v * 256 < 2 ^ LENGTH(64)" by simp
  have "push_bit 8 v = of_nat (unat v * 256)" by (simp add: push_bit_eq_mult)
  then have p: "unat (push_bit 8 v) = push_bit 8 (unat v)"
    using unat_word_of_nat_eq [OF lt] by (simp add: push_bit_eq_mult)
  have "unat (ucast b :: u64) = unat b" using unat_push_byte [of 0 b] by simp
  then have "unat (push_bit 8 v OR ucast b) = unat b OR push_bit 8 (unat v)"
    by (simp add: unsigned_or_eq p or.commute)
  also have "\<dots> = unat b + unat v * 2 ^ 8" by (rule or_push_bit_nat) (simp add: unat_byte_lt [simplified])
  finally show ?thesis by simp
qed

lemma read_big: "length ds \<le> 8 \<Longrightarrow> unat (fold (\<lambda>b v. push_bit 8 v OR ucast b) ds (0 :: u64)) = be_val ds"
proof (induction ds rule: rev_induct)
  case (snoc d ds)
  then have "unat (fold (\<lambda>b v. push_bit 8 v OR ucast b) ds (0 :: u64)) < 256 ^ length ds"
    using be_val_bound [of ds] by simp
  with snoc unat_shift_byte [of _ "length ds" d] show ?case by simp
qed simp

lemma read_little_val:
  "i + length ds \<le> 8 \<Longrightarrow> unat v < 256 ^ i \<Longrightarrow> unat (read_little i ds v) = unat v + le_val ds * 256 ^ i"
proof (induction ds arbitrary: i v)
  case Nil
  then show ?case by (simp add: le_val_def)
next
  case (Cons d ds)
  let ?w = "v OR push_bit (8 * i) (ucast d)"
  have pow: "(256 :: nat) ^ i = 2 ^ (8 * i)" by (simp add: power_mult)
  have "unat ?w = unat v OR push_bit (8 * i) (unat d)"
    using Cons.prems by (simp add: unsigned_or_eq unat_push_byte)
  also have "\<dots> = unat v + unat d * 256 ^ i"
    using Cons.prems(2) unfolding pow by (rule or_push_bit_nat)
  finally have w: "unat ?w = unat v + unat d * 256 ^ i" .
  have "Suc (unat d) \<le> 256" using unat_byte_lt [of d] by linarith
  from mult_le_mono1 [OF this, of "256 ^ i"] have "unat d * 256 ^ i + 256 ^ i \<le> 256 * 256 ^ i" by simp
  then have "unat ?w < 256 * 256 ^ i" using w Cons.prems(2) by linarith
  then have "unat ?w < 256 ^ (i + 1)" by simp
  with Cons.IH [of "i + 1" ?w] Cons.prems w show ?case
    by (simp add: le_val_def algebra_simps)
qed

lemma read_prefix_val:
  "unat (read_prefix buf w e) =
     (case e of Big \<Rightarrow> be_val (take (PrefixWidth_bytes w) buf) | Little \<Rightarrow> le_val (take (PrefixWidth_bytes w) buf))"
proof -
  have "length (take (PrefixWidth_bytes w) buf) \<le> 8" by (cases w) auto
  then show ?thesis
    using read_big [of "take (PrefixWidth_bytes w) buf"] read_little_val [of 0 "take (PrefixWidth_bytes w) buf" 0]
    by (cases e) (simp_all add: read_prefix_def)
qed

text \<open>The prefix a sender writes in front of a body of \<open>n\<close> bytes.\<close>

definition prefix_of :: "PrefixWidth \<Rightarrow> Endian \<Rightarrow> bool \<Rightarrow> nat \<Rightarrow> bytes" where
  "prefix_of w e includes_self n =
     (let hlen = PrefixWidth_bytes w; v = (if includes_self then n + hlen else n)
      in case e of Big \<Rightarrow> be_bytes hlen v | Little \<Rightarrow> le_bytes hlen v)"

lemma length_prefix_of [simp]: "length (prefix_of w e s n) = PrefixWidth_bytes w"
  by (simp add: prefix_of_def Let_def split: Endian.splits)

text \<open>
  Length-prefixed messages are framed as they were sent: for every width, byte order and
  counting convention, a prefix written for a body of \<open>n\<close> bytes that the width can express is read
  back as a header of that width and a body of \<open>n\<close> bytes, whatever follows it, and while only part
  of the prefix has arrived the framer asks for exactly the missing bytes.
\<close>

theorem length_prefix_roundtrip:
  assumes "(if s then n + PrefixWidth_bytes w else n) < 256 ^ PrefixWidth_bytes w"
  shows "length_prefix_header w e s (prefix_of w e s n @ rest) = Complete (PrefixWidth_bytes w) n \<and>
    (k < PrefixWidth_bytes w \<longrightarrow>
       length_prefix_header w e s (take k (prefix_of w e s n)) = Need (PrefixWidth_bytes w - k))"
proof -
  let ?h = "PrefixWidth_bytes w" and ?v = "if s then n + PrefixWidth_bytes w else n"
  have "unat (read_prefix (prefix_of w e s n @ rest) w e) = ?v"
    using assms unfolding read_prefix_val
    by (cases e) (simp_all add: prefix_of_def Let_def be_val_be_bytes le_val_le_bytes)
  then show ?thesis
    by (auto simp: length_prefix_header_def Let_def checked_sub_def)
qed

theorem length_prefix_roundtrip_witness:
  "length_prefix_header U32 Big True (prefix_of U32 Big True 5 @ [1, 2]) = Complete 4 5"
  using length_prefix_roundtrip [of True 5 U32 Big "[1, 2]"] by simp

text \<open>
  C20. The arithmetic contract of the pump: whatever a framer answers, a delivery names a header and
  a body inside the buffered bytes, a placed body read starts after a fully buffered header and
  completes exactly the message, an exact header read stays within the cap, a splice starts with
  exactly its header buffered, and no sum overflows.
\<close>

theorem frame_step_contract:
  assumes "max_request_bytes < usize_bound"
  shows "case frame_step v buffered max_request_bytes thr of
      Deliver h b \<Rightarrow> 0 < h + b \<and> h + b \<le> buffered \<and> h + b \<le> max_request_bytes
    | ReadBody n h b pl \<Rightarrow> 0 < n \<and> buffered + n = h + b \<and> h + b \<le> max_request_bytes \<and> (pl \<longrightarrow> h \<le> buffered)
    | ReadHeader n ex m \<Rightarrow> 0 < n \<and> (ex \<longrightarrow> buffered + n \<le> max_request_bytes)
    | SpliceStep h b fd \<Rightarrow> h = buffered \<and> 0 < b \<and> h + b < usize_bound \<and> h \<le> max_request_bytes
    | Close r \<Rightarrow> r = Malformed \<or> r = TooLarge"
  using assms
  by (cases v) (auto simp: frame_step_def need_step_def checked_add_def RECV_CHUNK_def split: option.splits)

theorem frame_step_contract_witness:
  "frame_step (Complete 3 4) 9 100 None = Deliver 3 4 \<and> 3 + 4 \<le> (9 :: nat)"
proof -
  have d: "frame_step (Complete 3 4) 9 100 None = Deliver 3 4"
    by (simp add: frame_step_def checked_add_def usize_bound_def)
  have "(100 :: nat) < usize_bound" by (simp add: usize_bound_def)
  from frame_step_contract [OF this, where v = "Complete 3 4" and buffered = 9 and thr = None] d show ?thesis by simp
qed

text \<open>
  The length-prefix framer keeps the contract on the buffers of which no continuation announces a
  message larger than the need. It has no state of its own.
\<close>

definition prefix_ok :: "PrefixWidth \<Rightarrow> Endian \<Rightarrow> bool \<Rightarrow> nat \<Rightarrow> bytes \<Rightarrow> bool" where
  "prefix_ok w e incl need buf \<longleftrightarrow> PrefixWidth_bytes w \<le> need \<and>
     (\<forall>more. case length_prefix_header w e incl (buf @ more) of
        Complete h b \<Rightarrow> h + b \<le> need | Invalid \<Rightarrow> False | _ \<Rightarrow> True)"

lemma length_prefix_fits:
  assumes "prefix_ok w e incl need buf"
  shows "verdict_fits need (length buf) (length_prefix_header w e incl buf)"
proof -
  have "0 < PrefixWidth_bytes w" by (cases w) simp_all
  moreover have "case length_prefix_header w e incl buf of
      Complete h b \<Rightarrow> h + b \<le> need | Invalid \<Rightarrow> False | _ \<Rightarrow> True"
    using assms unfolding prefix_ok_def by (metis append_Nil2)
  ultimately show ?thesis using assms
    by (auto simp: prefix_ok_def length_prefix_header_def Let_def split: if_splits option.splits)
qed

interpretation prefixed: framer "\<lambda>buf u. (length_prefix_header w e incl buf, u)"
  "\<lambda>buf _. prefix_ok w e incl need buf" need for w e incl need
  by unfold_locales (auto simp: length_prefix_fits, simp add: prefix_ok_def)

text \<open>A body is read once: taking it yields the bytes it read as and leaves it empty.\<close>

lemma body_take_deref:
  assumes "\<And>v start len. b = Owned (Some v) start len \<Longrightarrow> start + len \<le> length v"
  shows "fst (body_take b) = body_deref b \<and> body_deref (snd (body_take b)) = []"
proof (cases b)
  case (Owned v start len)
  with assms show ?thesis by (cases v) (auto simp: slice_def)
qed simp_all

end
