(* ===== verification/Http_Framer.thy ===== *)
theory Http_Framer
  imports Http_Chunked Net_Framing
begin

text \<open>
  The HTTP framing state machine (\<^verbatim>\<open>src/http/framer.rs\<close>): the per-connection phase and the step
  \<open>frame\<close> that maps the accumulated bytes to a verdict for the reactor. The parked request of
  \<^verbatim>\<open>Phase::Parked\<close> is opaque to the framer and so the type parameter \<open>'p\<close>.
\<close>

section \<open>Configuration\<close>

definition CHUNK_WIRE_OVERHEAD :: nat where "CHUNK_WIRE_OVERHEAD = 16 * 1024"
definition STREAM_WINDOW :: nat where "STREAM_WINDOW = 128 * 1024"
definition RECV_BUFFER_WINDOWS :: nat where "RECV_BUFFER_WINDOWS = 2"

record HttpConfig =
  max_head :: nat
  max_body :: nat

definition HttpConfig_default :: HttpConfig where
  "HttpConfig_default = \<lparr>max_head = 16 * 1024,
     max_body = 1024 * 1024 - 2 * 16 * 1024 - (TRAILER_LINE_MAX + 1)\<rparr>"

definition HttpConfig_validate :: "HttpConfig \<Rightarrow> error + unit" where
  "HttpConfig_validate cfg =
     (if max_head cfg = 0 then Inl (Validation ''http max_head must be non-zero'')
      else if max_body cfg = 0 then Inl (Validation ''http max_body must be non-zero'')
      else Inr ())"

definition min_request_bytes :: "HttpConfig \<Rightarrow> nat" where
  "min_request_bytes cfg =
     max (saturating_add (saturating_add (saturating_add (max_head cfg) (max_body cfg)) CHUNK_WIRE_OVERHEAD)
            (TRAILER_LINE_MAX + 1))
         (saturating_add (saturating_add (max_head cfg) STREAM_WINDOW) (CHUNK_LINE_MAX + 4))"

definition recv_buffer_bytes :: "HttpConfig \<Rightarrow> nat" where
  "recv_buffer_bytes cfg = saturating_mul STREAM_WINDOW RECV_BUFFER_WINDOWS"

definition receipt_window_bytes :: "HttpConfig \<Rightarrow> nat" where
  "receipt_window_bytes cfg = STREAM_WINDOW"

section \<open>Phases\<close>

datatype StreamedBody = SChunked | SKnown nat

datatype 'p Phase =
    Head
  | ExpectHead bytes BodyKind
  | ExpectBody bytes BodyKind
  | ChunkedBody "bytes option" nat ChunkScan
  | ChunkedDone "bytes option"
  | Fail nat bool
  | StreamOpen bytes bool StreamedBody
  | StreamKnown bytes nat
  | StreamBody bytes nat bool nat
  | StreamDone bytes nat
  | Parked 'p "('p Phase \<times> bool) option"

record ('p, 'u) HttpConn =
  phase :: "'p Phase"
  stream_cap :: "nat option"
  index :: HeadIndex
  ustate :: 'u

definition HttpConn_new :: "'u \<Rightarrow> ('p, 'u) HttpConn" where
  "HttpConn_new u = \<lparr>phase = Head, stream_cap = None, index = HeadIndex_default, ustate = u\<rparr>"

definition HttpConn_new_streaming :: "'u \<Rightarrow> nat \<Rightarrow> ('p, 'u) HttpConn" where
  "HttpConn_new_streaming u max_body_bytes =
     \<lparr>phase = Head, stream_cap = Some max_body_bytes, index = HeadIndex_default, ustate = u\<rparr>"

section \<open>The steps\<close>

definition fail :: "('p, 'u) HttpConn \<Rightarrow> nat \<Rightarrow> nat \<Rightarrow> bool \<Rightarrow> Framing \<times> ('p, 'u) HttpConn" where
  "fail conn buf_len status head_only = (Complete buf_len 0, conn\<lparr>phase := Fail status head_only\<rparr>)"

definition known_step :: "bytes \<Rightarrow> ('p, 'u) HttpConn \<Rightarrow> Framing \<times> ('p, 'u) HttpConn" where
  "known_step buf conn =
     (case phase conn of
        StreamKnown _ remaining \<Rightarrow>
          if remaining = 0 then fail conn (length buf) 500 False
          else if buf = [] then (MoreInMessage, conn)
          else (Complete 0 (min remaining STREAM_WINDOW), conn)
      | _ \<Rightarrow> fail conn (length buf) 500 False)"

definition over_stream_cap :: "('p, 'u) HttpConn \<Rightarrow> nat \<Rightarrow> bool" where
  "over_stream_cap conn n = (case stream_cap conn of Some cap \<Rightarrow> n > cap | None \<Rightarrow> False)"

definition stream_step :: "bytes \<Rightarrow> ('p, 'u) HttpConn \<Rightarrow> Framing \<times> ('p, 'u) HttpConn" where
  "stream_step buf conn =
     (case phase conn of
        StreamBody head chunk_left after_payload n_decoded \<Rightarrow>
          (let head_only = method_is_head head
           in if chunk_left > 0 then (Complete 0 (min chunk_left STREAM_WINDOW), conn)
              else case step buf after_payload of
                  Step.More \<Rightarrow> (MoreInMessage, conn)
                | Bad status \<Rightarrow> fail conn (length buf) status head_only
                | Chunk framing payload \<Rightarrow>
                    if over_stream_cap conn (saturating_add n_decoded payload)
                    then fail conn (length buf) 413 head_only
                    else (Complete framing (min payload STREAM_WINDOW), conn)
                | Last framing \<Rightarrow>
                    (Complete framing 0, conn\<lparr>phase := StreamDone head (if after_payload then 2 else 0)\<rparr>))
      | _ \<Rightarrow> fail conn (length buf) 500 False)"

definition scan_step :: "bytes \<Rightarrow> ('p, 'u) HttpConn \<Rightarrow> HttpConfig \<Rightarrow> Framing \<times> ('p, 'u) HttpConn" where
  "scan_step buf conn cfg =
     (case phase conn of
        ChunkedBody stash head_len sc \<Rightarrow>
          (let head_only = (case stash of Some h \<Rightarrow> method_is_head h | None \<Rightarrow> method_is_head buf);
               body = (case get_from buf head_len of Some b \<Rightarrow> b | None \<Rightarrow> []);
               (r, sc') = scan body sc;
               conn = conn\<lparr>phase := ChunkedBody stash head_len sc'\<rparr>;
               wire_cap = saturating_add (max_body cfg) CHUNK_WIRE_OVERHEAD
           in case r of
                Inl status \<Rightarrow>
                  if decoded sc' > max_body cfg then fail conn (length buf) 413 head_only
                  else if consumed sc' > wire_cap then fail conn (length buf) 400 head_only
                  else fail conn (length buf) status head_only
              | Inr None \<Rightarrow>
                  if decoded sc' > max_body cfg then fail conn (length buf) 413 head_only
                  else if consumed sc' > wire_cap then fail conn (length buf) 400 head_only
                  else (MoreInMessage, conn)
              | Inr (Some extent) \<Rightarrow>
                  if decoded sc' > max_body cfg then fail conn (length buf) 413 head_only
                  else if extent > wire_cap then fail conn (length buf) 400 head_only
                  else (Complete head_len extent, conn\<lparr>phase := ChunkedDone stash\<rparr>))
      | _ \<Rightarrow> fail conn (length buf) 500 False)"

text \<open>The \<^verbatim>\<open>Phase::Head\<close> arm of \<^verbatim>\<open>frame\<close> once the facts of a complete head within the cap are known.\<close>

definition head_known :: "bytes \<Rightarrow> ('p, 'u) HttpConn \<Rightarrow> HttpConfig \<Rightarrow> FrameFacts \<Rightarrow> bool \<Rightarrow> nat
    \<Rightarrow> Framing \<times> ('p, 'u) HttpConn" where
  "head_known buf conn cfg facts head_only body_len =
     (if over_stream_cap conn body_len then fail conn (length buf) 413 head_only
      else if stream_cap conn \<noteq> None \<and> body_len > STREAM_WINDOW then
        (Complete (facts_len facts) 0,
         conn\<lparr>phase := StreamOpen (take (facts_len facts) buf) (expects_continue facts) (SKnown body_len)\<rparr>)
      else if body_len > max_body cfg then fail conn (length buf) 413 head_only
      else if expects_continue facts \<and> body_len > 0 then
        (Complete (facts_len facts) 0, conn\<lparr>phase := ExpectHead (take (facts_len facts) buf) (Known body_len)\<rparr>)
      else (Complete (facts_len facts) body_len, conn))"

definition head_chunked :: "bytes \<Rightarrow> ('p, 'u) HttpConn \<Rightarrow> HttpConfig \<Rightarrow> FrameFacts
    \<Rightarrow> Framing \<times> ('p, 'u) HttpConn" where
  "head_chunked buf conn cfg facts =
     (if stream_cap conn \<noteq> None then
        (Complete (facts_len facts) 0,
         conn\<lparr>phase := StreamOpen (take (facts_len facts) buf) (expects_continue facts) SChunked\<rparr>)
      else if expects_continue facts then
        (Complete (facts_len facts) 0, conn\<lparr>phase := ExpectHead (take (facts_len facts) buf) Chunked\<rparr>)
      else scan_step buf (conn\<lparr>phase := ChunkedBody None (facts_len facts) ChunkScan_default\<rparr>) cfg)"

definition head_step :: "httparse \<Rightarrow> bytes \<Rightarrow> ('p, 'u) HttpConn \<Rightarrow> HttpConfig \<Rightarrow> Framing \<times> ('p, 'u) HttpConn" where
  "head_step parse buf conn cfg =
     (let head_only = method_is_head buf;
          (r, ix) = frame_facts_indexed parse buf (index conn);
          conn = conn\<lparr>index := ix\<rparr>
      in case r of
           Inl status \<Rightarrow>
             fail conn (length buf)
               (if length buf > max_head cfg \<and> frame_facts parse (take (max_head cfg) buf) = Inr None then 431
                else status) head_only
         | Inr None \<Rightarrow>
             if length buf > max_head cfg then fail conn (length buf) 431 head_only else (Framing.More, conn)
         | Inr (Some facts) \<Rightarrow>
             if facts_len facts > max_head cfg then fail conn (length buf) 431 head_only
             else case facts_body facts of
                 Inl status \<Rightarrow> fail conn (length buf) status head_only
               | Inr (Known body_len) \<Rightarrow> head_known buf conn cfg facts head_only body_len
               | Inr Chunked \<Rightarrow> head_chunked buf conn cfg facts)"

definition frame :: "httparse \<Rightarrow> bytes \<Rightarrow> ('p, 'u) HttpConn \<Rightarrow> HttpConfig \<Rightarrow> Framing \<times> ('p, 'u) HttpConn" where
  "frame parse buf conn cfg =
     (case phase conn of
        Fail _ _ \<Rightarrow> (Complete (length buf) 0, conn)
      | Parked _ _ \<Rightarrow> (Framing.More, conn)
      | ChunkedDone _ \<Rightarrow> (Complete (length buf) 0, conn)
      | ExpectHead _ (Known n) \<Rightarrow> (Complete 0 n, conn)
      | ExpectBody _ (Known n) \<Rightarrow> (Complete 0 n, conn)
      | ExpectHead head Chunked \<Rightarrow>
          scan_step buf (conn\<lparr>phase := ChunkedBody (Some head) 0 ChunkScan_default\<rparr>) cfg
      | ExpectBody head Chunked \<Rightarrow>
          scan_step buf (conn\<lparr>phase := ChunkedBody (Some head) 0 ChunkScan_default\<rparr>) cfg
      | ChunkedBody _ _ _ \<Rightarrow> scan_step buf conn cfg
      | StreamOpen _ _ _ \<Rightarrow> (Complete (length buf) 0, conn)
      | StreamDone _ _ \<Rightarrow> (Complete (length buf) 0, conn)
      | StreamBody _ _ _ _ \<Rightarrow> stream_step buf conn
      | StreamKnown _ _ \<Rightarrow> known_step buf conn
      | Head \<Rightarrow> head_step parse buf conn cfg)"

section \<open>What a pending scan leaves behind\<close>

lemma turn_pending_slack:
  "run_turn xs s = Return (Inr None) s' p \<Longrightarrow> length xs \<le> consumed s' + (TRAILER_LINE_MAX + 1)"
  by (auto simp: run_turn_def get_from_def size_turn_def data_turn_def crlf_turn_def trailer_turn_def Let_def
      find_crlf_def CHUNK_LINE_MAX_def TRAILER_LINE_MAX_def
      split: State.splits if_splits Find.splits option.splits prod.splits)

lemma run_pending_slack:
  "run xs s = (Inr None, s', p, t) \<Longrightarrow> length xs \<le> consumed s' + (TRAILER_LINE_MAX + 1)"
proof (induction xs s arbitrary: p t rule: run.induct)
  case (1 xs s)
  then show ?case
    by (cases "run_turn xs s") (auto simp: run.simps [of xs s] split: prod.splits dest: turn_pending_slack)
qed

lemma scan_pending_slack:
  "scan xs s = (Inr None, s') \<Longrightarrow> length xs \<le> consumed s' + (TRAILER_LINE_MAX + 1)"
  by (auto simp: scan_def split: prod.splits dest: run_pending_slack)

lemma turn_extent:
  assumes "run_turn xs s = Return (Inr (Some n)) s' p"
  shows "state s = Done \<and> n = consumed s \<and> s' = s"
  using assms
  by (cases "state s")
     (auto simp: run_turn_def get_from_def size_turn_def data_turn_def crlf_turn_def trailer_turn_def Let_def
      split: if_splits Find.splits option.splits prod.splits)

lemma turn_Done:
  assumes "run_turn xs s = Continue s' p t" "state s' = Done"
  shows "consumed s < consumed s'"
  using assms
  by (auto simp: run_turn_def get_from_def size_turn_def data_turn_def crlf_turn_def trailer_turn_def Let_def
      split: State.splits if_splits Find.splits option.splits prod.splits)

lemma run_extent:
  assumes "run xs s = (Inr (Some n), s', p, t)" "consumed s \<le> length xs" "state s \<noteq> Done"
  shows "consumed s < n \<and> n \<le> length xs"
  using assms
proof (induction xs s arbitrary: p t rule: run.induct)
  case (1 xs s)
  show ?case
  proof (cases "run_turn xs s")
    case (Return r s1 q)
    with 1(2,4) show ?thesis by (auto simp: run.simps [of xs s] dest: turn_extent)
  next
    case (Continue s1 q u)
    then obtain p' t' where r: "run xs s1 = (Inr (Some n), s', p', t')"
      using 1(2) by (auto simp: run.simps [of xs s] split: prod.splits)
    note c = turn_Continue [OF Continue]
    show ?thesis
    proof (cases "state s1 = Done")
      case True
      with r have "n = consumed s1" by (auto simp: run.simps [of xs s1] run_turn_def)
      with c turn_Done [OF Continue True] show ?thesis by simp
    next
      case False
      with 1(1) [OF Continue r] c show ?thesis by simp
    qed
  qed
qed

lemma scan_extent:
  assumes "scan xs ChunkScan_default = (Inr (Some n), s')"
  shows "0 < n \<and> n \<le> length xs"
  using assms run_extent [of xs ChunkScan_default n s']
  by (auto simp: scan_def ChunkScan_default_def split: prod.splits)

lemma scan_Nil: "scan [] ChunkScan_default = (Inr None, ChunkScan_default)"
  by (simp add: scan_def run.simps run_turn_def ChunkScan_default_def get_from_def size_turn_def find_crlf_def
      CHUNK_LINE_MAX_def)

text \<open>In the trailer section what is consumed beyond the size line is counted and capped.\<close>

lemma turn_trailer:
  assumes "run_turn xs s = Continue s' p t" "state s = Trailer"
  shows "consumed s' = consumed s + (trailer_bytes s' - trailer_bytes s) \<and> trailer_bytes s \<le> trailer_bytes s'
    \<and> trailer_bytes s' \<le> TRAILER_MAX \<and> (state s' = Trailer \<or> state s' = Done)"
  using assms
  by (auto simp: run_turn_def get_from_def trailer_turn_def Let_def
      split: if_splits Find.splits option.splits prod.splits)

lemma run_trailer_pending:
  assumes "run xs s = (Inr None, s', p, t)" "state s = Trailer" "trailer_bytes s \<le> TRAILER_MAX"
  shows "consumed s' + trailer_bytes s \<le> consumed s + TRAILER_MAX"
  using assms
proof (induction xs s arbitrary: p t rule: run.induct)
  case (1 xs s)
  show ?case
  proof (cases "run_turn xs s")
    case (Return r s1 q)
    with 1(2-4) show ?thesis by (auto simp: run.simps [of xs s] dest!: turn_pending)
  next
    case (Continue s1 q u)
    then obtain p' t' where r: "run xs s1 = (Inr None, s', p', t')"
      using 1(2) by (auto simp: run.simps [of xs s] split: prod.splits)
    then have "state s1 \<noteq> Done" by (auto simp: run.simps [of xs s1] run_turn_def)
    with 1(1) [OF Continue r] turn_trailer [OF Continue 1(3)] show ?thesis by auto
  qed
qed

text \<open>A terminal chunk still arriving is bounded by the size line, the trailer section and one line.\<close>

lemma terminal_pending_slack:
  assumes "find_crlf xs CHUNK_LINE_MAX = At i" "\<not> line_has_bare_crlf (take i xs)"
    "parse_size_line (take i xs) = Some 0" "scan xs ChunkScan_default = (Inr None, s')"
  shows "length xs \<le> CHUNK_LINE_MAX + 2 + TRAILER_MAX + (TRAILER_LINE_MAX + 1)"
proof -
  let ?s = "ChunkScan_default\<lparr>consumed := i + 2, state := Trailer\<rparr>"
  have "run_turn xs ChunkScan_default = Continue ?s None None"
    using assms(1-3) by (simp add: run_turn_def ChunkScan_default_def get_from_def size_turn_def)
  then obtain p t where r: "run xs ?s = (Inr None, s', p, t)"
    using assms(4) by (auto simp: scan_def run.simps [of xs ChunkScan_default] split: prod.splits)
  have "consumed s' \<le> i + 2 + TRAILER_MAX"
    using run_trailer_pending [OF r] by (simp add: ChunkScan_default_def)
  with run_pending_slack [OF r] find_crlf_At [OF assms(1)] show ?thesis by simp
qed

lemma step_locate_bounds:
  "step_locate buf off = Step.More \<Longrightarrow> length buf \<le> off + (CHUNK_LINE_MAX + 2 + TRAILER_MAX + (TRAILER_LINE_MAX + 1))"
  "step_locate buf off = Chunk f n \<Longrightarrow> 0 < f \<and> f \<le> off + CHUNK_LINE_MAX + 2 \<and> 0 < n"
  "off \<le> length buf \<Longrightarrow> step_locate buf off = Last f \<Longrightarrow> 0 < f \<and> f \<le> length buf"
  "step_locate [] off = Step.More"
proof -
  assume "step_locate buf off = Step.More"
  then consider "find_crlf (drop off buf) CHUNK_LINE_MAX = NeedMore"
    | i s' where "find_crlf (drop off buf) CHUNK_LINE_MAX = At i" "\<not> line_has_bare_crlf (take i (drop off buf))"
      "parse_size_line (take i (drop off buf)) = Some 0" "scan (drop off buf) ChunkScan_default = (Inr None, s')"
    by (auto simp: step_locate_def Let_def split: Find.splits if_splits option.splits sum.splits)
       (metis prod.collapse)
  then have "length (drop off buf) \<le> CHUNK_LINE_MAX + 2 + TRAILER_MAX + (TRAILER_LINE_MAX + 1)"
  proof cases
    case 1
    then show ?thesis by (auto simp: find_crlf_def Let_def split: option.splits if_splits)
  next
    case (2 i s')
    then show ?thesis by (rule terminal_pending_slack)
  qed
  then show "length buf \<le> off + (CHUNK_LINE_MAX + 2 + TRAILER_MAX + (TRAILER_LINE_MAX + 1))"
    unfolding length_drop by linarith
next
  show "step_locate buf off = Chunk f n \<Longrightarrow> 0 < f \<and> f \<le> off + CHUNK_LINE_MAX + 2 \<and> 0 < n"
    by (auto simp: step_locate_def Let_def split: Find.splits if_splits option.splits sum.splits dest!: find_crlf_At)
next
  assume "off \<le> length buf" "step_locate buf off = Last f"
  then obtain n where "fst (scan (drop off buf) ChunkScan_default) = Inr (Some n)" "f = off + n"
    by (auto simp: step_locate_def Let_def split: Find.splits if_splits option.splits sum.splits)
  with \<open>off \<le> length buf\<close> scan_extent [of "drop off buf" n] show "0 < f \<and> f \<le> length buf"
    by (cases "scan (drop off buf) ChunkScan_default") auto
next
  show "step_locate [] off = Step.More"
    by (simp add: step_locate_def find_crlf_def Let_def CHUNK_LINE_MAX_def)
qed

section \<open>The phases the framer is asked in\<close>

text \<open>
  The arithmetic of \<open>min_request_bytes\<close> does not saturate: every sum the framer forms is a \<^verbatim>\<open>usize\<close>.
\<close>

definition cfg_ok :: "HttpConfig \<Rightarrow> bool" where
  "cfg_ok cfg \<longleftrightarrow> max_head cfg + max_body cfg + 2 * STREAM_WINDOW < usize_bound"

lemmas http_bounds = CHUNK_WIRE_OVERHEAD_def STREAM_WINDOW_def TRAILER_LINE_MAX_def CHUNK_LINE_MAX_def TRAILER_MAX_def

lemma min_request_bytes_eq:
  assumes "cfg_ok cfg"
  shows "min_request_bytes cfg =
    max (max_head cfg + max_body cfg + CHUNK_WIRE_OVERHEAD + (TRAILER_LINE_MAX + 1))
        (max_head cfg + STREAM_WINDOW + (CHUNK_LINE_MAX + 4))"
    "saturating_add (max_body cfg) CHUNK_WIRE_OVERHEAD = max_body cfg + CHUNK_WIRE_OVERHEAD"
  using assms
  by (auto simp: min_request_bytes_def saturating_add_def cfg_ok_def http_bounds usize_bound_def usize_max_def)

text \<open>
  The well-formed connections, relative to the bytes buffered since the last message: a
  continuation or a streamed length announces what is still owed, the stored scan state is the one
  a scan over a prefix of the body region stopped in, and a phase that only forwards what is
  buffered has something buffered. A parked connection is not framed.
\<close>

definition scanned :: "bytes \<Rightarrow> ChunkScan \<Rightarrow> bool" where
  "scanned body sc \<longleftrightarrow> (\<exists>n \<le> length body. scan (take n body) ChunkScan_default = (Inr None, sc))"

definition conn_ok :: "HttpConfig \<Rightarrow> bytes \<Rightarrow> ('p, 'u) HttpConn \<Rightarrow> bool" where
  "conn_ok cfg buf conn = (case phase conn of
       Head \<Rightarrow> True
     | ExpectHead _ (Known n) \<Rightarrow> 0 < n \<and> n \<le> max_body cfg
     | ExpectBody _ (Known n) \<Rightarrow> 0 < n \<and> n \<le> max_body cfg
     | ExpectHead _ Chunked \<Rightarrow> True
     | ExpectBody _ Chunked \<Rightarrow> True
     | ChunkedBody _ hl sc \<Rightarrow> hl \<le> max_head cfg \<and> hl \<le> length buf \<and> scanned (drop hl buf) sc
     | StreamKnown _ remaining \<Rightarrow> 0 < remaining
     | StreamBody _ _ _ _ \<Rightarrow> True
     | Parked _ _ \<Rightarrow> False
     | _ \<Rightarrow> buf \<noteq> [])"

lemma scanned_resumes: "scanned body sc \<Longrightarrow> scan body sc = scan body ChunkScan_default"
proof -
  assume "scanned body sc"
  then obtain n where n: "n \<le> length body" "scan (take n body) ChunkScan_default = (Inr None, sc)"
    by (auto simp: scanned_def)
  have "consumed ChunkScan_default \<le> length (take n body)" by (simp add: ChunkScan_default_def)
  from scan_extend(1) [OF this n(2), of "drop n body"] show ?thesis by simp
qed

lemma scanned_extend:
  assumes "scan body ChunkScan_default = (Inr None, sc)"
  shows "scanned (body @ ys) sc"
  unfolding scanned_def by (rule exI [of _ "length body"]) (simp add: assms)

lemma scanned_default: "scanned body ChunkScan_default"
  unfolding scanned_def by (rule exI [of _ 0]) (simp add: scan_Nil)

text \<open>What one verdict must satisfy, and what it must leave behind.\<close>

definition step_ok :: "HttpConfig \<Rightarrow> bytes \<Rightarrow> Framing \<times> ('p, 'u) HttpConn \<Rightarrow> bool" where
  "step_ok cfg buf r \<longleftrightarrow> verdict_fits (min_request_bytes cfg) (length buf) (fst r) \<and>
     (pending (fst r) \<longrightarrow> (\<forall>more. conn_ok cfg (buf @ more) (snd r)))"

lemma fail_ok: "buf \<noteq> [] \<Longrightarrow> step_ok cfg buf (fail conn (length buf) st h)"
  by (simp add: step_ok_def fail_def)

lemma scan_step_ok:
  assumes cfg: "cfg_ok cfg" and ph: "phase conn = ChunkedBody stash hl sc"
    and hl: "hl \<le> max_head cfg" "hl \<le> length buf" and sc: "scanned (drop hl buf) sc"
  shows "step_ok cfg buf (scan_step buf conn cfg)"
proof -
  obtain r sc' where r: "scan (drop hl buf) ChunkScan_default = (r, sc')" by fastforce
  note step = scan_step_def Let_def ph get_from_def scanned_resumes [OF sc] r min_request_bytes_eq [OF cfg]
  have ne: "buf \<noteq> []" if "r \<noteq> Inr None \<or> decoded sc' > max_body cfg \<or> consumed sc' > max_body cfg + CHUNK_WIRE_OVERHEAD"
    using r that hl by (cases buf) (auto simp: scan_Nil [unfolded ChunkScan_default_def] ChunkScan_default_def)
  consider st where "r = Inl st" | "r = Inr None" | n where "r = Inr (Some n)" by (cases r) auto
  then show ?thesis
  proof cases
    case 1
    with ne hl show ?thesis by (auto simp: step intro!: fail_ok)
  next
    case 2
    have "length buf \<le> min_request_bytes cfg" if "consumed sc' \<le> max_body cfg + CHUNK_WIRE_OVERHEAD"
      using scan_pending_slack [OF r [unfolded 2]] hl that unfolding min_request_bytes_eq(1) [OF cfg] by auto
    moreover have "scanned (drop hl buf @ ys) sc'" for ys
      using scanned_extend r 2 by blast
    ultimately show ?thesis using ne 2 hl
      by (auto simp: step intro!: fail_ok) (auto simp: step_ok_def conn_ok_def min_request_bytes_eq [OF cfg])
  next
    case (3 n)
    with scan_extent [of "drop hl buf" n] r have "0 < n" by simp
    with ne 3 hl show ?thesis
      by (auto simp: step intro!: fail_ok) (auto simp: step_ok_def min_request_bytes_eq [OF cfg])
  qed
qed

lemma stream_step_ok:
  assumes cfg: "cfg_ok cfg" and ph: "phase conn = StreamBody h left ap n"
  shows "step_ok cfg buf (stream_step buf conn)"
proof (cases "left > 0")
  case True
  then show ?thesis
    by (auto simp: stream_step_def Let_def ph step_ok_def min_request_bytes_eq [OF cfg] http_bounds)
next
  case False
  let ?off = "if ap then 2 else 0 :: nat"
  have loc: "step buf ap = Step.More \<and> length buf \<le> 1 \<or> step buf ap = Bad 400 \<and> buf \<noteq> []
      \<or> step buf ap = step_locate buf ?off \<and> ?off \<le> length buf"
    using arg_cong [of "take 2 buf" "[CR, LF]" length] by (auto simp: step_def)
  then show ?thesis
  proof (elim disjE conjE)
    assume "step buf ap = step_locate buf ?off" "?off \<le> length buf"
    then show ?thesis
      using step_locate_bounds(1-3) [where buf = buf and off = ?off] step_locate_bounds(4) [of ?off] False
      by (cases "step_locate buf ?off"; cases "buf = []")
         (auto simp: stream_step_def Let_def ph step_ok_def min_request_bytes_eq [OF cfg] fail_def conn_ok_def http_bounds
           split: if_splits)
  qed (use False in \<open>auto simp: stream_step_def Let_def ph step_ok_def min_request_bytes_eq [OF cfg] conn_ok_def http_bounds fail_def\<close>)
qed

lemma tokenize_facts:
  assumes ok: "httparse_ok parse"
  shows "tokenize parse [] = Inr None"
    "frame_facts_indexed parse buf ix = (Inr (Some f), ix') \<Longrightarrow> 0 < facts_len f \<and> facts_len f \<le> length buf"
proof -
  show "tokenize parse [] = Inr None" using ok by (simp add: httparse_ok_def tokenize_def)
next
  assume "frame_facts_indexed parse buf ix = (Inr (Some f), ix')"
  then obtain req v target where "tokenize parse buf = Inr (Some (req, facts_len f, v, target))"
    by (auto simp: frame_facts_indexed_def Let_def split: sum.splits option.splits prod.splits)
  then have "parse buf = Inr (Some (facts_len f, req))" using tokenize_Some by metis
  with ok show "0 < facts_len f \<and> facts_len f \<le> length buf" unfolding httparse_ok_def by blast
qed

lemma head_step_ok:
  assumes cfg: "cfg_ok cfg" and ok: "httparse_ok parse" and ph: "phase conn = Head"
  shows "step_ok cfg buf (head_step parse buf conn cfg)"
proof -
  obtain r ix where r: "frame_facts_indexed parse buf (index conn) = (r, ix)" by fastforce
  note step = head_step_def Let_def r
  have ne: "buf \<noteq> []" if "r \<noteq> Inr None"
    using r that by (auto simp: frame_facts_indexed_def tokenize_facts(1) [OF ok])
  consider st where "r = Inl st" | "r = Inr None" | f where "r = Inr (Some f)" by (cases r) auto
  then show ?thesis
  proof cases
    case 1
    with ne show ?thesis by (simp add: step fail_ok)
  next
    case 2
    then show ?thesis
      by (auto simp: step fail_ok ph step_ok_def conn_ok_def min_request_bytes_eq [OF cfg] fail_def)
  next
    case (3 f)
    note len = tokenize_facts(2) [OF ok r [unfolded 3]]
    have known: "step_ok cfg buf (head_known buf (conn\<lparr>index := ix\<rparr>) cfg f h n)" if "facts_len f \<le> max_head cfg" for h n
      using len ne 3 that
      by (auto simp: head_known_def fail_ok) (auto simp: step_ok_def min_request_bytes_eq [OF cfg])
    have "step_ok cfg buf (head_chunked buf (conn\<lparr>index := ix\<rparr>) cfg f)" if "facts_len f \<le> max_head cfg"
      using len that by (auto simp: head_chunked_def scanned_default intro!: scan_step_ok [OF cfg])
        (auto simp: step_ok_def)
    with known ne 3 show ?thesis by (auto simp: step fail_ok split: sum.split BodyKind.split)
  qed
qed

lemma frame_ok:
  assumes cfg: "cfg_ok cfg" and ok: "httparse_ok parse" and conn: "conn_ok cfg buf conn"
  shows "step_ok cfg buf (frame parse buf conn cfg)"
proof (cases "phase conn")
  case (ChunkedBody stash hl sc)
  with conn show ?thesis by (auto simp: frame_def conn_ok_def intro!: scan_step_ok [OF cfg])
next
  case (ExpectHead h b)
  with conn show ?thesis
    by (cases b) (auto simp: frame_def conn_ok_def scanned_default step_ok_def [of cfg buf "(_, _)"] min_request_bytes_eq [OF cfg]
        intro!: scan_step_ok [OF cfg])
next
  case (ExpectBody h b)
  with conn show ?thesis
    by (cases b) (auto simp: frame_def conn_ok_def scanned_default step_ok_def [of cfg buf "(_, _)"] min_request_bytes_eq [OF cfg]
        intro!: scan_step_ok [OF cfg])
next
  case Head
  then show ?thesis by (simp add: frame_def head_step_ok [OF cfg ok])
next
  case (StreamBody h l ap n)
  then show ?thesis by (simp add: frame_def stream_step_ok [OF cfg])
next
  case (StreamKnown h n)
  with conn show ?thesis
    by (auto simp: frame_def known_step_def step_ok_def conn_ok_def min_request_bytes_eq [OF cfg] http_bounds)
qed (use conn in \<open>auto simp: frame_def step_ok_def conn_ok_def\<close>)

interpretation http: framer "\<lambda>buf conn. frame parse buf conn cfg"
  "\<lambda>buf conn. httparse_ok parse \<and> cfg_ok cfg \<and> conn_ok cfg buf conn" "min_request_bytes cfg" for parse cfg
  using frame_ok unfolding step_ok_def by unfold_locales blast+

text \<open>
  C17. A cap that is enough: with \<^verbatim>\<open>max_request_bytes\<close> at \<^verbatim>\<open>min_request_bytes\<close> plus one scanning read
  (\<^verbatim>\<open>RECV_CHUNK\<close>), a connection at the start of a message, streaming or not, is never cut off by the
  reactor for what it receives: whatever bytes the peer sends, whatever is already buffered up to
  the cap, and however the transport cuts the bytes into reads, the pump reads on or delivers, and
  an unacceptable request is delivered to be answered with a status; it is not closed as too large
  or malformed. The extra \<^verbatim>\<open>RECV_CHUNK\<close> is needed for this argument because a scanning read is not
  bounded by the cap: armed with \<^verbatim>\<open>min_request_bytes\<close> buffered it can bring that many more.
\<close>

theorem http_never_cut_off:
  assumes "httparse_ok parse" "cfg_ok cfg" "min_request_bytes cfg + RECV_CHUNK \<le> cap" "cap < usize_bound"
    "length buf \<le> cap"
  shows "pump (\<lambda>buf conn. frame parse buf conn cfg) cap thr buf
      (HttpConn_new u :: ('p, 'u) HttpConn) stream reads \<noteq> Close r \<and>
    pump (\<lambda>buf conn. frame parse buf conn cfg) cap thr buf
      (HttpConn_new_streaming u limit :: ('p, 'u) HttpConn) stream reads \<noteq> Close r"
proof -
  have "conn_ok cfg buf (HttpConn_new u :: ('p, 'u) HttpConn)"
    "conn_ok cfg buf (HttpConn_new_streaming u limit :: ('p, 'u) HttpConn)"
    by (simp_all add: conn_ok_def HttpConn_new_def HttpConn_new_streaming_def)
  with assms show ?thesis by (intro conjI http.pump_never_closed) simp_all
qed

text \<open>
  C18. One framing step from any well-formed phase (a head, an announced or chunked continuation, a
  streamed body between windows) keeps the connection well-formed for every continuation of the
  bytes while it asks for more; a step that asks for more has at most \<^verbatim>\<open>min_request_bytes\<close> buffered,
  so a pending message never occupies more memory than that, and a declared message is not empty.
\<close>

theorem frame_keeps_phase:
  assumes "httparse_ok parse" "cfg_ok cfg" "conn_ok cfg buf conn"
  shows "(pending (fst (frame parse buf conn cfg)) \<longrightarrow>
      length buf \<le> min_request_bytes cfg \<and> (\<forall>ext. conn_ok cfg (buf @ ext) (snd (frame parse buf conn cfg)))) \<and>
    (\<forall>h b. fst (frame parse buf conn cfg) = Complete h b \<longrightarrow>
      0 < h + b \<and> h + b \<le> max (min_request_bytes cfg) (length buf)) \<and>
    fst (frame parse buf conn cfg) \<noteq> Invalid"
proof -
  obtain v c where v: "frame parse buf conn cfg = (v, c)" by fastforce
  with frame_ok [OF assms(2,1,3)] show ?thesis by (cases v) (auto simp: step_ok_def)
qed

lemma min_request_bytes_default: "cfg_ok HttpConfig_default" "min_request_bytes HttpConfig_default = 1024 * 1024"
  by (simp_all add: HttpConfig_default_def cfg_ok_def min_request_bytes_def saturating_add_def usize_max_def
      usize_bound_def http_bounds)

theorem http_never_cut_off_witness:
  "pump (\<lambda>buf conn. frame sample_httparse buf conn HttpConfig_default) (1024 * 1024 + 4096) None []
     (HttpConn_new () :: (unit, unit) HttpConn) (sample_head @ sample_head) [7, 4096, 4096] \<noteq> Close TooLarge"
proof -
  have "min_request_bytes HttpConfig_default + RECV_CHUNK \<le> 1024 * 1024 + 4096"
    by (simp add: min_request_bytes_default RECV_CHUNK_def)
  from http_never_cut_off [OF sample_httparse_ok min_request_bytes_default(1) this,
      where thr = None and u = "()" and r = TooLarge and limit = 0 and 'p = unit and buf = "[]"
        and stream = "sample_head @ sample_head" and reads = "[7, 4096, 4096]"]
  show ?thesis by (simp add: usize_bound_def)
qed

theorem frame_keeps_phase_witness:
  "fst (frame sample_httparse sample_head (HttpConn_new () :: (unit, unit) HttpConn) HttpConfig_default) \<noteq> Invalid"
proof -
  have "conn_ok HttpConfig_default sample_head (HttpConn_new () :: (unit, unit) HttpConn)"
    by (simp add: conn_ok_def HttpConn_new_def)
  from frame_keeps_phase [OF sample_httparse_ok min_request_bytes_default(1) this] show ?thesis by simp
qed

section \<open>Segmentation of a buffered chunked body\<close>

text \<open>The framer asked again after each arrival until it decides.\<close>

fun frames :: "(bytes \<Rightarrow> 's \<Rightarrow> Framing \<times> 's) \<Rightarrow> bytes \<Rightarrow> 's \<Rightarrow> bytes list \<Rightarrow> Framing \<times> 's" where
  "frames F buf s [] = F buf s"
| "frames F buf s (a # as) = (case F buf s of (v, s') \<Rightarrow> if pending v then frames F (buf @ a) s' as else (v, s'))"

lemma turn_mono:
  "run_turn xs s = Continue s' p t \<Longrightarrow> decoded s \<le> decoded s' \<and> consumed s \<le> consumed s'"
  "run_turn xs s = Return r s' p \<Longrightarrow> decoded s \<le> decoded s' \<and> consumed s \<le> consumed s'"
  by (auto simp: run_turn_def get_from_def size_turn_def data_turn_def crlf_turn_def trailer_turn_def Let_def
      split: State.splits if_splits Find.splits option.splits prod.splits)

lemma run_mono: "run xs s = (r, s', p, t) \<Longrightarrow> decoded s \<le> decoded s' \<and> consumed s \<le> consumed s'"
proof (induction xs s arbitrary: p t rule: run.induct)
  case (1 xs s)
  show ?case
  proof (cases "run_turn xs s")
    case (Return r1 s1 q)
    with 1(2) turn_mono(2) [OF Return] show ?thesis by (auto simp: run.simps [of xs s])
  next
    case (Continue s1 q u)
    then obtain p' t' where "run xs s1 = (r, s', p', t')"
      using 1(2) by (auto simp: run.simps [of xs s] split: prod.splits)
    with 1(1) [OF Continue] turn_mono(1) [OF Continue] show ?thesis by fastforce
  qed
qed

lemma run_Some_consumed: "run xs s = (Inr (Some n), s', p, t) \<Longrightarrow> n = consumed s'"
proof (induction xs s arbitrary: p t rule: run.induct)
  case (1 xs s)
  then show ?case
    by (cases "run_turn xs s")
       (auto simp: run.simps [of xs s] split: prod.splits dest: turn_extent)
qed

text \<open>The caps a complete body has to respect, whatever its arrivals.\<close>

definition within_caps :: "HttpConfig \<Rightarrow> ChunkScan \<Rightarrow> bool" where
  "within_caps cfg sc \<longleftrightarrow> decoded sc \<le> max_body cfg \<and> consumed sc \<le> saturating_add (max_body cfg) CHUNK_WIRE_OVERHEAD"

lemma within_caps_pending:
  assumes "scan xs s = (Inr None, s1)" "consumed s \<le> length xs" "scan (xs @ ys) s = (r, s2)" "within_caps cfg s2"
  shows "within_caps cfg s1"
proof -
  have "scan (xs @ ys) s1 = (r, s2)" using scan_extend(1) [OF assms(2,1), of ys] assms(3) by simp
  then have "decoded s1 \<le> decoded s2 \<and> consumed s1 \<le> consumed s2"
    by (auto simp: scan_def split: prod.splits dest: run_mono)
  with assms(4) show ?thesis by (auto simp: within_caps_def)
qed

lemma scan_step_verdict:
  assumes "phase conn = ChunkedBody stash (length front) sc" "scan body sc = (r, sc')"
  shows "r = Inr None \<Longrightarrow> within_caps cfg sc' \<Longrightarrow>
      scan_step (front @ body) conn cfg = (MoreInMessage, conn\<lparr>phase := ChunkedBody stash (length front) sc'\<rparr>)"
    "r = Inr None \<and> \<not> within_caps cfg sc' \<or> r = Inl e \<Longrightarrow>
      phase (snd (scan_step (front @ body) conn cfg)) \<noteq> ChunkedDone stash \<and>
        \<not> pending (fst (scan_step (front @ body) conn cfg))"
    "r = Inr (Some m) \<Longrightarrow> (\<exists>c. scan_step (front @ body) conn cfg = (Complete (length front) n, c)
       \<and> phase c = ChunkedDone stash) \<longleftrightarrow> m = n \<and> within_caps cfg sc'"
    "r = Inr (Some m) \<Longrightarrow> \<not> pending (fst (scan_step (front @ body) conn cfg))"
  using assms run_Some_consumed [of body sc m sc']
  by (auto simp: scan_step_def Let_def get_from_def within_caps_def fail_def not_le scan_def split: prod.splits)

lemma frames_chunked:
  assumes "phase conn = ChunkedBody stash (length front) sc" "consumed sc \<le> length body"
  shows "(\<exists>c. frames (\<lambda>buf c. frame parse buf c cfg) (front @ body) conn as = (Complete (length front) n, c)
      \<and> phase c = ChunkedDone stash) \<longleftrightarrow>
    (\<exists>sc'. scan (body @ concat as) sc = (Inr (Some n), sc') \<and> within_caps cfg sc')"
  using assms
proof (induction as arbitrary: body conn sc)
  case Nil
  obtain r sc' where r: "scan body sc = (r, sc')" by fastforce
  have F: "frame parse buf conn cfg = scan_step buf conn cfg" for buf using Nil by (simp add: frame_def)
  note v = scan_step_verdict [OF Nil.prems(1) r]
  consider e where "r = Inl e" | "r = Inr None" | m where "r = Inr (Some m)" by (cases r) auto
  then show ?case
  proof cases
    case (1 e)
    then show ?thesis using v(2) [of cfg e] r by (auto simp: F)
  next
    case 2
    then show ?thesis using v(1,2) [of cfg] r by (cases "within_caps cfg sc'") (auto simp: F)
  next
    case (3 m)
    then show ?thesis using v(3) r by (auto simp: F)
  qed
next
  case (Cons a as)
  obtain r sc' where r: "scan body sc = (r, sc')" by fastforce
  have F: "frame parse buf conn cfg = scan_step buf conn cfg" for buf using Cons by (simp add: frame_def)
  note v = scan_step_verdict [OF Cons.prems(1) r]
  note ext = scan_extend [OF Cons.prems(2) r]
  consider e where "r = Inl e" | "r = Inr None" "within_caps cfg sc'" | "r = Inr None" "\<not> within_caps cfg sc'"
    | m where "r = Inr (Some m)" by (cases r) auto
  then show ?case
  proof cases
    case (1 e)
    then show ?thesis using v(2) [of cfg e] ext by (auto simp: F split: prod.splits)
  next
    case 2
    with Cons.IH [of "conn\<lparr>phase := ChunkedBody stash (length front) sc'\<rparr>" sc' "body @ a"] v(1) ext(2)
    show ?thesis using ext(1) [of "a @ concat as"] by (simp add: F)
  next
    case 3
    then have "\<not> (\<exists>s2. scan (body @ concat (a # as)) sc = (Inr (Some n), s2) \<and> within_caps cfg s2)"
      using within_caps_pending [of body sc sc'] r Cons.prems(2) by blast
    with 3 v(2) [of cfg] show ?thesis by (auto simp: F split: prod.splits)
  next
    case (4 m)
    then have "frames (\<lambda>buf c. frame parse buf c cfg) (front @ body) conn (a # as) = scan_step (front @ body) conn cfg"
      using v(4) [of m cfg] by (auto simp: F split: prod.splits)
    with 4 v(3) ext(1) show ?thesis by auto
  qed
qed

text \<open>
  C19. Whether a buffered chunked body is accepted, and how long it is, does not depend on how it
  arrived: for every segmentation the framer declares a body of \<open>n\<close> bytes after the head exactly
  when one scan over all the bytes completes after \<open>n\<close> bytes with its decoded size within
  \<^verbatim>\<open>max_body\<close> and its wire size within \<^verbatim>\<open>max_body\<close> plus the framing allowance.
\<close>

theorem chunked_acceptance:
  "(\<exists>c. frames (\<lambda>buf c. frame parse buf c cfg) front
      (conn\<lparr>phase := ChunkedBody stash (length front) ChunkScan_default\<rparr>) arrivals = (Complete (length front) n, c)
      \<and> phase c = ChunkedDone stash) \<longleftrightarrow>
   (\<exists>sc. scan (concat arrivals) ChunkScan_default = (Inr (Some n), sc) \<and> decoded sc \<le> max_body cfg
      \<and> consumed sc \<le> saturating_add (max_body cfg) CHUNK_WIRE_OVERHEAD)"
  using frames_chunked [of "conn\<lparr>phase := ChunkedBody stash (length front) ChunkScan_default\<rparr>" stash front
      ChunkScan_default "[]" parse cfg arrivals n]
  by (simp add: ChunkScan_default_def within_caps_def)

section \<open>Segmentation and the status of an oversize body\<close>

lemma outcome_chunks:
  assumes "body = pre @ concat (map chunk_wire cs) @ post" "consumed s = length pre" "state s = Size"
    "list_all chunk_ok cs"
  shows "\<exists>p. outcome body s = prepend p [] (outcome body (s\<lparr>consumed := length pre + length (concat (map chunk_wire cs)),
    decoded := decoded s + length (concat (map snd cs))\<rparr>))"
  using assms
proof (induction cs arbitrary: pre s)
  case Nil
  then have "s\<lparr>consumed := length pre + length (concat (map chunk_wire [])), decoded := decoded s + length (concat (map snd []))\<rparr> = s"
    by (cases s) simp
  then show ?case using prepend_Nil by metis
next
  case (Cons c cs)
  let ?s = "s\<lparr>consumed := length (pre @ chunk_wire c), decoded := decoded s + length (snd c), state := Size\<rparr>"
  have "outcome body s = prepend (snd c) [] (outcome body ?s)"
    using Cons.prems by (intro outcome_chunk [where post = "concat (map chunk_wire cs) @ post"]) simp_all
  moreover obtain p where "outcome body ?s = prepend p [] (outcome body (?s\<lparr>
      consumed := length (pre @ chunk_wire c) + length (concat (map chunk_wire cs)),
      decoded := decoded ?s + length (concat (map snd cs))\<rparr>))"
    using Cons.IH [of "pre @ chunk_wire c" ?s] Cons.prems by auto
  ultimately show ?case
    using Cons.prems(3) by (cases s) (auto simp: prepend_prepend add.assoc)
qed

lemma scan_chunks:
  assumes "list_all chunk_ok cs"
  shows "scan (concat (map chunk_wire cs)) ChunkScan_default = (Inr None,
    \<lparr>consumed = length (concat (map chunk_wire cs)), decoded = length (concat (map snd cs)), trailer_bytes = 0, state = Size\<rparr>)"
proof -
  let ?w = "concat (map chunk_wire cs)"
  let ?s = "\<lparr>consumed = length ?w, decoded = length (concat (map snd cs)), trailer_bytes = 0, state = Size\<rparr>"
  have "run_turn ?w ?s = Return (Inr None) ?s None"
    by (simp add: run_turn_def get_from_def size_turn_def find_crlf_def CHUNK_LINE_MAX_def)
  then have "outcome ?w ?s = (Inr None, ?s, [], [])" by (simp add: outcome_rec [of ?w ?s] cut_opt_def)
  with outcome_chunks [of ?w "[]" cs "[]" ChunkScan_default] assms show ?thesis
    by (auto simp: scan_outcome ChunkScan_default_def prepend_def)
qed

definition padded_chunk :: "bytes \<times> bytes" where
  "padded_chunk = (s2b ''1;'' @ replicate 254 0x61, s2b ''x'')"

lemma padded_chunk: "chunk_ok padded_chunk" "length (chunk_wire padded_chunk) = 261" "length (snd padded_chunk) = 1"
  by code_simp+

lemma scan_padded:
  "scan (concat (replicate k (chunk_wire padded_chunk))) ChunkScan_default =
     (Inr None, \<lparr>consumed = 261 * k, decoded = k, trailer_bytes = 0, state = Size\<rparr>)"
  using scan_chunks [of "replicate k padded_chunk"] padded_chunk
  by (simp add: list_all_iff length_concat sum_list_replicate)

text \<open>
  C21. The status of a body that is refused does depend on its arrivals. With a body cap of 70 bytes,
  65 chunks of one byte and a padded size line are refused with 400 for their framing when they
  arrive on their own, and the same bytes followed by six more such chunks in the same arrival are
  refused with 413 for their size.
\<close>

theorem oversize_status_depends_on_arrival:
  "phase (snd (frame parse (concat (replicate 65 (chunk_wire padded_chunk))) (conn\<lparr>phase := ExpectBody h Chunked\<rparr>)
      \<lparr>max_head = m, max_body = 70\<rparr>)) = Fail 400 (method_is_head h) \<and>
   phase (snd (frame parse (concat (replicate 65 (chunk_wire padded_chunk)) @ concat (replicate 6 (chunk_wire padded_chunk)))
      (conn\<lparr>phase := ExpectBody h Chunked\<rparr>) \<lparr>max_head = m, max_body = 70\<rparr>)) = Fail 413 (method_is_head h)"
proof
  have "concat (replicate 65 w) @ concat (replicate 6 w) = concat (replicate 71 w)" for w :: bytes
    by (simp flip: replicate_add concat_append)
  then show "phase (snd (frame parse (concat (replicate 65 (chunk_wire padded_chunk)) @ concat (replicate 6 (chunk_wire padded_chunk)))
      (conn\<lparr>phase := ExpectBody h Chunked\<rparr>) \<lparr>max_head = m, max_body = 70\<rparr>)) = Fail 413 (method_is_head h)"
    using scan_padded [of 71] by (simp add: frame_def scan_step_def get_from_def fail_def)
  show "phase (snd (frame parse (concat (replicate 65 (chunk_wire padded_chunk))) (conn\<lparr>phase := ExpectBody h Chunked\<rparr>)
      \<lparr>max_head = m, max_body = 70\<rparr>)) = Fail 400 (method_is_head h)"
    using scan_padded [of 65]
    by (simp add: frame_def scan_step_def get_from_def fail_def saturating_add_def usize_max_def usize_bound_def CHUNK_WIRE_OVERHEAD_def)
qed

end
