(* ===== verification/Calendar.thy ===== *)
theory Calendar
  imports Prelude
begin

text \<open>
  The reference HTTP dates are checked against: the proleptic Gregorian calendar counted year by
  year and month by month, and the arithmetic of the 400-year era that inverts it.
\<close>

section \<open>The calendar\<close>

text \<open>
  The proleptic Gregorian calendar, as it is defined: which years are leap years, how long the months
  are, and the number of days from the epoch to a date, counted year by year and month by month.
\<close>

definition leap :: "int \<Rightarrow> bool" where
  "leap y \<longleftrightarrow> 4 dvd y \<and> (\<not> 100 dvd y \<or> 400 dvd y)"

definition month_len :: "int \<Rightarrow> int \<Rightarrow> int" where
  "month_len y m = (if m = 2 then 28 + of_bool (leap y) else if m \<in> {4, 6, 9, 11} then 30 else 31)"

definition month_start :: "int \<Rightarrow> int \<Rightarrow> int" where
  "month_start y m = sum_list (map (month_len y) [1..m - 1])"

definition year_start :: "int \<Rightarrow> int" where
  "year_start y = (if 1970 \<le> y then sum_list (map (\<lambda>k. 365 + of_bool (leap k)) [1970..y - 1])
     else - sum_list (map (\<lambda>k. 365 + of_bool (leap k)) [y..1969]))"

definition civil_days :: "int \<Rightarrow> int \<Rightarrow> int \<Rightarrow> int" where
  "civil_days y m d = year_start y + month_start y m + (d - 1)"

definition valid_date :: "int \<Rightarrow> int \<Rightarrow> int \<Rightarrow> bool" where
  "valid_date y m d \<longleftrightarrow> 1 \<le> m \<and> m \<le> 12 \<and> 1 \<le> d \<and> d \<le> month_len y m"

lemma div_pred:
  fixes y n :: int
  assumes "0 < n"
  shows "(y - 1) div n = y div n - of_bool (n dvd y)"
proof (cases "n dvd y")
  case True
  then obtain k where y: "y = n * k" ..
  have "(n * k - 1) div n = k - 1"
    by (rule int_div_pos_eq [where r = "n - 1"]) (use assms in \<open>auto simp: algebra_simps\<close>)
  with y assms show ?thesis by simp
next
  case False
  then have "y mod n \<noteq> 0" by (simp add: dvd_eq_mod_eq_0)
  then have "1 \<le> y mod n" "y mod n < n" using assms pos_mod_sign [of n y] pos_mod_bound [of n y] by linarith+
  moreover have "y - 1 = n * (y div n) + (y mod n - 1)" using mult_div_mod_eq [of n y] by linarith
  ultimately have "(y - 1) div n = y div n" by (intro int_div_pos_eq [where r = "y mod n - 1"]) simp_all
  with False show ?thesis by simp
qed

lemma of_bool_leap:
  "(b \<Longrightarrow> a) \<Longrightarrow> (c \<Longrightarrow> b) \<Longrightarrow> of_bool (a \<and> (\<not> b \<or> c)) = of_bool a - of_bool b + (of_bool c :: int)"
  by (cases a; cases b; cases c) auto

lemma leap_div: "of_bool (leap y) = y div 4 - (y - 1) div 4 - (y div 100 - (y - 1) div 100) + (y div 400 - (y - 1) div 400)"
proof -
  have d: "y div n - (y - 1) div n = of_bool (n dvd y)" if "0 < n" for n
    unfolding div_pred [OF that] by (simp only: diff_diff_eq2 add_diff_cancel_left')
  have "100 dvd y \<Longrightarrow> 4 dvd y" "400 dvd y \<Longrightarrow> 100 dvd y"
    by (rule dvd_trans [where b = 100], simp, assumption, rule dvd_trans [where b = 400], simp, assumption)
  then show ?thesis
    unfolding leap_def d [of 4, OF zero_less_numeral] d [of 100, OF zero_less_numeral] d [of 400, OF zero_less_numeral]
    by (rule of_bool_leap)
qed

definition year_start_form :: "int \<Rightarrow> int" where
  "year_start_form y = 365 * (y - 1970) + ((y - 1) div 4 - (y - 1) div 100 + (y - 1) div 400) - 477"

lemma year_start_form_step: "year_start_form (y + 1) = year_start_form y + (365 + of_bool (leap y))"
  unfolding year_start_form_def leap_div by simp

lemma sum_years:
  "sum_list (map (\<lambda>k. 365 + of_bool (leap k)) [a..a + int n - 1]) = year_start_form (a + int n) - year_start_form a"
proof (induction n)
  case (Suc n)
  have "[a..a + int (Suc n) - 1] = [a..a + int n - 1] @ [a + int n]"
    using upto_rec2 [of a "a + int n"] by simp
  moreover have "year_start_form (a + int (Suc n)) = year_start_form (a + int n) + (365 + of_bool (leap (a + int n)))"
    unfolding year_start_form_step [symmetric] by (rule arg_cong [of _ _ year_start_form]) simp
  ultimately show ?case using Suc by (simp del: upto.simps)
qed simp

lemma year_start_form_epoch: "year_start_form 1970 = 0"
  unfolding year_start_form_def by code_simp

lemma year_start_closed: "year_start y = year_start_form y"
proof (cases "1970 \<le> y")
  case True
  then have n: "1970 + int (nat (y - 1970)) = y" by linarith
  have "sum_list (map (\<lambda>k. 365 + of_bool (leap k)) [1970..y - 1]) = year_start_form y"
    using sum_years [of 1970 "nat (y - 1970)"] unfolding n year_start_form_epoch diff_0_right .
  then show ?thesis unfolding year_start_def if_P [OF True] .
next
  case False
  then have n: "y + int (nat (1970 - y)) = 1970" by linarith
  have e: "(1970 - 1 :: int) = 1969" by simp
  have "sum_list (map (\<lambda>k. 365 + of_bool (leap k)) [y..1969]) = - year_start_form y"
    using sum_years [of y "nat (1970 - y)"] unfolding n year_start_form_epoch e diff_0 .
  then show ?thesis unfolding year_start_def if_not_P [OF False] by (simp only: minus_minus)
qed

lemma year_start_alt:
  "year_start y + of_bool (leap y) = 365 * (y - 1970) + (y div 4 - y div 100 + y div 400) - 477"
  "year_start (y + 1) = 365 * (y - 1969) + (y div 4 - y div 100 + y div 400) - 477"
  unfolding year_start_closed year_start_form_def leap_div by simp_all

section \<open>Civil from days\<close>

text \<open>The day of a 400-year era its March-based year \<open>k\<close> starts on, and the year the code reads off a day.\<close>

definition era_year_start :: "int \<Rightarrow> int" where
  "era_year_start k = 365 * k + k div 4 - k div 100"

definition era_scaled :: "int \<Rightarrow> int" where
  "era_scaled doe = doe - doe div 1460 + doe div 36524 - doe div 146096"

lemma era_scaled_mono: "0 \<le> a \<Longrightarrow> a \<le> b \<Longrightarrow> era_scaled a \<le> era_scaled b"
proof (induction "nat (b - a)" arbitrary: b)
  case (Suc n)
  have "era_scaled (b - 1) \<le> era_scaled b"
  proof -
    have "146096 dvd b \<Longrightarrow> 36524 dvd b" by (auto elim!: dvdE)
    then show ?thesis unfolding era_scaled_def by (auto simp: div_pred)
  qed
  moreover have "era_scaled a \<le> era_scaled (b - 1)" using Suc.hyps(1) [of "b - 1"] Suc.hyps(2) Suc.prems by simp
  ultimately show ?case by linarith
qed simp

lemma era_year_table:
  "list_all (\<lambda>k. 365 * k \<le> era_scaled (era_year_start k) \<and>
     era_scaled (if k = 399 then 146096 else era_year_start (k + 1) - 1) < 365 * (k + 1)) [0..399]"
  by code_simp

lemma month_table:
  "list_all (\<lambda>doy. let mp = (5 * doy + 2) div 153; d = doy - (153 * mp + 2) div 5 + 1
     in 0 \<le> mp \<and> mp \<le> 11 \<and> 1 \<le> d \<and> d \<le> (if mp = 11 then (if doy = 365 then 29 else 28)
        else if mp \<in> {1, 3, 6, 8} then 30 else 31)) [0..365]"
  by code_simp

lemma era_year:
  assumes "0 \<le> doe" "doe \<le> 146096"
  shows "\<exists>k. era_scaled doe div 365 = k \<and> 0 \<le> k \<and> k \<le> 399 \<and> era_year_start k \<le> doe \<and>
    doe \<le> (if k = 399 then 146096 else era_year_start (k + 1) - 1)"
proof -
  let ?K = "{k \<in> {0..399}. era_year_start k \<le> doe}"
  have K: "finite ?K" "0 \<in> ?K"
    using assms(1) by (auto simp: era_year_start_def intro: finite_subset [of _ "{0..399}"])
  define k where "k = Max ?K"
  have k: "k \<in> ?K" using K Max_in unfolding k_def by blast
  have hi: "doe \<le> (if k = 399 then 146096 else era_year_start (k + 1) - 1)"
  proof (cases "k = 399")
    case False
    then have "k + 1 \<notin> ?K" using Max_ge [OF K(1), of "k + 1"] unfolding k_def by auto
    with False k show ?thesis by auto
  qed (use assms(2) in simp)
  have "0 \<le> era_year_start k" using k unfolding era_year_start_def by (auto simp: div_int_pos_iff)
  with era_scaled_mono [of "era_year_start k" doe] era_scaled_mono [OF assms(1) hi] era_year_table k
  have "365 * k \<le> era_scaled doe" "era_scaled doe < 365 * (k + 1)"
    unfolding list_all_iff by force+
  then have "era_scaled doe div 365 = k" by (intro int_div_pos_eq [where r = "era_scaled doe - 365 * k"]) simp_all
  with k hi show ?thesis by auto
qed

lemma leap_era: "leap (k + 400 * e) = leap k"
proof -
  have "(4 :: int) dvd 400 * e" "(100 :: int) dvd 400 * e" "(400 :: int) dvd 400 * e" by (simp_all add: dvd_mult2)
  then show ?thesis unfolding leap_def by (simp only: dvd_add_left_iff)
qed

lemma era_last_day:
  assumes "0 \<le> k" "k \<le> 399" "era_year_start k + 365 \<le> (if k = 399 then 146096 else era_year_start (k + 1) - 1)"
  shows "leap (k + 1)"
proof (cases "k = 399")
  case True
  then show ?thesis by (simp add: leap_def)
next
  case False
  with assms have "era_year_start (k + 1) - era_year_start k \<ge> 366" by simp
  moreover have "(k + 1) div 400 = 0" "k div 400 = 0" using assms(1,2) False by simp_all
  moreover have "of_bool (leap (k + 1)) = (k + 1) div 4 - k div 4 - ((k + 1) div 100 - k div 100) + ((k + 1) div 400 - k div 400)"
    using leap_div [of "k + 1"] by simp
  moreover have "366 \<le> 365 * (k + 1) + a - b - (365 * k + c - d) \<Longrightarrow> e = 0 \<Longrightarrow> f = 0 \<Longrightarrow> l = a - c - (b - d) + (e - f)
      \<Longrightarrow> 1 \<le> l" for a b c d e f l :: int by presburger
  ultimately have "of_bool (leap (k + 1)) \<ge> (1 :: int)" unfolding era_year_start_def by blast
  then show ?thesis by (cases "leap (k + 1)") simp_all
qed

lemma int_cases_12:
  assumes "0 \<le> (n :: int)" "n \<le> 11"
  shows "n \<in> {0, 1, 2, 3, 4, 5, 6, 7, 8, 9, 10, 11}"
  using assms by (simp only: insert_iff empty_iff) presburger

lemma month_start_simps:
  "month_start y 1 = 0" "month_start y 2 = 31" "month_start y 3 = 59 + of_bool (leap y)"
  "month_start y 4 = 90 + of_bool (leap y)" "month_start y 5 = 120 + of_bool (leap y)"
  "month_start y 6 = 151 + of_bool (leap y)" "month_start y 7 = 181 + of_bool (leap y)"
  "month_start y 8 = 212 + of_bool (leap y)" "month_start y 9 = 243 + of_bool (leap y)"
  "month_start y 10 = 273 + of_bool (leap y)" "month_start y 11 = 304 + of_bool (leap y)"
  "month_start y 12 = 334 + of_bool (leap y)"
  by (simp_all add: month_start_def month_len_def upto.simps)

lemma march_month:
  assumes "0 \<le> mp" "mp \<le> 11" "m = (if mp < 10 then mp + 3 else mp - 9)"
    "yr = (if m \<le> 2 then y + 1 else y)"
  shows "month_start yr m + year_start yr = 365 * (y - 1970) + (y div 4 - y div 100 + y div 400) - 418 + (153 * mp + 2) div 5"
    "1 \<le> m \<and> m \<le> 12"
    "month_len yr m = (if mp = 11 then 28 + of_bool (leap (y + 1)) else if mp \<in> {1, 3, 6, 8} then 30 else 31)"
  using int_cases_12 [OF assms(1,2)] assms(3,4) year_start_alt [of y]
  by (auto simp: month_start_simps month_len_def)

lemma civil_from_days:
  assumes "z = days + 719468" "era = z div 146097" "doe = z mod 146097"
    "yoe = era_scaled doe div 365" "y = yoe + era * 400" "doy = doe - era_year_start yoe"
    "mp = (5 * doy + 2) div 153" "d = doy - (153 * mp + 2) div 5 + 1"
    "m = (if mp < 10 then mp + 3 else mp - 9)" "yr = (if m \<le> 2 then y + 1 else y)"
  shows "valid_date yr m d \<and> civil_days yr m d = days"
proof -
  have "0 \<le> doe" "doe \<le> 146096" using assms(3) pos_mod_bound [of 146097 z] by simp_all
  from era_year [OF this] assms(4) have k: "0 \<le> yoe" "yoe \<le> 399" "era_year_start yoe \<le> doe"
    "doe \<le> (if yoe = 399 then 146096 else era_year_start (yoe + 1) - 1)" by auto
  have len: "(if yoe = 399 then 146096 else era_year_start (yoe + 1) - 1) \<le> era_year_start yoe + 365"
  proof (cases "yoe = 399")
    case False
    have "(yoe + 1) div 4 \<le> yoe div 4 + 1" "yoe div 100 \<le> (yoe + 1) div 100" by simp_all
    with False show ?thesis by (simp add: era_year_start_def)
  qed (simp add: era_year_start_def)
  have doy: "0 \<le> doy" "doy \<le> 365" using k len assms(6) by linarith+
  have last: "leap (y + 1)" if "doy = 365"
  proof -
    have "leap (yoe + 1)" by (rule era_last_day [OF k(1,2)]) (use that k(4) assms(6) in linarith)
    then show ?thesis using leap_era [of "yoe + 1" era] assms(5) by (simp add: algebra_simps)
  qed
  have tab: "0 \<le> mp \<and> mp \<le> 11 \<and> 1 \<le> d \<and> d \<le> (if mp = 11 then (if doy = 365 then 29 else 28)
      else if mp \<in> {1, 3, 6, 8} then 30 else 31)"
    using month_table doy unfolding list_all_iff Let_def assms(7,8) by simp
  note month = march_month [OF conjunct1 [OF tab] _ assms(9,10)]
  have "d \<le> month_len yr m" using month(3) tab last by (auto split: if_splits)
  moreover have "civil_days yr m d = days"
  proof -
    have "y div 4 = yoe div 4 + 100 * era" "y div 100 = yoe div 100 + 4 * era" "y div 400 = era"
      using k(1,2) assms(5) by simp_all
    moreover have "z = 146097 * era + doe" using assms(2,3) mult_div_mod_eq [of 146097 z] by linarith
    moreover have "ms + ys = 365 * (y - 1970) + (a - b + c) - 418 + q \<Longrightarrow> a = a' + 100 * era \<Longrightarrow> b = b' + 4 * era \<Longrightarrow>
        c = era \<Longrightarrow> z = 146097 * era + doe \<Longrightarrow> doy = doe - (365 * yoe + a' - b') \<Longrightarrow> d = doy - q + 1 \<Longrightarrow>
        ys + ms + (d - 1) = days" for ms ys a b c a' b' q
      using assms(1,5) by simp
    ultimately show ?thesis
      using month(1) tab assms(6,8) unfolding civil_days_def era_year_start_def by blast
  qed
  ultimately show ?thesis using month(2) tab by (simp add: valid_date_def)
qed

end
