(* ===== verification/Http_Date.thy ===== *)
theory Http_Date
  imports Calendar Tn_Error
begin

text \<open>
  HTTP dates (\<^verbatim>\<open>src/http/date.rs\<close>): calendar fields from a unix timestamp, their rendering, and the
  cache of the rendered value. An \<^verbatim>\<open>i64\<close> is an integer, the casts to \<^verbatim>\<open>u8\<close> are written out; the sums of
  \<open>from_unix\<close> stay far inside an \<^verbatim>\<open>i64\<close> because the seconds are divided first.
\<close>

section \<open>The fields\<close>

record HttpDate =
  year :: int
  month :: int
  day :: int
  weekday :: int
  hour :: int
  minute :: int
  second :: int

definition MONTHS :: "string list" where
  "MONTHS = [''Jan'', ''Feb'', ''Mar'', ''Apr'', ''May'', ''Jun'', ''Jul'', ''Aug'', ''Sep'', ''Oct'', ''Nov'', ''Dec'']"

definition WEEKDAYS :: "string list" where
  "WEEKDAYS = [''Sun'', ''Mon'', ''Tue'', ''Wed'', ''Thu'', ''Fri'', ''Sat'']"

definition as_u8 :: "int \<Rightarrow> int" where
  "as_u8 n = n mod 256"

definition from_unix :: "int \<Rightarrow> HttpDate" where
  "from_unix secs =
     (let days = secs div 86400;
          secs_of_day = secs mod 86400;
          z = days + 719468;
          era = z div 146097;
          doe = z mod 146097;
          yoe = (doe - doe div 1460 + doe div 36524 - doe div 146096) div 365;
          y = yoe + era * 400;
          doy = doe - (365 * yoe + yoe div 4 - yoe div 100);
          mp = (5 * doy + 2) div 153;
          d = as_u8 (doy - (153 * mp + 2) div 5 + 1);
          m = as_u8 (if mp < 10 then mp + 3 else mp - 9);
          yr = (if m \<le> 2 then y + 1 else y);
          wd = as_u8 ((days + 4) mod 7)
      in \<lparr>year = yr, month = m, day = d, weekday = wd, hour = as_u8 (secs_of_day div 3600),
          minute = as_u8 (secs_of_day div 60 mod 60), second = as_u8 (secs_of_day mod 60)\<rparr>)"

section \<open>Rendering\<close>

text \<open>The sign-aware \<^verbatim>\<open>{:0w}\<close> of an integer.\<close>

definition zero_pad :: "nat \<Rightarrow> int \<Rightarrow> string" where
  "zero_pad w n =
     (let sign = (if n < 0 then ''-'' else []); ds = show_nat (nat \<bar>n\<bar>)
      in sign @ replicate (w - length sign - length ds) (CHR ''0'') @ ds)"

text \<open>\<^verbatim>\<open>Display\<close>; the table lookups panic out of range, which is \<open>None\<close>.\<close>

definition lookup :: "'a list \<Rightarrow> int \<Rightarrow> 'a option" where
  "lookup xs i = (if 0 \<le> i \<and> nat i < length xs then Some (xs ! nat i) else None)"

definition HttpDate_fmt :: "HttpDate \<Rightarrow> string option" where
  "HttpDate_fmt d =
     Option.bind (lookup WEEKDAYS (weekday d)) (\<lambda>wd.
     Option.bind (lookup MONTHS (month d - 1)) (\<lambda>mo.
     Some (wd @ '', '' @ zero_pad 2 (day d) @ '' '' @ mo @ '' '' @ zero_pad 4 (year d) @ '' ''
       @ zero_pad 2 (hour d) @ '':'' @ zero_pad 2 (minute d) @ '':'' @ zero_pad 2 (second d) @ '' GMT'')))"

section \<open>The cache\<close>

record DateCache =
  sec :: "int option"
  cache_len :: nat
  cache_text :: string

definition DateCache_default :: DateCache where
  "DateCache_default = \<lparr>sec = None, cache_len = 0, cache_text = replicate 40 (char_of (0 :: nat))\<rparr>"

text \<open>A \<^verbatim>\<open>Cursor\<close> over the buffer fails, and the \<^verbatim>\<open>expect\<close> panics, when the text does not fit.\<close>

definition DateCache_get :: "DateCache \<Rightarrow> int \<Rightarrow> (string \<times> DateCache) option" where
  "DateCache_get c secs =
     Option.bind
       (if sec c \<noteq> Some secs then
          Option.bind (HttpDate_fmt (from_unix secs)) (\<lambda>t.
            if length t > length (cache_text c) then None
            else Some (c\<lparr>cache_text := t @ drop (length t) (cache_text c), cache_len := length t, sec := Some secs\<rparr>))
        else Some c)
       (\<lambda>c. Some (take (cache_len c) (cache_text c), c))"

section \<open>The date of a timestamp\<close>

lemma as_u8_id [simp]: "0 \<le> n \<Longrightarrow> n < 256 \<Longrightarrow> as_u8 n = n"
  by (simp add: as_u8_def)

lemma month_len_le: "month_len y m \<le> 31"
  by (simp add: month_len_def)

lemma from_unix_fields:
  "valid_date (year (from_unix secs)) (month (from_unix secs)) (day (from_unix secs)) \<and>
   civil_days (year (from_unix secs)) (month (from_unix secs)) (day (from_unix secs)) = secs div 86400"
proof -
  define z era doe where "z = secs div 86400 + 719468" and "era = z div 146097" and "doe = z mod 146097"
  define yoe where "yoe = era_scaled doe div 365"
  define y where "y = yoe + era * 400"
  define doy where "doy = doe - era_year_start yoe"
  define mp where "mp = (5 * doy + 2) div 153"
  define d where "d = doy - (153 * mp + 2) div 5 + 1"
  define m where "m = (if mp < 10 then mp + 3 else mp - 9)"
  note defs = z_def era_def doe_def yoe_def y_def doy_def mp_def d_def m_def
  have c: "valid_date (if m \<le> 2 then y + 1 else y) m d \<and> civil_days (if m \<le> 2 then y + 1 else y) m d = secs div 86400"
    by (rule civil_from_days [OF defs refl])
  then have "as_u8 m = m" "as_u8 d = d"
    using month_len_le [of "if m \<le> 2 then y + 1 else y" m] by (auto simp: valid_date_def)
  moreover have "year (from_unix secs) = (if as_u8 m \<le> 2 then y + 1 else y)" "month (from_unix secs) = as_u8 m"
    "day (from_unix secs) = as_u8 d"
    by (simp_all only: from_unix_def Let_def HttpDate.select_convs defs era_scaled_def era_year_start_def)
  ultimately show ?thesis using c by simp
qed

lemma from_unix_clock:
  "hour (from_unix secs) = secs mod 86400 div 3600" "minute (from_unix secs) = secs mod 86400 div 60 mod 60"
  "second (from_unix secs) = secs mod 86400 mod 60" "weekday (from_unix secs) = (secs div 86400 + 4) mod 7"
proof -
  have "0 \<le> secs mod 86400" "secs mod 86400 < 86400" by simp_all
  then have "0 \<le> secs mod 86400 div 3600" "secs mod 86400 div 3600 < 256" by (simp_all add: pos_imp_zdiv_nonneg_iff)
  moreover have "0 \<le> secs mod 86400 div 60 mod 60" "secs mod 86400 div 60 mod 60 < 60"
    "0 \<le> secs mod 86400 mod 60" "secs mod 86400 mod 60 < 60"
    "0 \<le> (secs div 86400 + 4) mod 7" "(secs div 86400 + 4) mod 7 < 7" by simp_all
  ultimately show "hour (from_unix secs) = secs mod 86400 div 3600" "minute (from_unix secs) = secs mod 86400 div 60 mod 60"
    "second (from_unix secs) = secs mod 86400 mod 60" "weekday (from_unix secs) = (secs div 86400 + 4) mod 7"
    by (simp_all only: from_unix_def Let_def HttpDate.select_convs as_u8_id)
qed

lemma clock_sum: "(n :: int) div 3600 * 3600 + n div 60 mod 60 * 60 + n mod 60 = n"
proof -
  have "n div 60 div 60 = n div 3600" by (simp add: zdiv_zmult2_eq [symmetric])
  with mult_div_mod_eq [of 60 n] mult_div_mod_eq [of 60 "n div 60"] show ?thesis by linarith
qed

lemma clock_bounds:
  fixes n :: int
  assumes "0 \<le> n" "n < 86400"
  shows "n div 3600 \<in> {0..23}" "n div 60 mod 60 \<in> {0..59}" "n mod 60 \<in> {0..59}"
proof -
  have "n div 3600 \<le> 86399 div 3600" using assms(2) by (intro zdiv_mono1) simp_all
  with assms(1) show "n div 3600 \<in> {0..23}" by (simp add: pos_imp_zdiv_nonneg_iff)
  have "k mod 60 \<in> {0..59}" for k :: int
    using pos_mod_bound [of 60 k] pos_mod_sign [of 60 k] by auto
  then show "n div 60 mod 60 \<in> {0..59}" "n mod 60 \<in> {0..59}" by blast+
qed

text \<open>
  C39. The fields of a timestamp are its date: for every number of seconds, before or after 1970, the
  year, month and day form a date of the Gregorian calendar that lies as many days from the epoch,
  counted over year and month lengths, as the timestamp does; the time of day accounts for the
  remaining seconds; and the weekday is the one that many days from the Thursday of the epoch. No
  conversion to a byte loses anything.
\<close>

theorem from_unix_correct:
  "let d = from_unix secs; n = civil_days (year d) (month d) (day d)
   in valid_date (year d) (month d) (day d) \<and>
      secs = 86400 * n + 3600 * hour d + 60 * minute d + second d \<and>
      hour d \<in> {0..23} \<and> minute d \<in> {0..59} \<and> second d \<in> {0..59} \<and> weekday d = (n + 4) mod 7"
proof -
  define n where "n = secs mod 86400"
  have "0 \<le> n" "n < 86400" unfolding n_def by simp_all
  note b = clock_bounds [OF this]
  have "secs = 86400 * (secs div 86400) + n" unfolding n_def by simp
  then have "secs = 86400 * (secs div 86400) + 3600 * (n div 3600) + 60 * (n div 60 mod 60) + n mod 60"
    using clock_sum [of n] by linarith
  with b from_unix_fields [of secs] show ?thesis
    unfolding Let_def from_unix_clock n_def by simp
qed

section \<open>The cached rendering\<close>

lemma length_show_nat: "n < 10 ^ k \<Longrightarrow> 0 < k \<Longrightarrow> 0 < length (show_nat n) \<and> length (show_nat n) \<le> k"
proof (induction n arbitrary: k rule: show_nat.induct)
  case (1 n)
  show ?case
  proof (cases "n < 10")
    case True
    with 1 show ?thesis by (simp add: show_nat.simps [of n])
  next
    case False
    with 1 have "1 < k" by (cases k; cases "k - 1") auto
    then have "n div 10 < 10 ^ (k - 1)" using 1(2) by (cases k) (auto simp: less_mult_imp_div_less mult.commute)
    with 1(1) [OF False, of "k - 1"] \<open>1 < k\<close> False show ?thesis by (auto simp: show_nat.simps [of n])
  qed
qed

lemma length_zero_pad: "length (zero_pad w n) = max w (of_bool (n < 0) + length (show_nat (nat \<bar>n\<bar>)))" if "0 < w"
  using that by (simp only: zero_pad_def Let_def length_append length_replicate split: if_split) auto

lemma length_zero_pad_le:
  assumes "\<bar>n\<bar> < 10 ^ k" "0 < w" "w \<le> k + 1" "0 < k"
  shows "length (zero_pad w n) \<le> k + 1"
proof -
  have "nat \<bar>n\<bar> < 10 ^ k" using assms(1) by (simp add: nat_less_iff)
  with length_show_nat [OF this assms(4)] have "length (show_nat (nat \<bar>n\<bar>)) \<le> k" by blast
  then show ?thesis using assms(3) unfolding length_zero_pad [OF assms(2)] by (cases "n < 0") simp_all
qed

lemma length_zero_pad_eq:
  assumes "0 \<le> n" "n < 10 ^ w" "0 < w"
  shows "length (zero_pad w n) = w"
proof -
  have "nat \<bar>n\<bar> < 10 ^ w" using assms(1,2) by (simp add: nat_less_iff)
  from length_show_nat [OF this assms(3)] assms(1) show ?thesis by (simp add: length_zero_pad [OF assms(3)] max_def)
qed

lemma length_tables: "i < 7 \<Longrightarrow> length (WEEKDAYS ! i) = 3" "j < 12 \<Longrightarrow> length (MONTHS ! j) = 3"
  unfolding WEEKDAYS_def MONTHS_def by (auto simp: less_Suc_eq numeral_eq_Suc)

lemma date_renders:
  "\<exists>t. HttpDate_fmt (from_unix secs) = Some t \<and> length t = 25 + length (zero_pad 4 (year (from_unix secs)))"
proof -
  let ?d = "from_unix secs"
  have v: "valid_date (year ?d) (month ?d) (day ?d)" using from_unix_fields [of secs] by blast
  have n: "0 \<le> secs mod 86400" "secs mod 86400 < 86400" by simp_all
  have c: "hour ?d \<in> {0..23}" "minute ?d \<in> {0..59}" "second ?d \<in> {0..59}"
    unfolding from_unix_clock by (rule clock_bounds [OF n])+
  have w: "0 \<le> weekday ?d" "nat (weekday ?d) < 7" unfolding from_unix_clock by simp_all
  have m: "0 \<le> month ?d - 1" "nat (month ?d - 1) < 12" "0 \<le> day ?d" "day ?d < 100"
    using v month_len_le [of "year ?d" "month ?d"] by (auto simp: valid_date_def)
  have pad: "length (zero_pad 2 (day ?d)) = 2" "length (zero_pad 2 (hour ?d)) = 2"
    "length (zero_pad 2 (minute ?d)) = 2" "length (zero_pad 2 (second ?d)) = 2"
    using m(3,4) c by (auto intro!: length_zero_pad_eq)
  have "length WEEKDAYS = 7" "length MONTHS = 12" by (simp_all add: WEEKDAYS_def MONTHS_def)
  with w m(1,2) length_tables(1) [OF w(2)] length_tables(2) [OF m(2)] pad show ?thesis
    by (simp add: HttpDate_fmt_def lookup_def)
qed

text \<open>The year of an \<^verbatim>\<open>i64\<close> of seconds has at most twelve digits.\<close>

lemma year_bound:
  assumes "- (2 ^ 63) \<le> secs" "secs < 2 ^ 63"
  shows "\<bar>year (from_unix secs)\<bar> < 10 ^ 12"
proof -
  define z where "z = secs div 86400 + 719468"
  define k where "k = era_scaled (z mod 146097) div 365"
  define e where "e = z div 146097"
  have "secs div 86400 \<le> (2 ^ 63) div 86400" "- (2 ^ 63) div 86400 \<le> secs div 86400"
    using assms by (auto intro!: zdiv_mono1)
  then have "z \<le> 200000000000000" "- 200000000000000 \<le> z" unfolding z_def by simp_all
  then have "e \<le> 200000000000000 div 146097" "- 200000000000000 div 146097 \<le> e"
    unfolding e_def by (auto intro!: zdiv_mono1)
  then have e: "e \<le> 1368953503" "- 1368953504 \<le> e" by simp_all
  have "0 \<le> z mod 146097" "z mod 146097 \<le> 146096" using pos_mod_bound [of 146097 z] by simp_all
  then have k: "0 \<le> k" "k \<le> 399" using era_year unfolding k_def by blast+
  have "\<exists>m :: int. year (from_unix secs) = (if m \<le> 2 then k + e * 400 + 1 else k + e * 400)"
    unfolding from_unix_def Let_def k_def z_def e_def era_scaled_def HttpDate.select_convs by (rule exI) (rule refl)
  then obtain m :: int where "year (from_unix secs) = (if m \<le> 2 then k + e * 400 + 1 else k + e * 400)" ..
  then have "year (from_unix secs) = k + e * 400 \<or> year (from_unix secs) = k + e * 400 + 1" by (cases "m \<le> 2") simp_all
  moreover have "\<bar>k + e * 400\<bar> < 10 ^ 12" "\<bar>k + e * 400 + 1\<bar> < 10 ^ 12" using e k by simp_all
  ultimately show ?thesis by metis
qed

text \<open>A series of requests to one cache, each answered with the text of the second it asks for.\<close>

fun cache_gets :: "DateCache \<Rightarrow> int list \<Rightarrow> string list option" where
  "cache_gets c [] = Some []"
| "cache_gets c (s # ss) = Option.bind (DateCache_get c s) (\<lambda>(t, c). map_option (Cons t) (cache_gets c ss))"

definition cache_ok :: "DateCache \<Rightarrow> bool" where
  "cache_ok c \<longleftrightarrow> length (cache_text c) = 40 \<and>
     (\<forall>s. sec c = Some s \<longrightarrow> HttpDate_fmt (from_unix s) = Some (take (cache_len c) (cache_text c)))"

lemma cache_get_ok:
  assumes "cache_ok c" "- (2 ^ 63) \<le> s" "s < 2 ^ 63"
  shows "\<exists>t c'. DateCache_get c s = Some (t, c') \<and> HttpDate_fmt (from_unix s) = Some t \<and> cache_ok c'"
proof (cases "sec c = Some s")
  case True
  with assms(1) show ?thesis by (simp add: DateCache_get_def cache_ok_def)
next
  case False
  obtain t where t: "HttpDate_fmt (from_unix s) = Some t" "length t = 25 + length (zero_pad 4 (year (from_unix s)))"
    using date_renders by blast
  moreover have "length (zero_pad 4 (year (from_unix s))) \<le> 12 + 1"
    by (rule length_zero_pad_le [OF year_bound [OF assms(2,3)]]) simp_all
  ultimately have "length t \<le> 40" by simp
  with False t(1) assms(1) show ?thesis by (auto simp: DateCache_get_def cache_ok_def)
qed

text \<open>
  C40. The date cache is invisible: for any series of 64-bit seconds, in any order, with repeats and
  clock steps in either direction, every answer is the rendering of the second asked for, and
  rendering into the 40-byte buffer never overflows it. A year of four digits renders to the 29
  bytes of an IMF-fixdate.
\<close>

theorem date_cache_coherent:
  assumes "\<forall>s \<in> set ss. - (2 ^ 63) \<le> s \<and> s < 2 ^ 63"
  shows "\<exists>ts. cache_gets DateCache_default ss = Some ts \<and> map Some ts = map (\<lambda>s. HttpDate_fmt (from_unix s)) ss \<and>
    (\<forall>i < length ss. 0 \<le> year (from_unix (ss ! i)) \<and> year (from_unix (ss ! i)) < 10000 \<longrightarrow> length (ts ! i) = 29)"
proof -
  have "\<exists>ts. cache_gets c ss = Some ts \<and> map Some ts = map (\<lambda>s. HttpDate_fmt (from_unix s)) ss" if "cache_ok c" for c
    using assms that
  proof (induction ss arbitrary: c)
    case (Cons s ss)
    then obtain t c' where t: "DateCache_get c s = Some (t, c')" "HttpDate_fmt (from_unix s) = Some t" "cache_ok c'"
      using cache_get_ok [of c s] by auto
    from Cons.IH [OF _ t(3)] Cons.prems(1) obtain ts
      where "cache_gets c' ss = Some ts" "map Some ts = map (\<lambda>s. HttpDate_fmt (from_unix s)) ss" by auto
    with t show ?case by auto
  qed simp
  moreover have "cache_ok DateCache_default" by (simp add: cache_ok_def DateCache_default_def)
  ultimately obtain ts where ts: "cache_gets DateCache_default ss = Some ts"
    "map Some ts = map (\<lambda>s. HttpDate_fmt (from_unix s)) ss" by blast
  have "length (ts ! i) = 29" if i: "i < length ss" "0 \<le> year (from_unix (ss ! i))" "year (from_unix (ss ! i)) < 10000" for i
  proof -
    from ts(2) have "length ts = length ss" by (metis length_map)
    then have "Some (ts ! i) = HttpDate_fmt (from_unix (ss ! i))" using ts(2) i(1) by (metis nth_map)
    moreover have "length (zero_pad 4 (year (from_unix (ss ! i)))) = 4" by (rule length_zero_pad_eq) (use i in simp_all)
    ultimately show ?thesis using date_renders [of "ss ! i"] by auto
  qed
  with ts show ?thesis by blast
qed

theorem date_cache_coherent_witness:
  "\<exists>ts. cache_gets DateCache_default [784111777, 784111777, 0] = Some ts \<and>
     map Some ts = map (\<lambda>s. HttpDate_fmt (from_unix s)) [784111777, 784111777, 0]"
proof -
  have "\<forall>s \<in> set [784111777, 784111777, 0 :: int]. - (2 ^ 63) \<le> s \<and> s < 2 ^ 63" by simp
  from date_cache_coherent [OF this] show ?thesis by blast
qed

lemma date_rfc_example: "HttpDate_fmt (from_unix 784111777) = Some ''Sun, 06 Nov 1994 08:49:37 GMT''"
  by code_simp

end
