(* ===== verification/User_Data.thy ===== *)
theory User_Data
  imports Prelude
begin

text \<open>
  Completion routing (\<^verbatim>\<open>src/uring/user_data.rs\<close>, the tag vocabulary of \<^verbatim>\<open>src/net/core/conn.rs\<close> and the
  generation-guarded slot of \<^verbatim>\<open>src/uring/slots.rs\<close>): the 64-bit token an operation is submitted with
  and its completion carries back.
\<close>

section \<open>The token\<close>

definition SLOT_MASK :: u64 where "SLOT_MASK = 0x00ffffff"
definition TAG_FS_DOMAIN :: byte where "TAG_FS_DOMAIN = 0x80"
definition TAG_POSTED :: byte where "TAG_POSTED = 0x7f"

definition pack_raw :: "byte \<Rightarrow> u32 \<Rightarrow> u32 \<Rightarrow> u64" where
  "pack_raw tag slot generation =
     ucast tag OR push_bit 8 (ucast slot AND SLOT_MASK) OR push_bit 32 (ucast generation)"

definition unpack_raw :: "u64 \<Rightarrow> byte \<times> u32 \<times> u32" where
  "unpack_raw user_data =
     (let tag = ucast (user_data AND 0xff);
          slot = ucast (drop_bit 8 user_data AND SLOT_MASK);
          generation = ucast (drop_bit 32 user_data)
      in (tag, slot, generation))"

section \<open>The stream operations\<close>

datatype Op =
    Accept | RecvHeader | RecvBody | Send | Close | Wake | Cancel | LinkTimeout | Deadline | Cred
  | Shutdown | Peername | FdInstall | AcceptRetry | HandshakeTimeout | DetachInstall | SpliceRecv
  | SplicePoll | RecvClock | SpliceDeadline | Connect | RecvRetry | ReceiptDeadline | Maintain
  | Handoff | Handed

fun Op_tag :: "Op \<Rightarrow> byte" where
  "Op_tag Accept = 0"
| "Op_tag RecvHeader = 1"
| "Op_tag RecvBody = 2"
| "Op_tag Send = 3"
| "Op_tag Close = 4"
| "Op_tag Wake = 5"
| "Op_tag Cancel = 6"
| "Op_tag LinkTimeout = 7"
| "Op_tag Deadline = 8"
| "Op_tag Cred = 9"
| "Op_tag Shutdown = 10"
| "Op_tag Peername = 11"
| "Op_tag FdInstall = 12"
| "Op_tag AcceptRetry = 13"
| "Op_tag HandshakeTimeout = 14"
| "Op_tag DetachInstall = 15"
| "Op_tag SpliceRecv = 16"
| "Op_tag SplicePoll = 17"
| "Op_tag RecvClock = 18"
| "Op_tag SpliceDeadline = 19"
| "Op_tag Connect = 20"
| "Op_tag RecvRetry = 21"
| "Op_tag ReceiptDeadline = 22"
| "Op_tag Maintain = 23"
| "Op_tag Handoff = 24"
| "Op_tag Handed = TAG_POSTED"

definition Op_from_u8 :: "byte \<Rightarrow> Op option" where
  "Op_from_u8 v =
     (if v = 0 then Some Accept
      else if v = 1 then Some RecvHeader
      else if v = 2 then Some RecvBody
      else if v = 3 then Some Send
      else if v = 4 then Some Close
      else if v = 5 then Some Wake
      else if v = 6 then Some Cancel
      else if v = 7 then Some LinkTimeout
      else if v = 8 then Some Deadline
      else if v = 9 then Some Cred
      else if v = 10 then Some Shutdown
      else if v = 11 then Some Peername
      else if v = 12 then Some FdInstall
      else if v = 13 then Some AcceptRetry
      else if v = 14 then Some HandshakeTimeout
      else if v = 15 then Some DetachInstall
      else if v = 16 then Some SpliceRecv
      else if v = 17 then Some SplicePoll
      else if v = 18 then Some RecvClock
      else if v = 19 then Some SpliceDeadline
      else if v = 20 then Some Connect
      else if v = 21 then Some RecvRetry
      else if v = 22 then Some ReceiptDeadline
      else if v = 23 then Some Maintain
      else if v = 24 then Some Handoff
      else if v = TAG_POSTED then Some Handed
      else None)"

definition pack :: "Op \<Rightarrow> u32 \<Rightarrow> u32 \<Rightarrow> u64" where
  "pack op slot generation = pack_raw (Op_tag op) slot generation"

definition unpack :: "u64 \<Rightarrow> Op option \<times> u32 \<times> u32" where
  "unpack user_data =
     (case unpack_raw user_data of (tag, slot, generation) \<Rightarrow> (Op_from_u8 tag, slot, generation))"

section \<open>Round trips\<close>

lemma SLOT_MASK_mask: "SLOT_MASK = mask 24" and byte_mask: "(0xff :: u64) = mask 8"
  by (simp_all add: SLOT_MASK_def mask_eq_exp_minus_1)

lemmas token_bits = bit_simps SLOT_MASK_mask byte_mask

lemma unpack_raw_pack_raw: "unpack_raw (pack_raw tag slot gen) = (tag, slot AND 0xffffff, gen)"
proof -
  have m: "(0xffffff :: u32) = mask 24" by (simp add: mask_eq_exp_minus_1)
  have "ucast (pack_raw tag slot gen AND 0xff) = tag"
    by (rule bit_word_eqI) (auto simp: pack_raw_def token_bits)
  moreover have "ucast (drop_bit 8 (pack_raw tag slot gen) AND SLOT_MASK) = slot AND mask 24"
    by (rule bit_word_eqI) (auto simp: pack_raw_def token_bits dest: bit_imp_le_length)
  moreover have "ucast (drop_bit 32 (pack_raw tag slot gen)) = gen"
    by (rule bit_word_eqI) (auto simp: pack_raw_def token_bits dest: bit_imp_le_length)
  ultimately show ?thesis by (simp add: unpack_raw_def m)
qed

lemma pack_raw_unpack_raw: "(case unpack_raw ud of (tag, slot, gen) \<Rightarrow> pack_raw tag slot gen) = ud"
  unfolding unpack_raw_def Let_def prod.case pack_raw_def
proof (rule bit_word_eqI)
  fix n
  assume n: "n < LENGTH(64)"
  consider "n < 8" | "8 \<le> n" "n < 32" | "32 \<le> n" by linarith
  then show "bit (ucast (ucast (ud AND 0xff) :: byte) OR
      push_bit 8 (ucast (ucast (drop_bit 8 ud AND SLOT_MASK) :: u32) AND SLOT_MASK) OR
      push_bit 32 (ucast (ucast (drop_bit 32 ud) :: u32))) n = bit ud n"
    using n by cases (simp_all add: token_bits, linarith+)
qed

lemma Op_from_u8_tag: "Op_from_u8 (Op_tag op) = Some op"
  by (cases op) (simp_all add: Op_from_u8_def TAG_POSTED_def)

lemma Op_from_u8_Some: "Op_from_u8 v = Some op \<longleftrightarrow> v = Op_tag op"
  by (auto simp: Op_from_u8_tag) (auto simp: Op_from_u8_def split: if_splits)

lemma Op_tag_domain: "Op_tag op AND TAG_FS_DOMAIN = 0"
  by (cases op) (simp_all add: TAG_FS_DOMAIN_def TAG_POSTED_def)

text \<open>
  Completions are routed to the operation that was submitted: a token decodes to the operation,
  the 24-bit slot and the low generation it was packed from; every 64-bit token is the packing of
  what it decodes to, so no two distinct tokens decode alike; and the tag of a stream operation
  never has the bit that marks the file-system domain.
\<close>

theorem user_data_roundtrip:
  "unpack (pack op slot gen) = (Some op, slot AND 0xffffff, gen) \<and>
   (case unpack_raw ud of (tag, slot, gen) \<Rightarrow> pack_raw tag slot gen) = ud \<and>
   (case unpack ud of (r, slot, gen) \<Rightarrow> r = Some op \<longleftrightarrow> ud = pack op slot gen) \<and>
   fst (unpack_raw (pack op slot gen)) AND TAG_FS_DOMAIN = 0"
proof -
  obtain tag s g where u: "unpack_raw ud = (tag, s, g)" by (cases "unpack_raw ud")
  then have p: "pack_raw tag s g = ud" using pack_raw_unpack_raw [of ud] by simp
  have "ud = pack_raw (Op_tag op) s g \<Longrightarrow> fst (unpack_raw ud) = Op_tag op"
    by (simp only: unpack_raw_pack_raw fst_conv)
  with u p have "tag = Op_tag op \<longleftrightarrow> ud = pack_raw (Op_tag op) s g" by (metis fst_conv)
  then have "case unpack ud of (r, slot, gen) \<Rightarrow> r = Some op \<longleftrightarrow> ud = pack op slot gen"
    by (simp only: unpack_def pack_def u prod.case Op_from_u8_Some)
  moreover have "unpack (pack op slot gen) = (Some op, slot AND 0xffffff, gen)"
    "fst (unpack_raw (pack op slot gen)) AND TAG_FS_DOMAIN = 0"
    by (simp_all only: unpack_def pack_def unpack_raw_pack_raw prod.case Op_from_u8_tag fst_conv Op_tag_domain)
  ultimately show ?thesis using pack_raw_unpack_raw by blast
qed

section \<open>Generation-guarded slots\<close>

record 's SlotEntry =
  generation :: u64
  entry_state :: 's

text \<open>A run of labelled steps.\<close>

inductive trace :: "('t \<Rightarrow> 'l \<Rightarrow> 't \<Rightarrow> bool) \<Rightarrow> 't \<Rightarrow> 'l list \<Rightarrow> 't \<Rightarrow> bool" for step where
  trace_Nil: "trace step t [] t"
| trace_Cons: "step t l t' \<Longrightarrow> trace step t' ls t'' \<Longrightarrow> trace step t (l # ls) t''"

inductive_cases trace_ConsE: "trace step t (l # ls) t''"

lemma trace_invariant:
  assumes "trace step t ls t'" "P t" "\<And>t l t'. step t l t' \<Longrightarrow> P t \<Longrightarrow> P t'"
  shows "P t'"
  using assms by induction auto

text \<open>
  A table whose slots carry a generation: a step labelled with a slot empties it and bumps its
  generation, and no other step changes a generation. So a handle that was minted with the
  generation of a slot stops matching when the slot is recycled, until the counter has wrapped.
\<close>

lemma ucast_word_of_nat_64: "ucast (word_of_nat n :: u64) = (word_of_nat n :: u32)"
  by (rule bit_word_eqI) (simp add: bit_simps)

locale generational =
  fixes gen :: "'t \<Rightarrow> nat \<Rightarrow> u64 option" and step :: "'t \<Rightarrow> nat option \<Rightarrow> 't \<Rightarrow> bool"
  assumes bump: "step t l t' \<Longrightarrow> gen t' s = Some g' \<Longrightarrow>
    \<exists>g. gen t s = Some g \<and> g' = (if l = Some s then g + 1 else g)"
begin

lemma trace_gen:
  assumes "trace step t ls t'" "gen t' s = Some g'"
  shows "\<exists>g. gen t s = Some g \<and> g' = g + word_of_nat (count_list ls (Some s))"
  using assms
proof induction
  case (trace_Cons t l t1 ls t2)
  then obtain g1 where g1: "gen t1 s = Some g1" "g' = g1 + word_of_nat (count_list ls (Some s))" by blast
  from bump [OF trace_Cons.hyps(1) g1(1)] g1(2) show ?case by (auto simp: algebra_simps)
qed simp

lemma recycled_differs:
  assumes "trace step t ls t'" "gen t s = Some g" "gen t' s = Some g'"
    "0 < count_list ls (Some s)" "count_list ls (Some s) < 2 ^ 64"
  shows "g' \<noteq> g"
proof -
  from trace_gen [OF assms(1,3)] assms(2) have "g' = g + word_of_nat (count_list ls (Some s))" by simp
  moreover have "word_of_nat (count_list ls (Some s)) \<noteq> (0 :: u64)"
    using assms(4,5) by (simp add: word_of_nat_eq_0_iff nat_dvd_not_less)
  ultimately show ?thesis by simp
qed

lemma recycled_low_differs:
  assumes "trace step t ls t'" "gen t s = Some g" "gen t' s = Some g'"
    "0 < count_list ls (Some s)" "count_list ls (Some s) < 2 ^ 32"
  shows "(ucast g' :: u32) \<noteq> ucast g"
proof -
  let ?n = "count_list ls (Some s)"
  from trace_gen [OF assms(1,3)] assms(2) have "g' = word_of_nat (unat g + ?n)" by simp
  then have "(ucast g' :: u32) = word_of_nat (unat g + ?n)" by (simp only: ucast_word_of_nat_64)
  also have "\<dots> = ucast g + word_of_nat ?n" using ucast_word_of_nat_64 [of "unat g"] by simp
  finally have "(ucast g' :: u32) = ucast g + word_of_nat ?n" .
  moreover have "word_of_nat ?n \<noteq> (0 :: u32)"
    using assms(4,5) by (simp add: word_of_nat_eq_0_iff nat_dvd_not_less)
  ultimately show ?thesis by simp
qed

end

end
