(* ===== verification/Conn_Table.thy ===== *)
theory Conn_Table
  imports User_Data
begin

text \<open>
  The connection table (\<^verbatim>\<open>src/net/core/table.rs\<close>): one state machine per pool slot, the generation that
  guards its reuse and the count of live connections. The connection itself is opaque to the table
  and so the type parameter \<open>'c\<close>. Every operation that indexes a slot without a check, or that panics
  on a slot in the wrong state, returns \<open>None\<close> where the source panics.
\<close>

section \<open>Addresses\<close>

datatype SocketAddr = V4 u32 u16 | V6 "128 word" u16 u32 u32
datatype ServerAddr = Tcp u32 u16 | Tcp6 "128 word" u16 u32 u32 | Unix bytes

record PeerCred =
  pid :: "32 word"
  uid :: u32
  gid :: u32

datatype ClientAddr = Inet SocketAddr | UnixPeer "PeerCred option"

record SockAddr =
  storage :: bytes
  addr_len :: u32

section \<open>Slots\<close>

text \<open>The landing pads are memory the kernel writes: their bytes.\<close>

datatype PendingPeer = PeerCredFetch u32 bytes | PeerName u32 bytes

record 'u PendingConnect =
  addr :: SockAddr
  peer :: ClientAddr
  user_state :: 'u
  server_addr :: ServerAddr
  timeout :: "int \<times> int"
  tls :: bool

datatype ('c, 'u) SlotState =
    Empty
  | Connecting "'u PendingConnect"
  | TlsConnecting "'u PendingConnect"
  | PeerFetch PendingPeer
  | TlsInstalling u32
  | TlsParked ClientAddr
  | Serving 'c
  | Detaching 'c
  | Detached 'c

record ('c, 'u) ConnTable =
  slots :: "('c, 'u) SlotState SlotEntry list"
  active :: u32

definition ConnTable_new :: "u32 \<Rightarrow> ('c, 'u) ConnTable" where
  "ConnTable_new pool_size =
     \<lparr>slots = replicate (unat pool_size) \<lparr>generation = 0, entry_state = Empty\<rparr>, active = 0\<rparr>"

definition table_len :: "('c, 'u) ConnTable \<Rightarrow> nat" where
  "table_len t = length (slots t)"

text \<open>\<^verbatim>\<open>self.slots.get(slot)\<close> and the assignment of a slot's state, \<open>None\<close> out of range.\<close>

definition get_slot :: "('c, 'u) ConnTable \<Rightarrow> nat \<Rightarrow> ('c, 'u) SlotState SlotEntry option" where
  "get_slot t slot = (if slot < length (slots t) then Some (slots t ! slot) else None)"

definition put_state :: "('c, 'u) ConnTable \<Rightarrow> nat \<Rightarrow> ('c, 'u) SlotState \<Rightarrow> ('c, 'u) ConnTable" where
  "put_state t slot st = t\<lparr>slots := (slots t)[slot := (slots t ! slot)\<lparr>entry_state := st\<rparr>]\<rparr>"

definition assign_state :: "('c, 'u) ConnTable \<Rightarrow> nat \<Rightarrow> ('c, 'u) SlotState \<Rightarrow> ('c, 'u) ConnTable option" where
  "assign_state t slot st = (if slot < length (slots t) then Some (put_state t slot st) else None)"

section \<open>Queries\<close>

definition has_free_slot :: "('c, 'u) ConnTable \<Rightarrow> bool" where
  "has_free_slot t = list_ex (\<lambda>e. entry_state e = Empty) (slots t)"

definition is_empty :: "('c, 'u) ConnTable \<Rightarrow> nat \<Rightarrow> bool" where
  "is_empty t slot = (case get_slot t slot of None \<Rightarrow> True | Some e \<Rightarrow> entry_state e = Empty)"

definition slot_generation :: "('c, 'u) ConnTable \<Rightarrow> nat \<Rightarrow> u64 option" where
  "slot_generation t slot = map_option generation (get_slot t slot)"

definition generation_low :: "('c, 'u) ConnTable \<Rightarrow> nat \<Rightarrow> u32 option" where
  "generation_low t slot = map_option (\<lambda>e. ucast (generation e)) (get_slot t slot)"

definition get_conn :: "('c, 'u) ConnTable \<Rightarrow> nat \<Rightarrow> 'c option" where
  "get_conn t slot = Option.bind (get_slot t slot) (\<lambda>e. case entry_state e of Serving c \<Rightarrow> Some c | _ \<Rightarrow> None)"

definition conn_mut :: "('c, 'u) ConnTable \<Rightarrow> nat \<Rightarrow> ('c \<Rightarrow> 'c) \<Rightarrow> ('c, 'u) ConnTable option" where
  "conn_mut t slot f = map_option (\<lambda>c. put_state t slot (Serving (f c))) (get_conn t slot)"

definition slot_matches :: "('c, 'u) ConnTable \<Rightarrow> nat \<Rightarrow> u64 \<Rightarrow> bool" where
  "slot_matches t slot g = (case get_slot t slot of None \<Rightarrow> False
     | Some e \<Rightarrow> generation e = g \<and> (case entry_state e of Serving _ \<Rightarrow> True | _ \<Rightarrow> False))"

definition push_conn :: "('c, 'u) ConnTable \<Rightarrow> nat \<Rightarrow> u64 \<Rightarrow> ('c \<times> bool) option" where
  "push_conn t slot g = Option.bind (get_slot t slot) (\<lambda>e.
     if generation e \<noteq> g then None
     else case entry_state e of
         Serving c \<Rightarrow> Some (c, True)
       | Detaching c \<Rightarrow> Some (c, False)
       | Detached c \<Rightarrow> Some (c, False)
       | _ \<Rightarrow> None)"

definition conn_at_cqe :: "('c, 'u) ConnTable \<Rightarrow> nat \<Rightarrow> u32 \<Rightarrow> 'c option" where
  "conn_at_cqe t slot g = Option.bind (get_slot t slot) (\<lambda>e.
     if ucast (generation e) \<noteq> g then None
     else case entry_state e of
         Serving c \<Rightarrow> Some c
       | Detaching c \<Rightarrow> Some c
       | Detached c \<Rightarrow> Some c
       | _ \<Rightarrow> None)"

definition slot_matches_cqe :: "('c, 'u) ConnTable \<Rightarrow> nat \<Rightarrow> u32 \<Rightarrow> bool" where
  "slot_matches_cqe t slot g = (case get_slot t slot of None \<Rightarrow> False
     | Some e \<Rightarrow> ucast (generation e) = g \<and> (case entry_state e of Serving _ \<Rightarrow> True | _ \<Rightarrow> False))"

definition connecting_tls :: "('c, 'u) ConnTable \<Rightarrow> nat \<Rightarrow> bool" where
  "connecting_tls t slot = (case map_option entry_state (get_slot t slot) of Some (Connecting p) \<Rightarrow> tls p | _ \<Rightarrow> False)"

definition tls_connecting_server_addr :: "('c, 'u) ConnTable \<Rightarrow> nat \<Rightarrow> ServerAddr option" where
  "tls_connecting_server_addr t slot =
     (case map_option entry_state (get_slot t slot) of Some (TlsConnecting p) \<Rightarrow> Some (server_addr p) | _ \<Rightarrow> None)"

section \<open>Transitions\<close>

definition install :: "('c, 'u) ConnTable \<Rightarrow> nat \<Rightarrow> 'c \<Rightarrow> ('c, 'u) ConnTable option" where
  "install t slot c = map_option (\<lambda>t. t\<lparr>active := active t + 1\<rparr>) (assign_state t slot (Serving c))"

definition begin_peer_fetch :: "('c, 'u) ConnTable \<Rightarrow> nat \<Rightarrow> PendingPeer \<Rightarrow> ('c, 'u) ConnTable option" where
  "begin_peer_fetch t slot pad = assign_state t slot (PeerFetch pad)"

definition take_peer_fetch :: "('c, 'u) ConnTable \<Rightarrow> nat \<Rightarrow> PendingPeer option \<times> ('c, 'u) ConnTable" where
  "take_peer_fetch t slot = (case map_option entry_state (get_slot t slot) of
     Some (PeerFetch pad) \<Rightarrow> (Some pad, put_state t slot Empty) | _ \<Rightarrow> (None, t))"

definition reserve_connecting :: "('c, 'u) ConnTable \<Rightarrow> 'u PendingConnect \<Rightarrow> nat option \<times> ('c, 'u) ConnTable" where
  "reserve_connecting t p = (case List.find (\<lambda>i. entry_state (slots t ! i) = Empty) [0..<length (slots t)] of
     None \<Rightarrow> (None, t) | Some slot \<Rightarrow> (Some slot, put_state t slot (Connecting p)))"

definition take_connecting :: "('c, 'u) ConnTable \<Rightarrow> nat \<Rightarrow> 'u PendingConnect option \<times> ('c, 'u) ConnTable" where
  "take_connecting t slot = (case map_option entry_state (get_slot t slot) of
     Some (Connecting p) \<Rightarrow> (Some p, put_state t slot Empty) | _ \<Rightarrow> (None, t))"

definition park_tls_connecting :: "('c, 'u) ConnTable \<Rightarrow> nat \<Rightarrow> 'u PendingConnect \<Rightarrow> ('c, 'u) ConnTable option" where
  "park_tls_connecting t slot p = assign_state t slot (TlsConnecting p)"

definition take_tls_connecting :: "('c, 'u) ConnTable \<Rightarrow> nat \<Rightarrow> 'u PendingConnect option \<times> ('c, 'u) ConnTable" where
  "take_tls_connecting t slot = (case map_option entry_state (get_slot t slot) of
     Some (TlsConnecting p) \<Rightarrow> (Some p, put_state t slot Empty) | _ \<Rightarrow> (None, t))"

definition begin_tls_install :: "('c, 'u) ConnTable \<Rightarrow> nat \<Rightarrow> u32 \<Rightarrow> ('c, 'u) ConnTable option" where
  "begin_tls_install t slot listener = assign_state t slot (TlsInstalling listener)"

definition take_tls_installing :: "('c, 'u) ConnTable \<Rightarrow> nat \<Rightarrow> u32 option \<times> ('c, 'u) ConnTable" where
  "take_tls_installing t slot = (case map_option entry_state (get_slot t slot) of
     Some (TlsInstalling listener) \<Rightarrow> (Some listener, put_state t slot Empty) | _ \<Rightarrow> (None, t))"

definition park_tls :: "('c, 'u) ConnTable \<Rightarrow> nat \<Rightarrow> ClientAddr \<Rightarrow> ('c, 'u) ConnTable option" where
  "park_tls t slot p = assign_state t slot (TlsParked p)"

definition take_tls_parked :: "('c, 'u) ConnTable \<Rightarrow> nat \<Rightarrow> ClientAddr option \<times> ('c, 'u) ConnTable" where
  "take_tls_parked t slot = (case map_option entry_state (get_slot t slot) of
     Some (TlsParked p) \<Rightarrow> (Some p, put_state t slot Empty) | _ \<Rightarrow> (None, t))"

definition begin_detach :: "('c, 'u) ConnTable \<Rightarrow> nat \<Rightarrow> ('c, 'u) ConnTable option" where
  "begin_detach t slot = (case map_option entry_state (get_slot t slot) of
     Some (Serving c) \<Rightarrow> Some (put_state t slot (Detaching c)) | _ \<Rightarrow> None)"

definition park_detached_in_place :: "('c, 'u) ConnTable \<Rightarrow> nat \<Rightarrow> 'c option \<times> ('c, 'u) ConnTable" where
  "park_detached_in_place t slot = (case map_option entry_state (get_slot t slot) of
     Some (Detaching c) \<Rightarrow> (Some c, put_state t slot (Detached c)) | _ \<Rightarrow> (None, t))"

definition reattach :: "('c, 'u) ConnTable \<Rightarrow> nat \<Rightarrow> bool \<times> ('c, 'u) ConnTable" where
  "reattach t slot = (case map_option entry_state (get_slot t slot) of
     Some (Detaching c) \<Rightarrow> (True, put_state t slot (Serving c))
   | Some (Detached c) \<Rightarrow> (True, put_state t slot (Serving c))
   | _ \<Rightarrow> (False, t))"

definition leak :: "('c, 'u) ConnTable \<Rightarrow> ('c, 'u) ConnTable" where
  "leak t = t\<lparr>slots := [], active := 0\<rparr>"

fun live :: "('c, 'u) SlotState \<Rightarrow> bool" where
  "live (Serving _) \<longleftrightarrow> True"
| "live (Detaching _) \<longleftrightarrow> True"
| "live (Detached _) \<longleftrightarrow> True"
| "live _ \<longleftrightarrow> False"

definition free_slot :: "('c, 'u) ConnTable \<Rightarrow> nat \<Rightarrow> bool \<times> ('c, 'u) ConnTable" where
  "free_slot t slot =
     (case get_slot t slot of
        None \<Rightarrow> (False, t)
      | Some e \<Rightarrow>
          (let was_live = live (entry_state e);
               t = t\<lparr>slots := (slots t)[slot := e\<lparr>entry_state := Empty, generation := generation e + 1\<rparr>]\<rparr>;
               t = (if was_live then t\<lparr>active := (if active t = 0 then 0 else active t - 1)\<rparr> else t)
           in (was_live, t)))"

section \<open>Steps\<close>

text \<open>
  The steps a role takes on the table, labelled with the slot they recycle. A slot is filled only
  while it holds no connection: an accepted or connected socket lands in a slot that is empty or
  that its own pending state was just taken from.
\<close>

definition quiet :: "('c, 'u) ConnTable \<Rightarrow> nat \<Rightarrow> bool" where
  "quiet t slot \<longleftrightarrow> (case get_slot t slot of None \<Rightarrow> True | Some e \<Rightarrow> \<not> live (entry_state e))"

inductive table_step :: "('c, 'u) ConnTable \<Rightarrow> nat option \<Rightarrow> ('c, 'u) ConnTable \<Rightarrow> bool" where
  "quiet t slot \<Longrightarrow> install t slot c = Some t' \<Longrightarrow> table_step t None t'"
| "quiet t slot \<Longrightarrow> begin_peer_fetch t slot pad = Some t' \<Longrightarrow> table_step t None t'"
| "quiet t slot \<Longrightarrow> park_tls_connecting t slot p = Some t' \<Longrightarrow> table_step t None t'"
| "quiet t slot \<Longrightarrow> begin_tls_install t slot listener = Some t' \<Longrightarrow> table_step t None t'"
| "quiet t slot \<Longrightarrow> park_tls t slot a = Some t' \<Longrightarrow> table_step t None t'"
| "conn_mut t slot f = Some t' \<Longrightarrow> table_step t None t'"
| "begin_detach t slot = Some t' \<Longrightarrow> table_step t None t'"
| "table_step t None (snd (take_peer_fetch t slot))"
| "table_step t None (snd (reserve_connecting t p))"
| "table_step t None (snd (take_connecting t slot))"
| "table_step t None (snd (take_tls_connecting t slot))"
| "table_step t None (snd (take_tls_installing t slot))"
| "table_step t None (snd (take_tls_parked t slot))"
| "table_step t None (snd (park_detached_in_place t slot))"
| "table_step t None (snd (reattach t slot))"
| "table_step t None (leak t)"
| "table_step t (Some slot) (snd (free_slot t slot))"

lemmas table_ops = install_def begin_peer_fetch_def park_tls_connecting_def begin_tls_install_def park_tls_def
  conn_mut_def begin_detach_def take_peer_fetch_def reserve_connecting_def take_connecting_def
  take_tls_connecting_def take_tls_installing_def take_tls_parked_def park_detached_in_place_def reattach_def
  assign_state_def get_conn_def

text \<open>
  Every step is a leak, a recycling, an install, or at most the replacement of one slot's state by one
  that holds a connection exactly when the old one did.
\<close>

definition swap :: "('c, 'u) ConnTable \<Rightarrow> ('c, 'u) ConnTable \<Rightarrow> bool" where
  "swap t t' \<longleftrightarrow> t' = t \<or> (\<exists>slot st. slot < length (slots t) \<and> live st = live (entry_state (slots t ! slot))
     \<and> t' = put_state t slot st)"

lemma swap_refl: "swap t t"
  by (simp add: swap_def)

lemma swap_put: "get_slot t slot = Some e \<Longrightarrow> live st = live (entry_state e) \<Longrightarrow> swap t (put_state t slot st)"
  by (auto simp: swap_def get_slot_def split: if_splits)

lemma swap_assign: "quiet t slot \<Longrightarrow> assign_state t slot st = Some t' \<Longrightarrow> \<not> live st \<Longrightarrow> swap t t'"
  by (auto simp: swap_def quiet_def assign_state_def get_slot_def split: if_splits)

lemma swap_take:
  "swap t (snd (take_peer_fetch t slot))" "swap t (snd (take_connecting t slot))"
  "swap t (snd (take_tls_connecting t slot))" "swap t (snd (take_tls_installing t slot))"
  "swap t (snd (take_tls_parked t slot))" "swap t (snd (park_detached_in_place t slot))"
  "swap t (snd (reattach t slot))"
  by (auto simp: table_ops swap_refl split: option.splits SlotState.splits intro!: swap_put)

lemma swap_reserve: "swap t (snd (reserve_connecting t p))"
proof (cases "List.find (\<lambda>i. entry_state (slots t ! i) = Empty) [0..<length (slots t)]")
  case None
  then show ?thesis by (simp add: reserve_connecting_def swap_refl)
next
  case (Some slot)
  then have "slot < length (slots t)" "entry_state (slots t ! slot) = Empty" by (auto simp: find_Some_iff)
  with Some show ?thesis by (simp add: reserve_connecting_def swap_put [of t slot "slots t ! slot"] get_slot_def)
qed

lemma swap_serving: "conn_mut t slot f = Some t' \<Longrightarrow> swap t t'" "begin_detach t slot = Some t' \<Longrightarrow> swap t t'"
  by (auto simp: table_ops split: option.splits SlotState.splits Option.bind_splits intro!: swap_put)

lemma table_step_cases:
  assumes "table_step t l t'"
  obtains (leak) "l = None" "t' = leak t"
    | (free) slot where "l = Some slot" "t' = snd (free_slot t slot)"
    | (install) slot c where "l = None" "slot < length (slots t)" "\<not> live (entry_state (slots t ! slot))"
        "t' = (put_state t slot (Serving c))\<lparr>active := active t + 1\<rparr>"
    | (swap) "l = None" "swap t t'"
  using assms
proof (cases rule: table_step.cases)
  case (1 slot c)
  then show ?thesis
    by (intro that(3) [of slot c]) (auto simp: install_def assign_state_def quiet_def get_slot_def put_state_def split: if_splits)
next
  case (16)
  then show ?thesis by (rule that(1))
next
  case (17 slot)
  then show ?thesis by (rule that(2))
next
  case (2 slot pad)
  with swap_assign [of t slot "PeerFetch pad"] show ?thesis by (simp add: begin_peer_fetch_def that(4))
next
  case (3 slot p)
  with swap_assign [of t slot "TlsConnecting p"] show ?thesis by (simp add: park_tls_connecting_def that(4))
next
  case (4 slot listener)
  with swap_assign [of t slot "TlsInstalling listener"] show ?thesis by (simp add: begin_tls_install_def that(4))
next
  case (5 slot a)
  with swap_assign [of t slot "TlsParked a"] show ?thesis by (simp add: park_tls_def that(4))
qed (simp_all add: that(4) swap_take swap_reserve swap_serving)

section \<open>Accounting\<close>

definition live_count :: "('c, 'u) ConnTable \<Rightarrow> nat" where
  "live_count t = length (filter (\<lambda>e. live (entry_state e)) (slots t))"

definition table_ok :: "('c, 'u) ConnTable \<Rightarrow> bool" where
  "table_ok t \<longleftrightarrow> length (slots t) < 2 ^ 32 \<and> unat (active t) = live_count t"

lemma length_filter_update:
  "i < length xs \<Longrightarrow> length (filter P (xs[i := x])) + of_bool (P (xs ! i)) = length (filter P xs) + of_bool (P x)"
proof (induction xs arbitrary: i)
  case (Cons y ys)
  then show ?case using Cons.IH [of "i - 1"] by (cases i) auto
qed simp

lemma live_count_put:
  assumes "slot < length (slots t)"
  shows "live_count (put_state t slot st) + of_bool (live (entry_state (slots t ! slot))) = live_count t + of_bool (live st)"
  using length_filter_update [OF assms, of "\<lambda>e. live (entry_state e)" "(slots t ! slot)\<lparr>entry_state := st\<rparr>"]
  by (simp add: live_count_def put_state_def)

lemma live_count_le: "live_count t \<le> length (slots t)"
  by (simp add: live_count_def)

lemma live_count_pos:
  assumes "slot < length (slots t)" "live (entry_state (slots t ! slot))"
  shows "0 < live_count t"
  using assms nth_mem [of slot "slots t"] unfolding live_count_def length_greater_0_conv filter_empty_conv by blast

lemma live_count_active [simp]: "live_count (t\<lparr>active := a\<rparr>) = live_count t"
  by (simp add: live_count_def)

lemma put_state_simps [simp]: "active (put_state t slot st) = active t" "length (slots (put_state t slot st)) = length (slots t)"
  by (simp_all add: put_state_def)

lemma free_slot_ok:
  assumes "table_ok t"
  shows "table_ok (snd (free_slot t slot)) \<and> fst (free_slot t slot) = (live_count (snd (free_slot t slot)) < live_count t)
    \<and> live_count t = live_count (snd (free_slot t slot)) + of_bool (fst (free_slot t slot))"
proof (cases "slot < length (slots t)")
  case True
  let ?e = "(slots t ! slot)\<lparr>entry_state := Empty, generation := generation (slots t ! slot) + 1\<rparr>"
  have "length (filter (\<lambda>e. live (entry_state e)) ((slots t)[slot := ?e])) + of_bool (live (entry_state (slots t ! slot)))
      = live_count t"
    using length_filter_update [OF True, of "\<lambda>e. live (entry_state e)" ?e] by (simp add: live_count_def)
  moreover have "unat (active t - 1) = unat (active t) - 1" if "active t \<noteq> 0"
    using that by (simp add: unat_minus_one)
  ultimately show ?thesis using assms True
    by (auto simp: free_slot_def get_slot_def table_ok_def live_count_def Let_def unat_eq_0)
next
  case False
  with assms show ?thesis by (simp add: free_slot_def get_slot_def)
qed

lemma table_step_ok:
  assumes "table_step t l t'" "table_ok t"
  shows "table_ok t'"
  using assms(1)
proof (cases rule: table_step_cases)
  case leak
  then show ?thesis by (simp add: leak_def table_ok_def live_count_def)
next
  case (free slot)
  then show ?thesis using free_slot_ok [OF assms(2)] by simp
next
  case (install slot c)
  have "live_count t < 2 ^ 32 - 1"
  proof -
    have "live_count t < length (slots t)"
      using install live_count_put [OF install(2), of "Serving c"] live_count_le [of "put_state t slot (Serving c)"] by simp
    with assms(2) show ?thesis by (simp add: table_ok_def)
  qed
  then have "unat (active t + 1) = unat (active t) + 1"
    using assms(2) by (simp add: table_ok_def unat_word_ariths(1))
  with install live_count_put [OF install(2), of "Serving c"] assms(2) show ?thesis
    by (simp add: table_ok_def)
next
  case swap
  then consider "t' = t" | slot st where "slot < length (slots t)" "live st = live (entry_state (slots t ! slot))"
    "t' = put_state t slot st" unfolding swap_def by blast
  then show ?thesis
  proof cases
    case (2 slot st)
    with live_count_put [OF 2(1), of st] assms(2) show ?thesis by (simp add: table_ok_def)
  qed (use assms(2) in simp)
qed

lemma table_step_length: "table_step t l t' \<Longrightarrow> length (slots t') \<le> length (slots t)"
  by (erule table_step_cases) (auto simp: leak_def swap_def free_slot_def Let_def split: option.splits)

text \<open>
  C35. The live count is exact: on every table reached from an empty pool, \<^verbatim>\<open>active\<close> is the number of
  slots that hold a connection (serving, detaching or detached), so it never wraps or saturates, the
  graceful drain's test for zero holds exactly when no slot holds one, and freeing a slot reports and
  counts a live connection exactly when there was one.
\<close>

theorem conn_table_accounting:
  assumes "trace table_step (ConnTable_new pool_size) ls t"
  shows "unat (active t) = live_count t \<and> live_count t \<le> unat pool_size \<and>
    (active t = 0 \<longleftrightarrow> (\<forall>slot. quiet t slot)) \<and>
    unat (active (snd (free_slot t slot))) + of_bool (fst (free_slot t slot)) = unat (active t)"
proof -
  have new: "table_ok (ConnTable_new pool_size :: ('c, 'u) ConnTable)"
    using unsigned_less [of pool_size] by (simp add: table_ok_def ConnTable_new_def live_count_def)
  have ok: "table_ok t" by (rule trace_invariant [OF assms, of table_ok]) (use new table_step_ok in blast)+
  have "length (slots t) \<le> unat pool_size"
    by (rule trace_invariant [OF assms, of "\<lambda>t. length (slots t) \<le> unat pool_size"])
      (auto simp: ConnTable_new_def dest: table_step_length)
  moreover have "live_count t = 0 \<longleftrightarrow> (\<forall>slot. quiet t slot)"
    by (auto simp: live_count_def quiet_def get_slot_def filter_empty_conv all_set_conv_all_nth split: if_splits)
  moreover have "active t = 0 \<longleftrightarrow> live_count t = 0"
    using ok by (metis table_ok_def unat_eq_zero)
  moreover have "unat (active (snd (free_slot t slot))) + of_bool (fst (free_slot t slot)) = unat (active t)"
    using ok free_slot_ok [OF ok, of slot] unfolding table_ok_def by linarith
  ultimately show ?thesis
    using ok live_count_le [of t] unfolding table_ok_def by simp
qed

theorem conn_table_accounting_witness:
  "\<exists>t. install (ConnTable_new 2 :: (nat, unit) ConnTable) 1 7 = Some t \<and> unat (active t) = live_count t"
proof -
  let ?n = "ConnTable_new 2 :: (nat, unit) ConnTable"
  obtain t where t: "install ?n 1 7 = Some t"
    by (simp add: install_def assign_state_def ConnTable_new_def)
  moreover have "quiet ?n 1" by (simp add: quiet_def get_slot_def ConnTable_new_def)
  ultimately have "trace table_step ?n [None] t" by (blast intro: trace.intros table_step.intros)
  with conn_table_accounting [OF this, of 0] t show ?thesis by blast
qed

section \<open>Handles\<close>

lemma slot_generation_put [simp]: "slot_generation (put_state t slot st) s = slot_generation t s"
  by (cases "slot < length (slots t)") (auto simp: slot_generation_def get_slot_def put_state_def nth_list_update)

lemma slot_generation_free:
  "slot_generation (snd (free_slot t slot)) s = map_option (\<lambda>g. if s = slot then g + 1 else g) (slot_generation t s)"
  by (auto simp: slot_generation_def get_slot_def free_slot_def Let_def nth_list_update)

lemma slot_generation_active [simp]: "slot_generation (t\<lparr>active := a\<rparr>) s = slot_generation t s"
  by (simp add: slot_generation_def get_slot_def)

lemma table_step_generation:
  assumes "table_step t l t'" "slot_generation t' s = Some g'"
  shows "\<exists>g. slot_generation t s = Some g \<and> g' = (if l = Some s then g + 1 else g)"
  using assms
proof (cases rule: table_step_cases)
  case leak
  with assms(2) show ?thesis by (simp add: leak_def slot_generation_def get_slot_def)
next
  case (free slot)
  with assms(2) show ?thesis by (auto simp: slot_generation_free)
next
  case swap
  with assms(2) show ?thesis by (auto simp: swap_def)
qed auto

interpretation conn_slots: generational slot_generation table_step
  by unfold_locales (rule table_step_generation)

lemma push_conn_generation: "push_conn t slot g = Some r \<Longrightarrow> slot_generation t slot = Some g"
  by (auto simp: push_conn_def slot_generation_def split: Option.bind_splits if_splits)

lemma slot_matches_generation: "slot_matches t slot g \<Longrightarrow> slot_generation t slot = Some g"
  by (auto simp: slot_matches_def slot_generation_def split: option.splits)

lemma cqe_generation:
  "conn_at_cqe t slot g = Some c \<Longrightarrow> \<exists>g'. slot_generation t slot = Some g' \<and> ucast g' = g"
  "slot_matches_cqe t slot g \<Longrightarrow> \<exists>g'. slot_generation t slot = Some g' \<and> ucast g' = g"
  by (auto simp: conn_at_cqe_def slot_matches_cqe_def slot_generation_def split: Option.bind_splits if_splits option.splits)

text \<open>
  C34. A handle dies with its connection: once the slot it was minted for has been freed, whatever the
  table did before and after, a reply or a push that carries the old 64-bit generation reaches no
  connection (until the slot has been recycled two to the 64 times), and a completion that carries
  its low 32 bits reaches none either (until two to the 32).
\<close>

theorem recycled_handle_is_dead:
  assumes "trace table_step t ls t'" "slot_generation t slot = Some g" "0 < count_list ls (Some slot)"
  shows "(count_list ls (Some slot) < 2 ^ 64 \<longrightarrow> push_conn t' slot g = None \<and> \<not> slot_matches t' slot g) \<and>
    (count_list ls (Some slot) < 2 ^ 32 \<longrightarrow>
       conn_at_cqe t' slot (ucast g) = None \<and> \<not> slot_matches_cqe t' slot (ucast g))"
proof (intro conjI impI notI)
  note differs = conn_slots.recycled_differs [OF assms(1,2) _ assms(3)]
  assume n: "count_list ls (Some slot) < 2 ^ 64"
  show "push_conn t' slot g = None"
    using differs [OF _ n] push_conn_generation by (cases "push_conn t' slot g") blast+
  show False if "slot_matches t' slot g"
    using differs [OF _ n] slot_matches_generation [OF that] by blast
next
  note low = conn_slots.recycled_low_differs [OF assms(1,2) _ assms(3)]
  assume n: "count_list ls (Some slot) < 2 ^ 32"
  show "conn_at_cqe t' slot (ucast g) = None"
    using low [OF _ n] by (cases "conn_at_cqe t' slot (ucast g)") (auto dest!: cqe_generation(1))
  show False if "slot_matches_cqe t' slot (ucast g)"
    using low [OF _ n] cqe_generation(2) [OF that] by blast
qed

theorem recycled_handle_is_dead_witness:
  "\<exists>t. install (snd (free_slot (ConnTable_new 2 :: (nat, unit) ConnTable) 1)) 1 7 = Some t \<and> push_conn t 1 0 = None"
proof -
  let ?n = "ConnTable_new 2 :: (nat, unit) ConnTable"
  let ?f = "snd (free_slot ?n 1)"
  have two: "slots ?n = [\<lparr>generation = 0, entry_state = Empty\<rparr>, \<lparr>generation = 0, entry_state = Empty\<rparr>]"
    by code_simp
  obtain t where t: "install ?f 1 7 = Some t"
    by (simp add: install_def assign_state_def free_slot_def get_slot_def two Let_def)
  moreover have "quiet ?f 1" by (simp add: quiet_def get_slot_def free_slot_def two Let_def)
  ultimately have "trace table_step ?n [Some 1, None] t" by (blast intro: trace.intros table_step.intros)
  from recycled_handle_is_dead [OF this, of 1 0] t show ?thesis
    by (simp add: slot_generation_def get_slot_def two)
qed

text \<open>
  A detached connection is parked, not gone: it keeps its slot, generation and place, pushes find it
  and know not to send, and reattaching restores the table.
\<close>

lemma detach_reattach:
  assumes "push_conn t slot g = Some (c, True)"
  shows "\<exists>t1 t2. begin_detach t slot = Some t1 \<and> park_detached_in_place t1 slot = (Some c, t2) \<and>
    push_conn t2 slot g = Some (c, False) \<and> \<not> slot_matches t2 slot g \<and> reattach t2 slot = (True, t)"
proof -
  have e: "slot < length (slots t)" "entry_state (slots t ! slot) = Serving c" "generation (slots t ! slot) = g"
    using assms by (auto simp: push_conn_def get_slot_def split: if_splits SlotState.splits)
  then have "t = put_state (put_state (put_state t slot (Detaching c)) slot (Detached c)) slot (Serving c)"
    by (cases t; cases "slots t ! slot") (auto simp: put_state_def list_update_same_conv intro!: sym [of "list_update _ _ _"])
  with e show ?thesis
    by (auto simp: begin_detach_def park_detached_in_place_def push_conn_def slot_matches_def reattach_def
        get_slot_def put_state_def)
qed

end
