(* ===== verification/Body_Pool.thy ===== *)
theory Body_Pool
  imports User_Data
begin

text \<open>
  The pool of body storage of a ring (\<^verbatim>\<open>src/net/core/bodypool.rs\<close>). A \<^verbatim>\<open>Vec<u8>\<close> is its capacity and its
  bytes; how much an allocation of at least \<open>n\<close> bytes yields is up to the allocator, the parameter
  \<open>alloc\<close>.
\<close>

section \<open>The pool\<close>

definition SHRINK_AFTER :: nat where "SHRINK_AFTER = 4"
definition OVERSIZE_SERVE :: nat where "OVERSIZE_SERVE = 4"
definition OVERSIZE_FLOOR :: nat where "OVERSIZE_FLOOR = 64 * 1024"

record Vec =
  capacity :: nat
  contents :: bytes

record BodyPool =
  free :: "(Vec \<times> nat) list"
  retained :: nat
  target :: nat
  budget :: nat
  missed_bytes :: nat
  served :: nat
  idle_rounds :: nat

definition BodyPool_new :: "nat \<Rightarrow> BodyPool" where
  "BodyPool_new b = \<lparr>free = [], retained = 0, target = 0, budget = b, missed_bytes = 0, served = 0, idle_rounds = 0\<rparr>"

text \<open>
  \<^verbatim>\<open>partition_point\<close> on a list that is partitioned by the predicate, as one sorted by capacity is:
  the length of the part that satisfies it.
\<close>

definition partition_point :: "('a \<Rightarrow> bool) \<Rightarrow> 'a list \<Rightarrow> nat" where
  "partition_point P xs = length (takeWhile P xs)"

definition u8_saturating_succ :: "nat \<Rightarrow> nat" where
  "u8_saturating_succ n = min (n + 1) 255"

definition take_fit :: "BodyPool \<Rightarrow> nat \<Rightarrow> Vec option \<times> BodyPool" where
  "take_fit p min_cap =
     (let i = partition_point (\<lambda>(v, _). capacity v < min_cap) (free p)
      in if i \<ge> length (free p) then (None, p)
         else let v = fst (free p ! i); cap = capacity v
           in if cap > max (saturating_mul min_cap OVERSIZE_SERVE) OVERSIZE_FLOOR then (None, p)
              else (Some v, p\<lparr>retained := saturating_sub (retained p) cap, served := saturating_add (served p) 1,
                      free := take i (free p) @ drop (i + 1) (free p)\<rparr>))"

definition reserve_exact :: "(nat \<Rightarrow> nat) \<Rightarrow> Vec \<Rightarrow> nat \<Rightarrow> Vec" where
  "reserve_exact alloc v n =
     (if capacity v - length (contents v) \<ge> n then v else v\<lparr>capacity := alloc (length (contents v) + n)\<rparr>)"

definition claim_held :: "(nat \<Rightarrow> nat) \<Rightarrow> BodyPool \<Rightarrow> nat \<Rightarrow> (Vec \<times> nat) \<times> BodyPool" where
  "claim_held alloc p min_cap =
     (case take_fit p min_cap of
        (Some v, p) \<Rightarrow> ((reserve_exact alloc v min_cap, 0), p)
      | (None, p) \<Rightarrow> ((\<lparr>capacity = alloc min_cap, contents = []\<rparr>, min_cap), p))"

definition receipt_done :: "BodyPool \<Rightarrow> nat \<Rightarrow> BodyPool" where
  "receipt_done p licence = p\<lparr>missed_bytes := min (saturating_add (missed_bytes p) licence) (budget p)\<rparr>"

definition claim :: "(nat \<Rightarrow> nat) \<Rightarrow> BodyPool \<Rightarrow> nat \<Rightarrow> Vec \<times> BodyPool" where
  "claim alloc p min_cap =
     (case claim_held alloc p min_cap of ((v, licence), p) \<Rightarrow>
        (v, p\<lparr>missed_bytes := min (saturating_add (missed_bytes p) licence) (budget p)\<rparr>))"

text \<open>The sorted insert and the bookkeeping of a \<^verbatim>\<open>give\<close> that retains its storage.\<close>

definition retain_vec :: "BodyPool \<Rightarrow> Vec \<Rightarrow> nat \<Rightarrow> BodyPool" where
  "retain_vec p v held =
     (let i = partition_point (\<lambda>(w, _). capacity w \<le> capacity v) (free p)
      in p\<lparr>retained := held, free := take i (free p) @ (v\<lparr>contents := []\<rparr>, 0) # drop i (free p)\<rparr>)"

definition give_held :: "BodyPool \<Rightarrow> Vec \<Rightarrow> nat \<Rightarrow> BodyPool" where
  "give_held p v licence =
     (let p = p\<lparr>missed_bytes := min (saturating_add (missed_bytes p) licence) (budget p)\<rparr>;
          cap = capacity v
      in if cap = 0 then p
         else let held = saturating_add (retained p) cap
           in if held > target p then
                (let grant = min (held - target p) (missed_bytes p)
                 in if held > budget p \<or> target p + grant < held then p
                    else retain_vec (p\<lparr>target := target p + grant, missed_bytes := missed_bytes p - grant\<rparr>) v held)
              else retain_vec p v held)"

definition give :: "BodyPool \<Rightarrow> Vec \<Rightarrow> BodyPool" where
  "give p v = give_held p v 0"

text \<open>The \<^verbatim>\<open>while\<close> of a shrink: the last, so largest, entries go until the rest is within the target.\<close>

function shrink :: "(Vec \<times> nat) list \<Rightarrow> nat \<Rightarrow> nat \<Rightarrow> (Vec \<times> nat) list \<times> nat" where
  "shrink fr held tgt =
     (if held > tgt then
        (if fr = [] then ([], 0)
         else shrink (butlast fr) (saturating_sub held (capacity (fst (last fr)))) tgt)
      else (fr, held))"
  by pat_completeness auto
termination shrink
  by (relation "measure (\<lambda>(fr, _, _). length fr)") auto

declare shrink.simps [simp del]

definition total_capacity :: "(Vec \<times> nat) list \<Rightarrow> nat" where
  "total_capacity fr = sum_list (map (\<lambda>e. capacity (fst e)) fr)"

definition rebalance :: "BodyPool \<Rightarrow> BodyPool" where
  "rebalance p =
     (let p = p\<lparr>missed_bytes := 0\<rparr>
      in if served p > 0 then
           (let aged = map (\<lambda>(v, age). (v, u8_saturating_succ age)) (free p);
                evicted = total_capacity (filter (\<lambda>(v, age). \<not> age < SHRINK_AFTER) aged)
            in p\<lparr>served := 0, idle_rounds := 0, free := filter (\<lambda>(v, age). age < SHRINK_AFTER) aged,
                 retained := saturating_sub (retained p) evicted, target := saturating_sub (target p) evicted\<rparr>)
         else let p = p\<lparr>idle_rounds := u8_saturating_succ (idle_rounds p)\<rparr>
           in if idle_rounds p < SHRINK_AFTER then p
              else let p = p\<lparr>idle_rounds := 0, target := target p div 2\<rparr>;
                       (fr, held) = shrink (free p) (retained p) (target p)
                in p\<lparr>free := fr, retained := held\<rparr>)"

section \<open>The invariant\<close>

definition pool_ok :: "BodyPool \<Rightarrow> bool" where
  "pool_ok p \<longleftrightarrow> sorted (map (\<lambda>e. capacity (fst e)) (free p))
     \<and> retained p = total_capacity (free p)
     \<and> retained p \<le> target p \<and> target p \<le> budget p \<and> missed_bytes p \<le> budget p
     \<and> (\<forall>e \<in> set (free p). contents (fst e) = [] \<and> 0 < capacity (fst e) \<and> snd e < SHRINK_AFTER)"

lemma total_capacity_simps [simp]:
  "total_capacity [] = 0" "total_capacity (e # es) = capacity (fst e) + total_capacity es"
  "total_capacity (xs @ ys) = total_capacity xs + total_capacity ys"
  by (simp_all add: total_capacity_def)

lemma total_capacity_filter:
  "total_capacity (filter P fr) + total_capacity (filter (\<lambda>e. \<not> P e) fr) = total_capacity fr"
  by (induction fr) auto

lemma pool_ok_new: "pool_ok (BodyPool_new b)"
  by (simp add: pool_ok_def BodyPool_new_def)

lemma partition_point_le: "partition_point P xs \<le> length xs"
  by (simp add: partition_point_def length_takeWhile_le)

lemma partition_point_before: "i < partition_point P xs \<Longrightarrow> P (xs ! i)"
  unfolding partition_point_def by (metis nth_mem set_takeWhileD takeWhile_nth)

lemma partition_point_at: "partition_point P xs < length xs \<Longrightarrow> \<not> P (xs ! partition_point P xs)"
  unfolding partition_point_def by (rule nth_length_takeWhile)

lemma free_split:
  assumes "i < length (free p)"
  shows "free p = take i (free p) @ free p ! i # drop (i + 1) (free p)"
  using assms by (simp add: Cons_nth_drop_Suc)

lemma take_fit_ok:
  assumes "pool_ok p"
  shows "pool_ok (snd (take_fit p n))"
    "budget (snd (take_fit p n)) = budget p" "target (snd (take_fit p n)) = target p"
    "missed_bytes (snd (take_fit p n)) = missed_bytes p"
proof -
  let ?i = "partition_point (\<lambda>(v, _). capacity v < n) (free p)"
  show "pool_ok (snd (take_fit p n))"
  proof (cases "?i < length (free p)")
    case True
    obtain xs e ys where s: "free p = xs @ e # ys" "xs = take ?i (free p)" "e = free p ! ?i" "ys = drop (?i + 1) (free p)"
      using free_split [OF True] by blast
    have "pool_ok (p\<lparr>retained := retained p - capacity (fst e), served := k, free := xs @ ys\<rparr>)" for k
      using assms unfolding pool_ok_def by (auto simp: s(1) sorted_append)
    then show ?thesis using assms by (simp add: take_fit_def Let_def s(2-4))
  next
    case False
    then show ?thesis using assms by (simp add: take_fit_def Let_def)
  qed
qed (simp_all add: take_fit_def Let_def)

lemma missed_ok: "pool_ok p \<Longrightarrow> m \<le> budget p \<Longrightarrow> pool_ok (p\<lparr>missed_bytes := m\<rparr>)"
  by (simp add: pool_ok_def)

lemma retain_vec_ok:
  assumes "pool_ok p" "0 < capacity v" "held = retained p + capacity v" "held \<le> tgt" "tgt \<le> budget p" "m \<le> budget p"
  shows "pool_ok (retain_vec (p\<lparr>target := tgt, missed_bytes := m\<rparr>) v held)"
proof -
  let ?P = "\<lambda>(w, _). capacity w \<le> capacity v"
  let ?i = "partition_point ?P (free p)"
  obtain xs ys where s: "free p = xs @ ys" "xs = take ?i (free p)" "ys = drop ?i (free p)" by simp
  have lo: "capacity (fst e) \<le> capacity v" if "e \<in> set xs" for e
    using that partition_point_before [of _ ?P "free p"] unfolding s(2)
    by (auto simp: in_set_conv_nth case_prod_beta)
  have hi: "capacity v \<le> capacity (fst e)" if e: "e \<in> set ys" for e
  proof -
    have i: "?i < length (free p)" using e s(3) by (cases "?i < length (free p)") auto
    then have "\<not> ?P (free p ! ?i)" by (rule partition_point_at)
    moreover have "hd ys = free p ! ?i" using i unfolding s(3) by (simp add: hd_drop_conv_nth)
    moreover have "capacity (fst (hd ys)) \<le> capacity (fst e)"
      using assms(1) e unfolding pool_ok_def s(1) by (cases ys) (auto simp: sorted_append)
    ultimately show ?thesis by (cases "free p ! ?i") auto
  qed
  have "sorted (map (\<lambda>e. capacity (fst e)) (xs @ (v\<lparr>contents := []\<rparr>, 0) # ys))"
    using assms(1) lo hi unfolding pool_ok_def s(1) by (auto simp: sorted_append)
  moreover have "retain_vec (p\<lparr>target := tgt, missed_bytes := m\<rparr>) v held =
      p\<lparr>target := tgt, missed_bytes := m, retained := held, free := xs @ (v\<lparr>contents := []\<rparr>, 0) # ys\<rparr>"
    using s(2,3) by (simp add: retain_vec_def Let_def)
  moreover have "\<forall>e \<in> set (xs @ ys). contents (fst e) = [] \<and> 0 < capacity (fst e) \<and> snd e < SHRINK_AFTER"
    "retained p = total_capacity (xs @ ys)" using assms(1) unfolding pool_ok_def s(1) by blast+
  ultimately show ?thesis
    using assms(2-6) unfolding pool_ok_def by (auto simp: SHRINK_AFTER_def)
qed

lemma shrink_ok:
  assumes "held = total_capacity fr" "shrink fr held tgt = (fr', held')"
  shows "held' = total_capacity fr' \<and> held' \<le> tgt \<and> held' \<le> held \<and> (\<exists>ys. fr = fr' @ ys)"
  using assms
proof (induction fr held tgt arbitrary: fr' held' rule: shrink.induct)
  case (1 fr held tgt)
  show ?case
  proof (cases "held > tgt")
    case True
    with 1(2) have ne: "fr \<noteq> []" by auto
    then have split: "fr = butlast fr @ [last fr]" by simp
    then have "total_capacity fr = total_capacity (butlast fr) + capacity (fst (last fr))"
      by (metis total_capacity_simps(1-3) add.right_neutral)
    with 1(2) have "saturating_sub held (capacity (fst (last fr))) = total_capacity (butlast fr)" by simp
    from 1(1) [OF True ne this, of fr' held'] 1(3) True ne show ?thesis
      by (subst (asm) (2) shrink.simps) (auto, metis append_assoc split)
  next
    case False
    with 1(2,3) show ?thesis by (auto simp: shrink.simps [of fr])
  qed
qed

lemma rebalance_ok:
  assumes "pool_ok p"
  shows "pool_ok (rebalance p) \<and> budget (rebalance p) = budget p \<and> target (rebalance p) \<le> target p"
proof (cases "served p > 0")
  case True
  let ?aged = "map (\<lambda>(v, age). (v, u8_saturating_succ age)) (free p)"
  let ?keep = "filter (\<lambda>(v, age). age < SHRINK_AFTER) ?aged"
  let ?gone = "filter (\<lambda>(v, age). \<not> age < SHRINK_AFTER) ?aged"
  have caps: "map (\<lambda>e. capacity (fst e)) ?aged = map (\<lambda>e. capacity (fst e)) (free p)" by (simp add: case_prod_beta)
  have "(\<lambda>(v :: Vec, age). \<not> age < SHRINK_AFTER) = (\<lambda>e. \<not> (case e of (v, age) \<Rightarrow> age < SHRINK_AFTER))" by auto
  then have "total_capacity ?keep + total_capacity ?gone = total_capacity ?aged"
    by (simp only: total_capacity_filter)
  also have "\<dots> = total_capacity (free p)" unfolding total_capacity_def by (simp only: caps)
  also have "\<dots> = retained p" using assms by (simp add: pool_ok_def)
  finally have sum: "total_capacity ?keep + total_capacity ?gone = retained p" .
  have "sorted (map (\<lambda>e. capacity (fst e)) ?keep)"
    using assms caps unfolding pool_ok_def by (metis sorted_filter)
  moreover have "\<forall>e \<in> set ?keep. contents (fst e) = [] \<and> 0 < capacity (fst e) \<and> snd e < SHRINK_AFTER"
    using assms unfolding pool_ok_def by auto
  ultimately show ?thesis
    using assms True sum by (auto simp: rebalance_def Let_def pool_ok_def)
next
  case False
  obtain fr held where sh: "shrink (free p) (retained p) (target p div 2) = (fr, held)" by fastforce
  have sub: "held = total_capacity fr \<and> held \<le> target p div 2 \<and> (\<exists>ys. free p = fr @ ys)"
    using shrink_ok [OF _ sh] assms by (simp add: pool_ok_def)
  then have "pool_ok (p\<lparr>missed_bytes := 0, idle_rounds := 0, target := target p div 2, free := fr, retained := held\<rparr>)"
    using assms by (auto simp: pool_ok_def sorted_append)
  with False sh assms show ?thesis
    by (auto simp: rebalance_def Let_def pool_ok_def)
qed

lemma give_held_ok:
  assumes "pool_ok p" "budget p < usize_max"
  shows "pool_ok (give_held p v l)" "budget (give_held p v l) = budget p"
    "target (give_held p v l) + missed_bytes (give_held p v l) \<le> target p + missed_bytes p + l"
proof -
  let ?m = "min (saturating_add (missed_bytes p) l) (budget p)"
  let ?p = "p\<lparr>missed_bytes := ?m\<rparr>" and ?held = "saturating_add (retained p) (capacity v)"
  let ?grant = "min (?held - target p) ?m"
  have m: "?m \<le> missed_bytes p + l" "?m \<le> budget p" using saturating_add_le by (auto simp: min_le_iff_disj)
  have exact: "?held = retained p + capacity v" if "?held \<le> budget p"
    using that assms(2) by (auto simp: saturating_add_def)
  have bud: "target p \<le> budget p" using assms(1) by (simp add: pool_ok_def)
  consider (zero) "capacity v = 0" | (drop) "0 < capacity v" "?held > target p" "?held > budget p \<or> target p + ?grant < ?held"
    | (grow) "0 < capacity v" "?held > target p" "?held \<le> budget p" "?held \<le> target p + ?grant"
    | (keep) "0 < capacity v" "?held \<le> target p"
    by linarith
  then have "pool_ok (give_held p v l) \<and> budget (give_held p v l) = budget p \<and>
    target (give_held p v l) + missed_bytes (give_held p v l) \<le> target p + missed_bytes p + l"
  proof cases
    case zero
    then show ?thesis using m assms(1) by (simp add: give_held_def missed_ok)
  next
    case drop
    then show ?thesis using m assms(1) by (auto simp: give_held_def Let_def missed_ok)
  next
    case grow
    moreover have "?grant \<le> ?held - target p" by (rule min.cobounded1)
    ultimately have g: "target p + ?grant = ?held" by linarith
    have "give_held p v l = retain_vec (p\<lparr>target := ?held, missed_bytes := ?m - ?grant\<rparr>) v ?held"
      using grow g by (simp add: give_held_def Let_def)
    moreover have "pool_ok (retain_vec (p\<lparr>target := ?held, missed_bytes := ?m - ?grant\<rparr>) v ?held)"
      by (rule retain_vec_ok) (use assms(1) grow exact m in auto)
    ultimately show ?thesis using g m(1) by (simp add: retain_vec_def Let_def)
  next
    case keep
    have "give_held p v l = retain_vec (p\<lparr>target := target p, missed_bytes := ?m\<rparr>) v ?held"
      using keep by (simp add: give_held_def Let_def)
    moreover have "pool_ok (retain_vec (p\<lparr>target := target p, missed_bytes := ?m\<rparr>) v ?held)"
      by (rule retain_vec_ok) (use assms(1) keep exact bud m in auto)
    ultimately show ?thesis using m(1) by (simp add: retain_vec_def Let_def)
  qed
  then show "pool_ok (give_held p v l)" "budget (give_held p v l) = budget p"
    "target (give_held p v l) + missed_bytes (give_held p v l) \<le> target p + missed_bytes p + l" by blast+
qed

section \<open>Claims\<close>

definition serve_limit :: "nat \<Rightarrow> nat" where
  "serve_limit n = max (saturating_mul n OVERSIZE_SERVE) OVERSIZE_FLOOR"

lemma best_fit:
  assumes "pool_ok p" "i = partition_point (\<lambda>(v, _). capacity v < n) (free p)"
  shows "i < length (free p) \<Longrightarrow> n \<le> capacity (fst (free p ! i))"
    "e \<in> set (free p) \<Longrightarrow> n \<le> capacity (fst e) \<Longrightarrow> i < length (free p) \<and> capacity (fst (free p ! i)) \<le> capacity (fst e)"
proof -
  assume "i < length (free p)"
  with partition_point_at [of "\<lambda>(v, _). capacity v < n" "free p"] assms(2) show "n \<le> capacity (fst (free p ! i))"
    by (simp add: case_prod_beta)
next
  assume e: "e \<in> set (free p)" "n \<le> capacity (fst e)"
  then obtain j where j: "j < length (free p)" "e = free p ! j" by (auto simp: in_set_conv_nth)
  with e(2) partition_point_before [of j "\<lambda>(v, _). capacity v < n" "free p"] assms(2) have "i \<le> j"
    by (force simp: case_prod_beta not_less [symmetric])
  moreover have "sorted (map (\<lambda>e. capacity (fst e)) (free p))" using assms(1) by (simp add: pool_ok_def)
  ultimately show "i < length (free p) \<and> capacity (fst (free p ! i)) \<le> capacity (fst e)"
    using j sorted_nth_mono [of "map (\<lambda>e. capacity (fst e)) (free p)" i j] by simp
qed

text \<open>
  A claim is served near its size or not at all: the storage returned is empty and holds at least
  what was asked for; either it is the smallest waiting buffer that covers the ask, no larger than
  four times the ask or 64 KiB, and carries no licence, or no waiting buffer that covers the ask is
  that close to it and a fresh allocation carries the ask as its licence.
\<close>

theorem claim_best_fit:
  assumes "pool_ok p" "n \<le> alloc n" "claim_held alloc p n = ((v, licence), p')"
  shows "contents v = [] \<and> n \<le> capacity v \<and>
    ((\<exists>e \<in> set (free p). v = fst e \<and> capacity v \<le> serve_limit n \<and> licence = 0 \<and>
        (\<forall>e' \<in> set (free p). n \<le> capacity (fst e') \<longrightarrow> capacity v \<le> capacity (fst e'))) \<or>
     capacity v = alloc n \<and> licence = n \<and> (\<forall>e \<in> set (free p). n \<le> capacity (fst e) \<longrightarrow> serve_limit n < capacity (fst e)))"
proof -
  define i where "i = partition_point (\<lambda>(v, _). capacity v < n) (free p)"
  note fit = best_fit [OF assms(1) i_def]
  show ?thesis
  proof (cases "i < length (free p) \<and> capacity (fst (free p ! i)) \<le> serve_limit n")
    case True
    then have mem: "free p ! i \<in> set (free p)" by simp
    with assms(1) have "contents (fst (free p ! i)) = []" by (simp add: pool_ok_def)
    moreover have "fst (take_fit p n) = Some (fst (free p ! i))"
      using True by (auto simp: take_fit_def Let_def serve_limit_def simp flip: i_def)
    then obtain q where "take_fit p n = (Some (fst (free p ! i)), q)" by (cases "take_fit p n") simp
    ultimately have "v = fst (free p ! i)" "licence = 0"
      using True fit(1) assms(3) by (auto simp: claim_held_def reserve_exact_def)
    with mem True fit \<open>contents (fst (free p ! i)) = []\<close> show ?thesis by auto
  next
    case False
    then have "take_fit p n = (None, p)"
      by (auto simp: take_fit_def Let_def serve_limit_def simp flip: i_def)
    with assms(3) have "v = \<lparr>capacity = alloc n, contents = []\<rparr>" "licence = n" by (auto simp: claim_held_def)
    with False fit(2) assms(2) show ?thesis by fastforce
  qed
qed

theorem claim_best_fit_witness:
  "\<exists>v l p'. claim_held id (give_held (BodyPool_new 100) \<lparr>capacity = 10, contents = [1]\<rparr> 10) 5 = ((v, l), p') \<and> contents v = []"
proof -
  have "pool_ok (give_held (BodyPool_new 100) \<lparr>capacity = 10, contents = [1]\<rparr> 10)"
    by (rule give_held_ok) (simp_all add: pool_ok_new, simp add: BodyPool_new_def usize_max_def usize_bound_def)
  from claim_best_fit [OF this, of 5 id] show ?thesis by (metis id_apply le_refl prod.collapse)
qed

section \<open>Licences\<close>

text \<open>
  Runs of the pool with a ledger: the licences the reactor still holds, and all the bytes that were
  ever asked for without a fitting buffer waiting. A returned licence is one that is held.
\<close>

inductive pool_reach :: "(nat \<Rightarrow> nat) \<Rightarrow> nat \<Rightarrow> BodyPool \<Rightarrow> nat \<Rightarrow> nat \<Rightarrow> bool" for alloc b where
  reach_new: "pool_reach alloc b (BodyPool_new b) 0 0"
| reach_claim: "pool_reach alloc b p out dem \<Longrightarrow>
    pool_reach alloc b (snd (claim alloc p n)) out (dem + snd (fst (claim_held alloc p n)))"
| reach_claim_held: "pool_reach alloc b p out dem \<Longrightarrow> claim_held alloc p n = ((v, l), p') \<Longrightarrow>
    pool_reach alloc b p' (out + l) (dem + l)"
| reach_receipt: "pool_reach alloc b p out dem \<Longrightarrow> l \<le> out \<Longrightarrow> pool_reach alloc b (receipt_done p l) (out - l) dem"
| reach_give_held: "pool_reach alloc b p out dem \<Longrightarrow> l \<le> out \<Longrightarrow> pool_reach alloc b (give_held p v l) (out - l) dem"
| reach_give: "pool_reach alloc b p out dem \<Longrightarrow> pool_reach alloc b (give p v) out dem"
| reach_rebalance: "pool_reach alloc b p out dem \<Longrightarrow> pool_reach alloc b (rebalance p) out dem"

lemma claim_held_pool: "snd (claim_held alloc p n) = snd (take_fit p n)"
  by (simp add: claim_held_def split: prod.split option.split)

lemma claim_pool: "snd (claim alloc p n) = receipt_done (snd (take_fit p n)) (snd (fst (claim_held alloc p n)))"
  using claim_held_pool [of alloc p n] by (auto simp: claim_def receipt_done_def split: prod.splits)

lemma receipt_done_ok:
  assumes "pool_ok p"
  shows "pool_ok (receipt_done p l)" "budget (receipt_done p l) = budget p" "target (receipt_done p l) = target p"
    "missed_bytes (receipt_done p l) \<le> missed_bytes p + l"
  using assms saturating_add_le [of "missed_bytes p" l] by (auto simp: receipt_done_def missed_ok min_le_iff_disj)

lemma rebalance_missed: "missed_bytes (rebalance p) = 0"
  by (simp add: rebalance_def Let_def split: prod.split)

lemma pool_reach_ok:
  assumes "pool_reach alloc b p out dem" "b < usize_max"
  shows "pool_ok p \<and> budget p = b \<and> target p + missed_bytes p + out \<le> dem"
  using assms
proof induction
  case reach_new
  then show ?case by (simp add: pool_ok_new) (simp add: BodyPool_new_def)
next
  case (reach_claim p out dem n)
  let ?q = "snd (take_fit p n)" and ?l = "snd (fst (claim_held alloc p n))"
  have p: "pool_ok p" "budget p = b" "target p + missed_bytes p + out \<le> dem" using reach_claim by blast+
  note q = take_fit_ok [OF p(1), of n]
  from receipt_done_ok [OF q(1), of ?l] q p show ?case by (auto simp: claim_pool)
next
  case (reach_claim_held p out dem n v l p')
  then have "p' = snd (take_fit p n)" using claim_held_pool [of alloc p n] by simp
  with reach_claim_held take_fit_ok [of p n] show ?case by auto
next
  case (reach_receipt p out dem l)
  then show ?case using receipt_done_ok [of p l] by auto
next
  case (reach_give_held p out dem l v)
  then show ?case using give_held_ok [of p v l] by auto
next
  case (reach_give p out dem v)
  then show ?case using give_held_ok [of p v 0] by (auto simp: give_def)
next
  case (reach_rebalance p out dem)
  then show ?case using rebalance_ok [of p] rebalance_missed [of p] by auto
qed

text \<open>
  C36. What the pool retains is bounded by its budget and by demand: on every run the free list is
  sorted and holds only cleared buffers, \<^verbatim>\<open>retained\<close> is exactly their total capacity and never exceeds
  the target, the target never exceeds the budget, and the target, the windowed pot and the licences
  still held together never exceed the bytes that were asked for and not served. Storage nobody
  asked for is never retained.
\<close>

theorem body_pool_bounded:
  assumes "pool_reach alloc b p out dem" "b < usize_max"
  shows "sorted (map (\<lambda>e. capacity (fst e)) (free p)) \<and> (\<forall>e \<in> set (free p). contents (fst e) = []) \<and>
    retained p = total_capacity (free p) \<and> retained p \<le> target p \<and> target p \<le> b \<and>
    target p + missed_bytes p + out \<le> dem"
  using pool_reach_ok [OF assms] unfolding pool_ok_def by blast

theorem body_pool_bounded_witness:
  "retained (give_held (snd (claim_held id (BodyPool_new 100) 10)) \<lparr>capacity = 10, contents = [1]\<rparr> 10) \<le> 100"
proof -
  have c: "claim_held id (BodyPool_new 100) 10 = ((\<lparr>capacity = 10, contents = []\<rparr>, 10), BodyPool_new 100)"
    by (simp add: claim_held_def take_fit_def BodyPool_new_def partition_point_def)
  have "pool_reach id 100 (give_held (BodyPool_new 100) \<lparr>capacity = 10, contents = [1]\<rparr> 10) (0 + 10 - 10) (0 + 10)"
    by (intro reach_give_held reach_claim_held [OF reach_new c]) simp
  from body_pool_bounded [OF this] c show ?thesis by (simp add: usize_max_def usize_bound_def)
qed

section \<open>Quiet\<close>

lemma rebalance_quiet:
  assumes "served p = 0"
  shows "served (rebalance p) = 0 \<and>
    (idle_rounds (rebalance p) = idle_rounds p + 1 \<and> idle_rounds p + 1 < SHRINK_AFTER \<and> target (rebalance p) = target p \<or>
     idle_rounds (rebalance p) = 0 \<and> target (rebalance p) = target p div 2)"
  using assms by (auto simp: rebalance_def Let_def u8_saturating_succ_def SHRINK_AFTER_def split: prod.split)

lemma quiet_drains:
  assumes "pool_ok p" "served p = 0"
  shows "\<exists>k. target ((rebalance ^^ k) p) = 0 \<and> pool_ok ((rebalance ^^ k) p)"
  using assms
proof (induction "4 * target p + (3 - idle_rounds p)" arbitrary: p rule: less_induct)
  case less
  show ?case
  proof (cases "target p = 0")
    case True
    with less.prems show ?thesis by (intro exI [of _ 0]) simp
  next
    case False
    note q = rebalance_quiet [OF less.prems(2)]
    have "4 * (target p div 2) + 3 < 4 * target p" using False by presburger
    then have "4 * target (rebalance p) + (3 - idle_rounds (rebalance p)) < 4 * target p + (3 - idle_rounds p)"
      using q False by (auto simp: SHRINK_AFTER_def)
    from less.hyps [OF this] rebalance_ok [OF less.prems(1)] q obtain k
      where "target ((rebalance ^^ k) (rebalance p)) = 0 \<and> pool_ok ((rebalance ^^ k) (rebalance p))" by auto
    then show ?thesis by (intro exI [of _ "Suc k"]) (simp add: funpow_swap1)
  qed
qed

text \<open>
  C37. A quiet pool gives everything back: from any state the pool can be in, enough observations of
  the maintenance timer with no claim in between leave nothing retained.
\<close>

theorem quiet_pool_empties:
  assumes "pool_reach alloc b p out dem" "b < usize_max"
  shows "\<exists>k. retained ((rebalance ^^ k) p) = 0 \<and> free ((rebalance ^^ k) p) = []"
proof -
  have ok: "pool_ok (rebalance p)" using pool_reach_ok [OF assms] rebalance_ok by blast
  have "served (rebalance p) = 0" by (simp add: rebalance_def Let_def split: prod.split)
  from quiet_drains [OF ok this] obtain k
    where k: "target ((rebalance ^^ k) (rebalance p)) = 0" "pool_ok ((rebalance ^^ k) (rebalance p))" by blast
  let ?q = "(rebalance ^^ k) (rebalance p)"
  have "retained ?q = 0" "total_capacity (free ?q) = 0" "\<forall>e \<in> set (free ?q). 0 < capacity (fst e)"
    using k unfolding pool_ok_def by auto
  then have "retained ?q = 0 \<and> free ?q = []" by (cases "free ?q") auto
  then show ?thesis by (intro exI [of _ "Suc k"]) (simp add: funpow_swap1)
qed

theorem quiet_pool_empties_witness:
  "free (give_held (BodyPool_new 100) \<lparr>capacity = 10, contents = [1]\<rparr> 10) \<noteq> [] \<and>
   (\<exists>k. free ((rebalance ^^ k) (give_held (BodyPool_new 100) \<lparr>capacity = 10, contents = [1]\<rparr> 10)) = [])"
proof -
  have c: "claim_held id (BodyPool_new 100) 10 = ((\<lparr>capacity = 10, contents = []\<rparr>, 10), BodyPool_new 100)"
    by (simp add: claim_held_def take_fit_def BodyPool_new_def partition_point_def)
  have "pool_reach id 100 (give_held (BodyPool_new 100) \<lparr>capacity = 10, contents = [1]\<rparr> 10) (0 + 10 - 10) (0 + 10)"
    by (intro reach_give_held reach_claim_held [OF reach_new c]) simp
  from quiet_pool_empties [OF this]
  have "\<exists>k. free ((rebalance ^^ k) (give_held (BodyPool_new 100) \<lparr>capacity = 10, contents = [1]\<rparr> 10)) = []"
    by (auto simp: usize_max_def usize_bound_def)
  moreover have "free (give_held (BodyPool_new 100) \<lparr>capacity = 10, contents = [1]\<rparr> 10) \<noteq> []"
    by (simp add: give_held_def retain_vec_def BodyPool_new_def Let_def saturating_add_def usize_max_def usize_bound_def)
  ultimately show ?thesis by blast
qed

end
