(* ===== verification/Ws_Frame.thy ===== *)
theory Ws_Frame
  imports Net_Framing Rust_Str
begin

text \<open>
  WebSocket framing (\<^verbatim>\<open>src/ws/mod.rs\<close>, the frame half): the frame header parser of both directions, the
  masking of payloads, the encoder, the close discipline and the two framers the reactor calls.
\<close>

section \<open>Frame headers\<close>

definition OP_CONT :: byte where "OP_CONT = 0x0"
definition OP_TEXT :: byte where "OP_TEXT = 0x1"
definition OP_BINARY :: byte where "OP_BINARY = 0x2"
definition OP_CLOSE :: byte where "OP_CLOSE = 0x8"
definition OP_PING :: byte where "OP_PING = 0x9"
definition OP_PONG :: byte where "OP_PONG = 0xA"

definition CLOSE_PROTOCOL_ERROR :: nat where "CLOSE_PROTOCOL_ERROR = 1002"
definition CLOSE_INVALID_PAYLOAD :: nat where "CLOSE_INVALID_PAYLOAD = 1007"
definition MAX_HEAD :: nat where "MAX_HEAD = 16 * 1024"

record FrameHead =
  fin :: bool
  opcode :: byte
  header_len :: nat
  payload_len :: nat

datatype HeadVerdict = Incomplete nat | InvalidHead string | Done FrameHead

definition known_opcode :: "byte \<Rightarrow> bool" where
  "known_opcode op \<longleftrightarrow> op \<in> {OP_CONT, OP_TEXT, OP_BINARY, OP_CLOSE, OP_PING, OP_PONG}"

text \<open>
  The length field of \<^verbatim>\<open>parse_head\<close>: the header length before the key and the payload length, or the
  verdict that ends the parse.
\<close>

definition ws_length :: "bytes \<Rightarrow> nat \<Rightarrow> HeadVerdict + nat \<times> nat" where
  "ws_length buf len7 =
     (if len7 = 126 then
        (if length buf < 4 then Inl (Incomplete (4 - length buf))
         else let n = be_val [buf ! 2, buf ! 3]
           in if n < 126 then Inl (InvalidHead ''non-minimal 16-bit length'') else Inr (4, n))
      else if len7 = 127 then
        (if length buf < 10 then Inl (Incomplete (10 - length buf))
         else let n = be_val [buf ! 2, buf ! 3, buf ! 4, buf ! 5, buf ! 6, buf ! 7, buf ! 8, buf ! 9]
           in if 2 ^ 63 \<le> n then Inl (InvalidHead ''64-bit length sign bit set'')
              else if n \<le> 0xFFFF then Inl (InvalidHead ''non-minimal 64-bit length'')
              else Inr (10, n))
      else Inr (2, len7))"

definition ws_parse_head :: "bytes \<Rightarrow> bool \<Rightarrow> HeadVerdict" where
  "ws_parse_head buf require_mask =
     (if length buf < 2 then Incomplete (2 - length buf)
      else let b0 = buf ! 0; b1 = buf ! 1
        in if b0 AND 0x70 \<noteq> 0 then InvalidHead ''RSV bits set with no extension''
           else let is_fin = (b0 AND 0x80 \<noteq> 0); op = b0 AND 0x0F
             in if \<not> known_opcode op then InvalidHead ''reserved opcode''
                else let masked = (b1 AND 0x80 \<noteq> 0)
                  in if masked \<and> \<not> require_mask then InvalidHead ''a server frame must not be masked''
                     else if \<not> masked \<and> require_mask then InvalidHead ''a client frame must be masked''
                     else let len7 = unat (b1 AND 0x7F)
                       in if op \<ge> OP_CLOSE \<and> \<not> is_fin then InvalidHead ''fragmented control frame''
                          else if op \<ge> OP_CLOSE \<and> len7 > 125 then InvalidHead ''control frame over 125 bytes''
                          else case ws_length buf len7 of
                              Inl v \<Rightarrow> v
                            | Inr (base, n) \<Rightarrow>
                                let hl = base + (if masked then 4 else 0)
                                in if length buf < hl then Incomplete (hl - length buf)
                                   else Done \<lparr>fin = is_fin, opcode = op, header_len = hl, payload_len = n\<rparr>)"

definition frame_head :: "bytes \<Rightarrow> HeadVerdict" where
  "frame_head buf = ws_parse_head buf False"

definition server_frame_head :: "bytes \<Rightarrow> HeadVerdict" where
  "server_frame_head buf = ws_parse_head buf True"

section \<open>Masking\<close>

definition xor_key :: "bytes \<Rightarrow> bytes \<Rightarrow> bytes" where
  "xor_key key payload = map2 (\<lambda>i b. b XOR key ! (i mod 4)) [0..<length payload] payload"

text \<open>\<open>None\<close> is the failed assertion on a header too short to end in a key.\<close>

definition unmask :: "bytes \<Rightarrow> bytes \<Rightarrow> bytes option" where
  "unmask header payload =
     (if length header \<ge> 4 then Some (xor_key (drop (length header - 4) header) payload) else None)"

section \<open>Closing\<close>

definition is_sendable_close_code :: "nat \<Rightarrow> bool" where
  "is_sendable_close_code code \<longleftrightarrow>
     1000 \<le> code \<and> code \<le> 1003 \<or> 1007 \<le> code \<and> code \<le> 1014 \<or> 3000 \<le> code \<and> code \<le> 4999"

definition close_echo_code :: "bytes \<Rightarrow> nat option" where
  "close_echo_code payload =
     (if length payload = 0 then None
      else if length payload = 1 then Some CLOSE_PROTOCOL_ERROR
      else let code = be_val [payload ! 0, payload ! 1]
        in if \<not> is_sendable_close_code code then Some CLOSE_PROTOCOL_ERROR
           else if from_utf8 (drop 2 payload) = None then Some CLOSE_INVALID_PAYLOAD
           else Some code)"

section \<open>The framers\<close>

datatype WsPhase = Handshake | Frames

record WsState =
  ws_phase :: WsPhase

definition WsState_default :: WsState where
  "WsState_default = \<lparr>ws_phase = Handshake\<rparr>"

definition ws_head_step :: "bytes \<Rightarrow> WsState \<Rightarrow> Framing \<times> WsState" where
  "ws_head_step buf st =
     (if buf = [] then (More, st)
      else case find_sub [CR, LF, CR, LF] buf of
          Some i \<Rightarrow> (Complete (i + 4) 0, st\<lparr>ws_phase := Frames\<rparr>)
        | None \<Rightarrow> if length buf > MAX_HEAD then (Invalid, st) else (MoreInMessage, st))"

definition ws_frame_step :: "bytes \<Rightarrow> (bytes \<Rightarrow> HeadVerdict) \<Rightarrow> Framing" where
  "ws_frame_step buf parse =
     (if buf = [] then Need 2
      else case parse buf of
          Incomplete need \<Rightarrow> NeedInMessage need
        | InvalidHead _ \<Rightarrow> Invalid
        | Done h \<Rightarrow> Complete (header_len h) (payload_len h))"

definition ws_frame :: "bytes \<Rightarrow> WsState \<Rightarrow> Framing \<times> WsState" where
  "ws_frame buf st =
     (case ws_phase st of Handshake \<Rightarrow> ws_head_step buf st | Frames \<Rightarrow> (ws_frame_step buf frame_head, st))"

definition ws_server_frame :: "bytes \<Rightarrow> WsState \<Rightarrow> Framing \<times> WsState" where
  "ws_server_frame buf st =
     (case ws_phase st of Handshake \<Rightarrow> ws_head_step buf st | Frames \<Rightarrow> (ws_frame_step buf server_frame_head, st))"

section \<open>The encoder\<close>

definition ws_encode :: "byte \<Rightarrow> bytes \<Rightarrow> bytes option \<Rightarrow> bytes" where
  "ws_encode op payload key =
     (let mask_bit = (if key \<noteq> None then 0x80 else 0); n = length payload
      in (0x80 OR (op AND 0x0F))
         # (if n < 126 then [mask_bit OR word_of_nat n]
            else if n \<le> 0xFFFF then (mask_bit OR 126) # be_bytes 2 n
            else (mask_bit OR 127) # be_bytes 8 n)
         @ (case key of Some m \<Rightarrow> m @ xor_key m payload | None \<Rightarrow> payload))"

definition encode_frame :: "byte \<Rightarrow> bytes \<Rightarrow> bytes \<Rightarrow> bytes" where
  "encode_frame op payload key = ws_encode op payload (Some key)"

definition encode_server_frame :: "byte \<Rightarrow> bytes \<Rightarrow> bytes" where
  "encode_server_frame op payload = ws_encode op payload None"

section \<open>Bytes of a header\<close>

lemma bit_0x80: "bit (0x80 :: byte) n \<longleftrightarrow> n = 7"
proof -
  have "(0x80 :: byte) = push_bit 7 1" by code_simp
  then show ?thesis by (simp only: bit_push_bit_iff bit_1_iff) auto
qed

lemma and_bit7: "b AND 0x80 = (if b AND 0x80 \<noteq> 0 then 0x80 else 0)" for b :: byte
proof -
  have "b AND 0x80 = (if bit b 7 then 0x80 else 0)"
    by (rule bit_eqI) (auto simp: bit_and_iff bit_0x80 simp del: bit_numeral_word_iff)
  then show ?thesis by (auto split: if_splits)
qed

lemma byte_split: "b = (if b AND 0x80 \<noteq> 0 then 0x80 else 0) OR word_of_nat (unat (b AND 0x7F))"
  for b :: byte
proof -
  have "(0x80 OR 0x7F :: byte) = - 1" by code_simp
  then have "b = b AND (0x80 OR 0x7F)" by (simp only: and.right_neutral)
  also have "\<dots> = (b AND 0x80) OR (b AND 0x7F)" by (rule bit.conj_disj_distrib)
  finally show ?thesis by (simp flip: and_bit7)
qed

lemma first_byte_split:
  "b AND 0x70 = 0 \<Longrightarrow> b = (if b AND 0x80 \<noteq> 0 then 0x80 else 0) OR (b AND 0x0F)" for b :: byte
proof -
  assume r: "b AND 0x70 = 0"
  have "(0x80 OR (0x70 OR 0x0F) :: byte) = - 1" by code_simp
  then have "b = b AND (0x80 OR (0x70 OR 0x0F))" by (simp only: and.right_neutral)
  also have "\<dots> = (b AND 0x80) OR ((b AND 0x70) OR (b AND 0x0F))" by (simp only: bit.conj_disj_distrib)
  finally show ?thesis using r by (simp flip: and_bit7)
qed

lemma len7_bound: "unat (b AND 0x7F) < 128" for b :: byte
proof -
  have "b AND 0x7F \<le> 0x7F" by (simp add: word_and_le1)
  then show ?thesis by (simp add: word_le_nat_alt)
qed

lemma len7_byte:
  assumes "n < 128"
  shows "unat (((if m then 0x80 else 0) OR word_of_nat n :: byte) AND 0x7F) = n"
    and "((if m then 0x80 else 0) OR word_of_nat n :: byte) AND 0x80 \<noteq> 0 \<longleftrightarrow> m"
proof -
  have "\<not> bit (unat (word_of_nat n :: byte)) 7"
    using assms by (simp add: bit_iff_odd unsigned_of_nat take_bit_eq_mod)
  then have "\<not> bit (word_of_nat n :: byte) 7" by (simp add: bit_unsigned_iff)
  then have "(word_of_nat n :: byte) AND 0x80 = 0"
    by (intro bit_eqI) (auto simp: bit_and_iff bit_0x80 simp del: bit_numeral_word_iff)
  moreover from this byte_split [of "word_of_nat n"]
  have "(word_of_nat n :: byte) AND 0x7F = word_of_nat n" by simp
  moreover have "(0x80 AND 0x7F :: byte) = 0" by code_simp
  ultimately show "unat (((if m then 0x80 else 0) OR word_of_nat n :: byte) AND 0x7F) = n"
    "((if m then 0x80 else 0) OR word_of_nat n :: byte) AND 0x80 \<noteq> 0 \<longleftrightarrow> m"
    using assms by (simp_all add: bit.conj_disj_distrib2 unsigned_of_nat take_bit_eq_mod)
qed

lemma first_byte:
  assumes "known_opcode op"
  shows "((if f then 0x80 else 0) OR op) AND 0x70 = 0" "((if f then 0x80 else 0) OR op) AND 0x80 \<noteq> 0 \<longleftrightarrow> f"
    "((if f then 0x80 else 0) OR op) AND 0x0F = op" "op AND 0x0F = op"
  using assms
  by (auto simp: known_opcode_def OP_CONT_def OP_TEXT_def OP_BINARY_def OP_CLOSE_def OP_PING_def OP_PONG_def)

section \<open>The header format\<close>

text \<open>
  The specification the parser and the encoder meet: the one header RFC 6455 section 5.2 gives a frame
  of \<open>n\<close> payload bytes, with the shortest length form, and which frames it admits.
\<close>

definition ws_len_field :: "bool \<Rightarrow> nat \<Rightarrow> bytes" where
  "ws_len_field m n =
     (if n < 126 then [(if m then 0x80 else 0) OR word_of_nat n]
      else if n \<le> 0xFFFF then ((if m then 0x80 else 0) OR word_of_nat 126) # be_bytes 2 n
      else ((if m then 0x80 else 0) OR word_of_nat 127) # be_bytes 8 n)"

definition ws_header :: "bool \<Rightarrow> byte \<Rightarrow> nat \<Rightarrow> bytes \<Rightarrow> bytes" where
  "ws_header f op n key = ((if f then 0x80 else 0) OR op) # ws_len_field (key \<noteq> []) n @ key"

definition ws_frame_ok :: "bool \<Rightarrow> byte \<Rightarrow> nat \<Rightarrow> bool" where
  "ws_frame_ok f op n \<longleftrightarrow> known_opcode op \<and> n < 2 ^ 63 \<and> (OP_CLOSE \<le> op \<longrightarrow> f \<and> n \<le> 125)"

definition key_bytes :: "bool \<Rightarrow> nat" where
  "key_bytes m = (if m then 4 else 0)"

lemma key_bytes_ne: "length key = key_bytes m \<Longrightarrow> key \<noteq> [] \<longleftrightarrow> m"
  by (auto simp: key_bytes_def split: if_splits)

lemma length_ws_len_field: "length (ws_len_field m n) = (if n < 126 then 1 else if n \<le> 0xFFFF then 3 else 9)"
  by (simp add: ws_len_field_def)

lemma ws_length_16:
  assumes "length xs = 2"
  shows "ws_length (b # c # xs @ rest) 126 =
    (if be_val xs < 126 then Inl (InvalidHead ''non-minimal 16-bit length'') else Inr (4, be_val xs))"
proof -
  obtain x y where "xs = [x, y]"
    using assms by (auto simp: length_Suc_conv numeral_2_eq_2)
  then show ?thesis by (simp add: ws_length_def Let_def)
qed

lemma ws_length_64:
  assumes "length xs = 8"
  shows "ws_length (b # c # xs @ rest) 127 =
    (if 2 ^ 63 \<le> be_val xs then Inl (InvalidHead ''64-bit length sign bit set'')
     else if be_val xs \<le> 0xFFFF then Inl (InvalidHead ''non-minimal 64-bit length'')
     else Inr (10, be_val xs))"
proof -
  have "length xs = Suc (Suc (Suc (Suc (Suc (Suc (Suc (Suc 0)))))))" using assms by simp
  then obtain x0 x1 x2 x3 x4 x5 x6 x7 where "xs = [x0, x1, x2, x3, x4, x5, x6, x7]"
    unfolding length_Suc_conv length_0_conv by metis
  then show ?thesis by (simp add: ws_length_def Let_def)
qed

lemma ws_length_field:
  assumes "n < 2 ^ 63"
  shows "ws_length (b # ws_len_field m n @ rest) (if n < 126 then n else if n \<le> 0xFFFF then 126 else 127)
    = Inr (1 + length (ws_len_field m n), n)"
proof -
  consider "n < 126" | "126 \<le> n" "n \<le> 0xFFFF" | "0xFFFF < n" by linarith
  then show ?thesis
  proof cases
    case 1
    then show ?thesis by (simp add: ws_length_def length_ws_len_field)
  next
    case 2
    then have "be_val (be_bytes 2 n) = n" by (simp add: be_val_be_bytes)
    with 2 show ?thesis by (simp add: ws_len_field_def ws_length_16 del: be_bytes.simps)
  next
    case 3
    have "n mod 256 ^ 8 = n" using assms by simp
    then have "be_val (be_bytes 8 n) = n" by (simp only: be_val_be_bytes)
    with 3 assms show ?thesis by (simp add: ws_len_field_def ws_length_64 del: be_bytes.simps)
  qed
qed

lemma ws_len_field_first:
  "\<exists>xs. ws_len_field m n = ((if m then 0x80 else 0)
      OR word_of_nat (if n < 126 then n else if n \<le> 0xFFFF then 126 else 127)) # xs"
  by (simp add: ws_len_field_def)

lemma ws_length_undecided: "ws_length buf L \<noteq> Inl (Done h)"
  by (simp add: ws_length_def Let_def)

lemma ws_parse_header:
  assumes ok: "ws_frame_ok f op n" and key: "length key = key_bytes m"
  shows "ws_parse_head (ws_header f op n key @ rest) m =
    Done \<lparr>fin = f, opcode = op, header_len = length (ws_header f op n key), payload_len = n\<rparr>"
proof -
  define L :: nat where "L = (if n < 126 then n else if n \<le> 0xFFFF then 126 else 127)"
  have L: "L < 128" by (simp add: L_def)
  define b0 where "b0 = (if f then 0x80 else 0) OR op"
  define b1 :: byte where "b1 = (if m then 0x80 else 0) OR word_of_nat L"
  obtain xs where xs: "ws_len_field m n = b1 # xs"
    unfolding b1_def L_def using ws_len_field_first by blast
  have n: "n < 2 ^ 63" and known: "known_opcode op" and ctl: "OP_CLOSE \<le> op \<Longrightarrow> f \<and> L \<le> 125"
    using ok by (auto simp: ws_frame_ok_def L_def)
  have len: "ws_length (b0 # b1 # xs @ key @ rest) L = Inr (1 + length (b1 # xs), n)"
    using ws_length_field [OF n, of b0 m "key @ rest"] by (simp add: xs L_def)
  have bits: "b0 AND 0x70 = 0" "b0 AND 0x80 \<noteq> 0 \<longleftrightarrow> f" "b0 AND 0x0F = op"
    "unat (b1 AND 0x7F) = L" "b1 AND 0x80 \<noteq> 0 \<longleftrightarrow> m"
    using first_byte(1-3) [OF known, of f] len7_byte [OF L, of m] by (simp_all add: b0_def b1_def)
  have hdr: "ws_header f op n key = b0 # b1 # xs @ key"
    by (simp add: ws_header_def b0_def key_bytes_ne [OF key] xs)
  show ?thesis
    unfolding hdr ws_parse_head_def
    using bits len known ctl key
    by (auto simp: Let_def key_bytes_def)
qed

lemma ws_length_Inr:
  assumes "ws_length (b0 # b1 # r) (unat (b1 AND 0x7F)) = Inr (base, n)"
    and "b1 AND 0x80 \<noteq> 0 \<longleftrightarrow> m"
  shows "\<exists>rest. b0 # b1 # r = b0 # ws_len_field m n @ rest" "base = 1 + length (ws_len_field m n)" "n < 2 ^ 63"
    "n \<le> 125 \<or> unat (b1 AND 0x7F) > 125"
proof -
  let ?L = "unat (b1 AND 0x7F)"
  have b1: "b1 = (if m then 0x80 else 0) OR word_of_nat ?L"
    using byte_split [of b1] assms(2) by simp
  consider "?L < 126" | "?L = 126" | "?L = 127" using len7_bound [of b1] by linarith
  then have "(\<exists>rest. b1 # r = ws_len_field m n @ rest) \<and> base = 1 + length (ws_len_field m n) \<and> n < 2 ^ 63
      \<and> (n \<le> 125 \<or> ?L > 125)"
  proof cases
    case 1
    with assms have "base = 2" "n = ?L" by (auto simp: ws_length_def)
    with 1 b1 show ?thesis by (simp add: ws_len_field_def)
  next
    case 2
    with assms have "2 \<le> length r" by (auto simp: ws_length_def split: if_splits)
    then obtain xs rest where r: "r = xs @ rest" "length xs = 2"
      by (metis append_take_drop_id length_take min.absorb2)
    with 2 assms(1) have "base = 4" "n = be_val xs" "126 \<le> n"
      by (simp_all add: ws_length_16 split: if_splits)
    moreover have "n \<le> 0xFFFF" using be_val_bound [of xs] r \<open>n = be_val xs\<close> by simp
    ultimately show ?thesis using b1 2 r be_bytes_be_val [of xs 2]
      by (simp add: ws_len_field_def del: be_bytes.simps) 
  next
    case 3
    with assms have "8 \<le> length r" by (auto simp: ws_length_def split: if_splits)
    then obtain xs rest where r: "r = xs @ rest" "length xs = 8"
      by (metis append_take_drop_id length_take min.absorb2)
    with 3 assms(1) have "base = 10" "n = be_val xs" "0xFFFF < n" "n < 2 ^ 63"
      by (simp_all add: ws_length_64 split: if_splits)
    then show ?thesis using b1 3 r be_bytes_be_val [of xs 8]
      by (simp add: ws_len_field_def del: be_bytes.simps)
  qed
  then show "\<exists>rest. b0 # b1 # r = b0 # ws_len_field m n @ rest" "base = 1 + length (ws_len_field m n)"
    "n < 2 ^ 63" "n \<le> 125 \<or> ?L > 125" by auto
qed

lemma ws_parse_done:
  assumes "ws_parse_head buf m = Done h"
  shows "ws_frame_ok (fin h) (opcode h) (payload_len h) \<and>
    (\<exists>key rest. length key = key_bytes m \<and> header_len h = length (ws_header (fin h) (opcode h) (payload_len h) key)
      \<and> buf = ws_header (fin h) (opcode h) (payload_len h) key @ rest)"
proof -
  from assms obtain b0 b1 r where buf: "buf = b0 # b1 # r"
    by (cases buf; cases "tl buf") (auto simp: ws_parse_head_def)
  from assms obtain base where
    rsv: "b0 AND 0x70 = 0" and m: "b1 AND 0x80 \<noteq> 0 \<longleftrightarrow> m" and
    op: "opcode h = b0 AND 0x0F" "known_opcode (b0 AND 0x0F)" and f: "fin h \<longleftrightarrow> b0 AND 0x80 \<noteq> 0" and
    ctl: "OP_CLOSE \<le> b0 AND 0x0F \<longrightarrow> fin h \<and> unat (b1 AND 0x7F) \<le> 125" and
    len: "ws_length (b0 # b1 # r) (unat (b1 AND 0x7F)) = Inr (base, payload_len h)" and
    hl: "header_len h = base + key_bytes m" "header_len h \<le> length buf"
    unfolding buf ws_parse_head_def Let_def
    by (auto split: if_splits sum.splits prod.splits simp: key_bytes_def ws_length_undecided)
  note L = ws_length_Inr [OF len m]
  from L(1) obtain rest where rest: "b1 # r = ws_len_field m (payload_len h) @ rest" by auto
  let ?key = "take (key_bytes m) rest"
  have b0: "b0 = (if fin h then 0x80 else 0) OR opcode h"
    using first_byte_split [OF rsv] f op by simp
  have "length (b1 # r) = length (ws_len_field m (payload_len h)) + length rest" by (simp only: rest length_append)
  then have key: "length ?key = key_bytes m" using hl L(2) buf by simp
  have "buf = ws_header (fin h) (opcode h) (payload_len h) ?key @ drop (key_bytes m) rest"
    unfolding buf rest ws_header_def key_bytes_ne [OF key] by (simp flip: b0)
  moreover have "header_len h = length (ws_header (fin h) (opcode h) (payload_len h) ?key)"
    unfolding ws_header_def key_bytes_ne [OF key] using hl L(2) key by simp
  moreover have "ws_frame_ok (fin h) (opcode h) (payload_len h)"
    using op ctl L(3,4) by (auto simp: ws_frame_ok_def)
  ultimately show ?thesis using key by blast
qed

section \<open>Parsing as bytes arrive\<close>

definition ws_base :: "nat \<Rightarrow> nat" where
  "ws_base L = (if L = 126 then 4 else if L = 127 then 10 else 2)"

lemma ws_length_base:
  "ws_length buf L = Inr (base, n) \<Longrightarrow> base = ws_base L"
  "ws_length buf L = Inl (Incomplete k) \<Longrightarrow> 0 < k \<and> length buf + k = ws_base L"
  by (auto simp: ws_length_def ws_base_def Let_def split: if_splits)

lemma ws_length_stable:
  assumes "\<forall>k. ws_length buf L \<noteq> Inl (Incomplete k)"
  shows "ws_length (buf @ ys) L = ws_length buf L"
proof -
  have "ws_base L \<le> length buf \<or> L \<notin> {126, 127}"
    using assms by (auto simp: ws_length_def ws_base_def Let_def split: if_splits)
  then consider "L = 126" "4 \<le> length buf" | "L = 127" "10 \<le> length buf" | "L \<noteq> 126" "L \<noteq> 127"
    by (auto simp: ws_base_def split: if_splits)
  then show ?thesis
    by cases (simp_all add: ws_length_def nth_append)
qed

text \<open>Everything the parse decides from the first two bytes, before the length field.\<close>

definition ws_first_two :: "byte \<Rightarrow> byte \<Rightarrow> bool \<Rightarrow> string option" where
  "ws_first_two b0 b1 m =
     (if b0 AND 0x70 \<noteq> 0 then Some ''RSV bits set with no extension''
      else if \<not> known_opcode (b0 AND 0x0F) then Some ''reserved opcode''
      else if b1 AND 0x80 \<noteq> 0 \<and> \<not> m then Some ''a server frame must not be masked''
      else if \<not> b1 AND 0x80 \<noteq> 0 \<and> m then Some ''a client frame must be masked''
      else if b0 AND 0x0F \<ge> OP_CLOSE \<and> \<not> b0 AND 0x80 \<noteq> 0 then Some ''fragmented control frame''
      else if b0 AND 0x0F \<ge> OP_CLOSE \<and> unat (b1 AND 0x7F) > 125 then Some ''control frame over 125 bytes''
      else None)"

lemma ws_parse_two:
  "ws_parse_head (b0 # b1 # r) m =
     (case ws_first_two b0 b1 m of
        Some e \<Rightarrow> InvalidHead e
      | None \<Rightarrow> (case ws_length (b0 # b1 # r) (unat (b1 AND 0x7F)) of
            Inl v \<Rightarrow> v
          | Inr (base, n) \<Rightarrow>
              if length (b0 # b1 # r) < base + key_bytes m
              then Incomplete (base + key_bytes m - length (b0 # b1 # r))
              else Done \<lparr>fin = b0 AND 0x80 \<noteq> 0, opcode = b0 AND 0x0F, header_len = base + key_bytes m, payload_len = n\<rparr>))"
  by (simp add: ws_parse_head_def ws_first_two_def key_bytes_def Let_def split: sum.split)

fun head_pending :: "HeadVerdict \<Rightarrow> bool" where
  "head_pending (Incomplete k) \<longleftrightarrow> True"
| "head_pending _ \<longleftrightarrow> False"

lemma ws_parse_stable:
  assumes "\<not> head_pending (ws_parse_head xs m)"
  shows "ws_parse_head (xs @ ys) m = ws_parse_head xs m"
proof -
  from assms have "2 \<le> length xs" by (auto simp: ws_parse_head_def split: if_splits)
  then obtain b0 b1 r where xs: "xs = b0 # b1 # r"
    by (cases xs; cases "tl xs") auto
  have "ws_length (xs @ ys) (unat (b1 AND 0x7F)) = ws_length xs (unat (b1 AND 0x7F))"
    if "ws_first_two b0 b1 m = None"
    using assms that by (intro ws_length_stable) (auto simp: xs ws_parse_two)
  with assms show ?thesis
    by (auto simp: xs ws_parse_two split: option.splits sum.splits if_splits)
qed

interpretation ws_heads: incremental "\<lambda>buf. ws_parse_head buf m" head_pending for m
  by unfold_locales (rule ws_parse_stable)

lemma ws_parse_ask:
  assumes "ws_parse_head buf m = Incomplete need"
  shows "0 < need \<and> length buf + need \<le> 10 + key_bytes m \<and>
    (ws_parse_head (buf @ ys) m = Done h \<longrightarrow> length buf + need \<le> header_len h)"
proof (cases "length buf < 2")
  case True
  with assms have "need = 2 - length buf" by (simp add: ws_parse_head_def)
  moreover have "2 \<le> header_len h" if "ws_parse_head (buf @ ys) m = Done h"
    using ws_parse_done [OF that] by (auto simp: ws_header_def length_ws_len_field)
  ultimately show ?thesis using True by auto
next
  case False
  then obtain b0 b1 r where buf: "buf = b0 # b1 # r"
    by (cases buf; cases "tl buf") auto
  let ?L = "unat (b1 AND 0x7F)"
  from assms have two: "ws_first_two b0 b1 m = None" by (auto simp: buf ws_parse_two split: option.splits)
  have base: "ws_base ?L \<le> 10" by (simp add: ws_base_def)
  have ask: "0 < need \<and> (length buf + need = ws_base ?L \<or> length buf + need = ws_base ?L + key_bytes m)"
  proof (cases "ws_length buf ?L")
    case (Inl v)
    with assms two have "v = Incomplete need" by (simp add: buf ws_parse_two)
    with Inl ws_length_base(2) show ?thesis by blast
  next
    case (Inr p)
    with assms two ws_length_base(1) [of buf ?L "fst p" "snd p"] show ?thesis
      by (auto simp: buf ws_parse_two split: prod.splits if_splits)
  qed
  moreover have "header_len h = ws_base ?L + key_bytes m" if d: "ws_parse_head (buf @ ys) m = Done h"
  proof (cases "ws_length (buf @ ys) ?L")
    case (Inl v)
    with d two ws_length_undecided show ?thesis by (simp add: buf ws_parse_two)
  next
    case (Inr p)
    with d two ws_length_base(1) [of "buf @ ys" ?L "fst p" "snd p"] show ?thesis
      by (auto simp: buf ws_parse_two split: prod.splits if_splits)
  qed
  ultimately show ?thesis using base by auto
qed

section \<open>Encoding and the framers\<close>

lemma length_xor_key [simp]: "length (xor_key key xs) = length xs"
  by (simp add: xor_key_def)

lemma xor_key_involution [simp]: "xor_key key (xor_key key xs) = xs"
  by (rule nth_equalityI) (simp_all add: xor_key_def xor.assoc)

lemma ws_encode_header:
  assumes "known_opcode op" "\<forall>k. key = Some k \<longrightarrow> length k = 4"
  shows "ws_encode op payload key =
    ws_header True op (length payload) (case key of Some k \<Rightarrow> k | None \<Rightarrow> [])
      @ (case key of Some k \<Rightarrow> xor_key k payload | None \<Rightarrow> payload)"
  using assms
  by (cases key) (auto simp: ws_encode_def ws_header_def ws_len_field_def first_byte(4) Let_def simp del: be_bytes.simps)

definition ws_ok :: "bool \<Rightarrow> nat \<Rightarrow> bytes \<Rightarrow> WsState \<Rightarrow> bool" where
  "ws_ok m need buf st \<longleftrightarrow> ws_phase st = Frames \<and> 14 \<le> need \<and>
     (\<forall>ys. case ws_parse_head (buf @ ys) m of
        Incomplete k \<Rightarrow> True | InvalidHead e \<Rightarrow> False | Done h \<Rightarrow> header_len h + payload_len h \<le> need)"

lemma ws_frame_step_fits:
  assumes "ws_ok m need buf st"
  shows "verdict_fits need (length buf) (ws_frame_step buf (\<lambda>b. ws_parse_head b m))"
proof (cases "ws_parse_head buf m")
  case (Incomplete k)
  moreover have "key_bytes m \<le> 4" by (simp add: key_bytes_def)
  ultimately show ?thesis
    using ws_parse_ask [OF Incomplete, of "[]" undefined] assms by (auto simp: ws_frame_step_def ws_ok_def)
next
  case (InvalidHead e)
  with assms show ?thesis unfolding ws_ok_def by (metis append_Nil2 HeadVerdict.simps(11))
next
  case (Done h)
  have "0 < header_len h" using ws_parse_done [OF Done] by (auto simp: ws_header_def)
  moreover have "header_len h + payload_len h \<le> need"
    using assms Done unfolding ws_ok_def by (metis append_Nil2 HeadVerdict.simps(12))
  moreover have "buf \<noteq> []" using Done by (auto simp: ws_parse_head_def)
  ultimately show ?thesis using Done by (auto simp: ws_frame_step_def)
qed

lemma ws_frame_Frames:
  "ws_phase st = Frames \<Longrightarrow> ws_frame buf st = (ws_frame_step buf (\<lambda>b. ws_parse_head b False), st)"
  "ws_phase st = Frames \<Longrightarrow> ws_server_frame buf st = (ws_frame_step buf (\<lambda>b. ws_parse_head b True), st)"
  by (simp_all add: ws_frame_def ws_server_frame_def frame_head_def [abs_def] server_frame_head_def [abs_def])

lemma ws_ok_append: "ws_ok m need buf st \<Longrightarrow> ws_ok m need (buf @ ys) st"
  by (simp add: ws_ok_def)

interpretation ws_client: framer ws_frame "ws_ok False need" need for need
proof unfold_locales
  fix buf st more
  assume ok: "ws_ok False need buf st"
  then have st: "ws_phase st = Frames" by (simp add: ws_ok_def)
  show "verdict_fits need (length buf) (fst (ws_frame buf st))"
    using ws_frame_step_fits [OF ok] by (simp add: ws_frame_Frames [OF st])
  show "ws_ok False need (buf @ more) (snd (ws_frame buf st))"
    using ws_ok_append [OF ok] by (simp add: ws_frame_Frames [OF st])
qed

interpretation ws_server: framer ws_server_frame "ws_ok True need" need for need
proof unfold_locales
  fix buf st more
  assume ok: "ws_ok True need buf st"
  then have st: "ws_phase st = Frames" by (simp add: ws_ok_def)
  show "verdict_fits need (length buf) (fst (ws_server_frame buf st))"
    using ws_frame_step_fits [OF ok] by (simp add: ws_frame_Frames [OF st])
  show "ws_ok True need (buf @ more) (snd (ws_server_frame buf st))"
    using ws_ok_append [OF ok] by (simp add: ws_frame_Frames [OF st])
qed

section \<open>Properties\<close>

text \<open>
  C24. The frame header parser, in both directions, accepts exactly the headers of RFC 6455: a header is
  read as \<open>h\<close> iff the buffer begins with the one header the format gives those fields, with the
  shortest length form, no reserved bit, a defined opcode, a masking key iff the direction requires it,
  and control frames whole and of at most 125 bytes. So no two byte sequences name the same frame.
\<close>

theorem ws_head_accepts_exactly:
  "ws_parse_head buf m = Done h \<longleftrightarrow>
     (\<exists>key rest. ws_frame_ok (fin h) (opcode h) (payload_len h) \<and> length key = key_bytes m
       \<and> header_len h = length (ws_header (fin h) (opcode h) (payload_len h) key)
       \<and> buf = ws_header (fin h) (opcode h) (payload_len h) key @ rest)"
  using ws_parse_done [of buf m h] by (auto simp: ws_parse_header)

text \<open>
  C25. A frame one side encodes is the frame the other side parses: the opcode, the FIN bit and the
  payload length are read back, the payload behind the header, unmasked with the key the header carries
  where the direction masks, is the payload that was sent, and what follows the frame is untouched.
\<close>

theorem ws_frame_roundtrip:
  assumes "ws_frame_ok True op (length payload)" and "\<forall>k. key = Some k \<longrightarrow> length k = 4"
  shows "\<exists>h. ws_parse_head (ws_encode op payload key @ rest) (key \<noteq> None) = Done h
      \<and> fin h \<and> opcode h = op \<and> payload_len h = length payload
      \<and> (let stream = ws_encode op payload key @ rest; body = take (payload_len h) (drop (header_len h) stream)
         in (if key = None then Some body else unmask (take (header_len h) stream) body) = Some payload
            \<and> drop (header_len h + payload_len h) stream = rest)"
proof -
  let ?k = "case key of Some k \<Rightarrow> k | None \<Rightarrow> []"
  let ?hdr = "ws_header True op (length payload) ?k"
  have "known_opcode op" using assms(1) by (simp add: ws_frame_ok_def)
  note enc = ws_encode_header [OF this assms(2), of payload]
  have "length ?k = key_bytes (key \<noteq> None)" using assms(2) by (auto simp: key_bytes_def split: option.splits)
  note parse = ws_parse_header [OF assms(1) this]
  have tail: "unmask (ws_header True op (length payload) k) (xor_key k payload) = Some payload" if "key = Some k" for k
    using assms(2) that by (simp add: ws_header_def unmask_def)
  show ?thesis
    unfolding enc append_assoc parse
    by (cases key) (auto simp: Let_def tail)
qed

text \<open>
  However the bytes of a frame arrive, the parser gives one verdict, never takes it back, and until
  then asks for a positive number of bytes that do not reach past the header of any frame the bytes
  can still become: the payload of the next read is never swallowed.
\<close>

theorem ws_head_ask_exact:
  assumes "concat ss = concat ts"
  shows "first_verdict (\<lambda>buf. ws_parse_head buf m) head_pending [] ss
       = first_verdict (\<lambda>buf. ws_parse_head buf m) head_pending [] ts
    \<and> (\<forall>buf need ys h. ws_parse_head buf m = Incomplete need \<longrightarrow> 0 < need \<and> length buf + need \<le> 14
       \<and> (ws_parse_head (buf @ ys) m = Done h \<longrightarrow> length buf + need \<le> header_len h))"
proof (intro conjI allI impI)
  show "first_verdict (\<lambda>buf. ws_parse_head buf m) head_pending [] ss
      = first_verdict (\<lambda>buf. ws_parse_head buf m) head_pending [] ts"
    using assms by (rule ws_heads.same_bytes_same_verdict)
next
  fix buf need ys h
  assume inc: "ws_parse_head buf m = Incomplete need"
  have "key_bytes m \<le> 4" by (simp add: key_bytes_def)
  then show "0 < need" "length buf + need \<le> 14" using ws_parse_ask [OF inc, of ys h] by auto
  show "length buf + need \<le> header_len h" if "ws_parse_head (buf @ ys) m = Done h"
    using ws_parse_ask [OF inc] that by auto
qed

text \<open>
  A peer's close frame is never answered with a code an endpoint may not send: the answer to a body
  is a sendable code, it is the peer's own code when the body is a sendable code with a UTF-8 reason,
  and only an empty body is answered with no body.
\<close>

theorem close_echo_sendable:
  "(case close_echo_code payload of
      None \<Rightarrow> payload = []
    | Some c \<Rightarrow> is_sendable_close_code c \<and> payload \<noteq> [])
   \<and> (\<forall>b1 b2 reason. payload = b1 # b2 # reason \<and> is_sendable_close_code (be_val [b1, b2]) \<and> utf8_valid reason
        \<longrightarrow> close_echo_code payload = Some (be_val [b1, b2]))"
  by (auto simp: close_echo_code_def from_utf8_def Let_def CLOSE_PROTOCOL_ERROR_def CLOSE_INVALID_PAYLOAD_def
      is_sendable_close_code_def)

section \<open>Witnesses\<close>

theorem ws_frame_roundtrip_witness:
  "\<exists>h. ws_parse_head (ws_encode OP_PING [1, 2, 3, 4, 5] (Some [9, 8, 7, 6]) @ [7]) True = Done h \<and> opcode h = OP_PING"
proof -
  have "ws_frame_ok True OP_PING (length [1, 2, 3, 4, 5 :: byte])" by code_simp
  from ws_frame_roundtrip [OF this, of "Some [9, 8, 7, 6]" "[7]"] show ?thesis by auto
qed

theorem ws_head_ask_exact_witness:
  "first_verdict (\<lambda>buf. ws_parse_head buf False) head_pending [] [[0x81], [126, 1], [0]]
     = Some (Done \<lparr>fin = True, opcode = OP_TEXT, header_len = 4, payload_len = 256\<rparr>)"
proof -
  have "concat [[0x81], [126, 1], [0]] = concat [[0x81, 126, 1, 0 :: byte]]" by simp
  from ws_head_ask_exact [OF this, of False]
  have "first_verdict (\<lambda>buf. ws_parse_head buf False) head_pending [] [[0x81], [126, 1], [0]]
      = first_verdict (\<lambda>buf. ws_parse_head buf False) head_pending [] [[0x81, 126, 1, 0]]" by blast
  also have "\<dots> = Some (Done \<lparr>fin = True, opcode = OP_TEXT, header_len = 4, payload_len = 256\<rparr>)" by code_simp
  finally show ?thesis .
qed

theorem close_echo_sendable_witness: "close_echo_code [3, 232, 111, 107] = Some 1000"
proof -
  have "is_sendable_close_code (be_val [3, 232])" "utf8_valid [111, 107]" "be_val [3, 232] = 1000" by code_simp+
  with close_echo_sendable [of "[3, 232, 111, 107]"] show ?thesis by auto
qed

end
