(* ===== verification/Rust_Utf8.thy ===== *)
theory Rust_Utf8
  imports Rust_Str Tn_Error
begin

text \<open>
  The parts of Rust's \<^verbatim>\<open>str\<close> that look at characters rather than bytes, on UTF-8 byte lists: one decoding
  step, \<^verbatim>\<open>String::from_utf8_lossy\<close>, \<^verbatim>\<open>str::trim\<close> with Unicode's White_Space and
  \<^verbatim>\<open>str::escape_default\<close>.
\<close>

section \<open>Decoding\<close>

text \<open>
  One step over the head of a byte list: whether a well-formed character stands there, and how many bytes
  it takes; for an ill-formed sequence, how many bytes its maximal subpart takes, which is what the
  standard library replaces by one U+FFFD.
\<close>

definition utf8_second :: "byte \<Rightarrow> byte \<Rightarrow> bool" where
  "utf8_second b c \<longleftrightarrow>
     (if b = 0xE0 then 0xA0 \<le> c \<and> c \<le> 0xBF
      else if b = 0xED then 0x80 \<le> c \<and> c \<le> 0x9F
      else if b = 0xF0 then 0x90 \<le> c \<and> c \<le> 0xBF
      else if b = 0xF4 then 0x80 \<le> c \<and> c \<le> 0x8F
      else utf8_cont c)"

definition utf8_width :: "byte \<Rightarrow> nat" where
  "utf8_width b =
     (if b < 0x80 then 1 else if 0xC2 \<le> b \<and> b \<le> 0xDF then 2 else if 0xE0 \<le> b \<and> b \<le> 0xEF then 3
      else if 0xF0 \<le> b \<and> b \<le> 0xF4 then 4 else 0)"

definition utf8_step :: "byte \<Rightarrow> bytes \<Rightarrow> bool \<times> nat" where
  "utf8_step b r =
     (let w = utf8_width b
      in if w = 0 then (False, 1)
         else if w = 1 then (True, 1)
         else case r of
             [] \<Rightarrow> (False, 1)
           | c # r' \<Rightarrow>
               if \<not> utf8_second b c then (False, 1)
               else let k = length (takeWhile utf8_cont (take (w - 2) r'))
                 in (k = w - 2, 2 + k))"

fun utf8_chars :: "bytes \<Rightarrow> (bool \<times> bytes) list" where
  "utf8_chars [] = []"
| "utf8_chars (b # r) =
     (let (ok, n) = utf8_step b r in (ok, b # take (n - 1) r) # utf8_chars (drop (n - 1) r))"

definition from_utf8_lossy :: "bytes \<Rightarrow> bytes" where
  "from_utf8_lossy xs =
     concat (map (\<lambda>(ok, c). if ok then c else [0xEF, 0xBF, 0xBD]) (utf8_chars xs))"

fun code_point :: "bytes \<Rightarrow> nat" where
  "code_point [a] = unat a"
| "code_point [a, b] = unat (a AND 0x1F) * 64 + unat (b AND 0x3F)"
| "code_point [a, b, c] = unat (a AND 0x0F) * 4096 + unat (b AND 0x3F) * 64 + unat (c AND 0x3F)"
| "code_point [a, b, c, d] =
     unat (a AND 0x07) * 262144 + unat (b AND 0x3F) * 4096 + unat (c AND 0x3F) * 64 + unat (d AND 0x3F)"
| "code_point _ = 0"

section \<open>Trimming\<close>

definition ws1 :: "byte \<Rightarrow> bool" where
  "ws1 b \<longleftrightarrow> 0x09 \<le> b \<and> b \<le> 0x0D \<or> b = 0x20"

definition ws2 :: "byte \<Rightarrow> byte \<Rightarrow> bool" where
  "ws2 b c \<longleftrightarrow> b = 0xC2 \<and> (c = 0x85 \<or> c = 0xA0)"

definition ws3 :: "byte \<Rightarrow> byte \<Rightarrow> byte \<Rightarrow> bool" where
  "ws3 b c d \<longleftrightarrow>
     b = 0xE1 \<and> c = 0x9A \<and> d = 0x80
     \<or> b = 0xE2 \<and> c = 0x80 \<and> (0x80 \<le> d \<and> d \<le> 0x8A \<or> d = 0xA8 \<or> d = 0xA9 \<or> d = 0xAF)
     \<or> b = 0xE2 \<and> c = 0x81 \<and> d = 0x9F
     \<or> b = 0xE3 \<and> c = 0x80 \<and> d = 0x80"

fun str_trim_start :: "bytes \<Rightarrow> bytes" where
  "str_trim_start (b # c # d # r) =
     (if ws1 b then str_trim_start (c # d # r)
      else if ws2 b c then str_trim_start (d # r)
      else if ws3 b c d then str_trim_start r else b # c # d # r)"
| "str_trim_start [b, c] = (if ws1 b then str_trim_start [c] else if ws2 b c then [] else [b, c])"
| "str_trim_start [b] = (if ws1 b then [] else [b])"
| "str_trim_start [] = []"

text \<open>The same from the end, on the reversed list.\<close>

fun trim_rev :: "bytes \<Rightarrow> bytes" where
  "trim_rev (d # c # b # r) =
     (if ws1 d then trim_rev (c # b # r)
      else if ws2 c d then trim_rev (b # r)
      else if ws3 b c d then trim_rev r else d # c # b # r)"
| "trim_rev [d, c] = (if ws1 d then trim_rev [c] else if ws2 c d then [] else [d, c])"
| "trim_rev [d] = (if ws1 d then [] else [d])"
| "trim_rev [] = []"

definition str_trim :: "bytes \<Rightarrow> bytes" where
  "str_trim xs = rev (trim_rev (rev (str_trim_start xs)))"

section \<open>Escaping\<close>

definition hex_char :: "nat \<Rightarrow> byte" where
  "hex_char d = (if d < 10 then word_of_nat (48 + d) else word_of_nat (87 + d))"

fun hex_nat :: "nat \<Rightarrow> bytes" where
  "hex_nat n = (if n < 16 then [hex_char n] else hex_nat (n div 16) @ [hex_char (n mod 16)])"

declare hex_nat.simps [simp del]

definition char_escape_default :: "bytes \<Rightarrow> bytes" where
  "char_escape_default c =
     (if c = [9] then [92, 116]
      else if c = [13] then [92, 114]
      else if c = [10] then [92, 110]
      else if c = [39] \<or> c = [34] \<or> c = [92] then 92 # c
      else case c of
          [b] \<Rightarrow> if 0x20 \<le> b \<and> b \<le> 0x7E then [b] else [92, 117, 123] @ hex_nat (code_point c) @ [125]
        | _ \<Rightarrow> [92, 117, 123] @ hex_nat (code_point c) @ [125])"

definition escape_default :: "bytes \<Rightarrow> bytes" where
  "escape_default xs = concat (map (\<lambda>(ok, c). char_escape_default c) (utf8_chars xs))"

section \<open>Lemmas\<close>

text \<open>On ASCII text the lossy decoding changes nothing.\<close>

lemma utf8_step_ascii: "b < 0x80 \<Longrightarrow> utf8_step b r = (True, 1)"
  by (simp add: utf8_step_def utf8_width_def)

lemma from_utf8_lossy_ascii: "\<forall>b \<in> set xs. b < 0x80 \<Longrightarrow> from_utf8_lossy xs = xs"
proof (induction xs)
  case (Cons b r)
  then have "from_utf8_lossy (b # r) = b # from_utf8_lossy r"
    by (simp add: from_utf8_lossy_def utf8_step_ascii)
  with Cons show ?case by simp
qed (simp add: from_utf8_lossy_def)

text \<open>Trimming text that neither begins nor ends in white space, given as ASCII graphic bytes, keeps it.\<close>

lemma ws_graphic: "0x21 \<le> b \<Longrightarrow> b \<le> 0x7E \<Longrightarrow> \<not> ws1 b \<and> \<not> ws2 b c \<and> \<not> ws2 c b \<and> \<not> ws3 b c d \<and> \<not> ws3 d c b"
  by (auto simp: ws1_def ws2_def ws3_def word_le_nat_alt)

lemma str_trim_start_graphic: "xs \<noteq> [] \<Longrightarrow> 0x21 \<le> hd xs \<Longrightarrow> hd xs \<le> 0x7E \<Longrightarrow> str_trim_start xs = xs"
  by (cases xs rule: str_trim_start.cases) (simp_all add: ws_graphic)

lemma trim_rev_graphic: "xs \<noteq> [] \<Longrightarrow> 0x21 \<le> hd xs \<Longrightarrow> hd xs \<le> 0x7E \<Longrightarrow> trim_rev xs = xs"
  by (cases xs rule: trim_rev.cases) (simp_all add: ws_graphic)

lemma str_trim_graphic:
  assumes "\<forall>b \<in> set xs. 0x21 \<le> b \<and> b \<le> 0x7E"
  shows "str_trim xs = xs"
proof (cases "xs = []")
  case False
  with assms have "str_trim_start xs = xs" by (simp add: str_trim_start_graphic)
  moreover have "trim_rev (rev xs) = rev xs" using False assms by (simp add: trim_rev_graphic hd_rev)
  ultimately show ?thesis by (simp add: str_trim_def)
qed (simp add: str_trim_def)

end
