(* ===== verification/Ws_Handshake.thy ===== *)
theory Ws_Handshake
  imports Ws_Frame Rust_Utf8
begin

text \<open>
  The WebSocket upgrade (\<^verbatim>\<open>src/ws/mod.rs\<close>, the handshake half): the request and the response each side
  writes, and the checks each side makes of what the other wrote. The head parsers of \<^verbatim>\<open>httparse\<close>
  (\<open>reads_requests\<close>, \<open>reads_responses\<close>), the
  digest and the base64 of \<^verbatim>\<open>openssl\<close> and \<^verbatim>\<open>getrandom(2)\<close> are parameters.
\<close>

section \<open>Requests and responses\<close>

definition MAX_TARGET :: nat where "MAX_TARGET = 2048"

definition ACCEPT_GUID :: bytes where
  "ACCEPT_GUID = s2b ''258EAFA5-E914-47DA-95CA-C5AB0DC85B11''"

datatype HandshakeError =
    NotSwitching nat bytes
  | NotUpgraded
  | BadAccept
  | NotHttp
  | NotUpgradeRequest
  | MissingKey
  | BadVersion
  | Unrequested string bytes
  | DuplicateHeader string
  | BadTarget bytes

text \<open>What the two parsers report of a head, as far as the code reads it.\<close>

datatype 'a HeadParse = Complete_head 'a | Partial_head | Parse_error

type_synonym header = "bytes \<times> bytes"

record ParsedRequest =
  rq_method :: "bytes option"
  rq_headers :: "header list"

record ParsedResponse =
  rs_code :: "nat option"
  rs_reason :: "bytes option"
  rs_headers :: "header list"

definition validate_request_target :: "bytes \<Rightarrow> HandshakeError + unit" where
  "validate_request_target endpoint =
     (if endpoint = [] \<or> length endpoint > MAX_TARGET then Inl (BadTarget (escape_default endpoint))
      else if hd endpoint \<noteq> 0x2F then Inl (BadTarget (escape_default endpoint))
      else if \<not> list_all (\<lambda>b. 0x21 \<le> b \<and> b \<le> 0x7E) endpoint then Inl (BadTarget (escape_default endpoint))
      else Inr ())"

definition upgrade_request :: "bytes \<Rightarrow> bytes \<Rightarrow> HandshakeError + bytes" where
  "upgrade_request endpoint key =
     (case validate_request_target endpoint of
        Inl e \<Rightarrow> Inl e
      | Inr _ \<Rightarrow> Inr (s2b ''GET '' @ endpoint @ s2b '' HTTP/1.1'' @ [CR, LF] @ s2b ''Host: localhost'' @ [CR, LF]
          @ s2b ''Upgrade: websocket'' @ [CR, LF] @ s2b ''Connection: Upgrade'' @ [CR, LF]
          @ s2b ''Sec-WebSocket-Key: '' @ key
          @ [CR, LF] @ s2b ''Sec-WebSocket-Version: 13'' @ [CR, LF, CR, LF]))"

definition accept_for :: "(bytes \<Rightarrow> bytes) \<Rightarrow> (bytes \<Rightarrow> bytes) \<Rightarrow> bytes \<Rightarrow> bytes" where
  "accept_for sha1 encode_block key = encode_block (sha1 (key @ ACCEPT_GUID))"

definition upgrade_response :: "(bytes \<Rightarrow> bytes) \<Rightarrow> (bytes \<Rightarrow> bytes) \<Rightarrow> bytes \<Rightarrow> bytes" where
  "upgrade_response sha1 encode_block key =
     s2b ''HTTP/1.1 101 Switching Protocols'' @ [CR, LF]
     @ s2b ''Upgrade: websocket'' @ [CR, LF] @ s2b ''Connection: Upgrade'' @ [CR, LF]
     @ s2b ''Sec-WebSocket-Accept: '' @ accept_for sha1 encode_block key @ [CR, LF, CR, LF]"

section \<open>The checks\<close>

definition ws_has_token :: "bytes \<Rightarrow> bytes \<Rightarrow> bool" where
  "ws_has_token v token \<longleftrightarrow>
     (case from_utf8 v of
        None \<Rightarrow> False
      | Some v \<Rightarrow> list_ex (\<lambda>t. eq_ignore_ascii_case (str_trim t) token) (split_on (\<lambda>b. b = 0x2C) v))"

text \<open>\<^verbatim>\<open>from_utf8(v).is_ok_and(|v| v.trim()...)\<close>, as the singleton fields are tested.\<close>

definition text_is :: "(bytes \<Rightarrow> bool) \<Rightarrow> bytes \<Rightarrow> bool" where
  "text_is p v \<longleftrightarrow> (case from_utf8 v of None \<Rightarrow> False | Some v \<Rightarrow> p (str_trim v))"

definition is_websocket :: "bytes \<Rightarrow> bool" where
  "is_websocket v \<longleftrightarrow> eq_ignore_ascii_case v (s2b ''websocket'')"

definition unrequested_negotiation :: "bytes \<Rightarrow> string option" where
  "unrequested_negotiation name =
     (if eq_ignore_ascii_case name (s2b ''sec-websocket-extensions'') then Some ''Sec-WebSocket-Extensions''
      else if eq_ignore_ascii_case name (s2b ''sec-websocket-protocol'') then Some ''Sec-WebSocket-Protocol''
      else None)"

record Scan101 =
  upgraded :: "bool option"
  connection :: bool
  accept_ok :: "bool option"
  extensions_seen :: bool
  protocol_seen :: bool

definition scan_101 :: "bytes \<Rightarrow> header \<Rightarrow> Scan101 \<Rightarrow> HandshakeError + Scan101" where
  "scan_101 accept h st =
     (let (name, v) = h
      in if eq_ignore_ascii_case name (s2b ''upgrade'') then
           (if upgraded st \<noteq> None then Inl (DuplicateHeader ''Upgrade'')
            else Inr (st\<lparr>upgraded := Some (text_is is_websocket v)\<rparr>))
         else if eq_ignore_ascii_case name (s2b ''connection'') then
           Inr (st\<lparr>connection := connection st \<or> ws_has_token v (s2b ''upgrade'')\<rparr>)
         else if eq_ignore_ascii_case name (s2b ''sec-websocket-accept'') then
           (if accept_ok st \<noteq> None then Inl (DuplicateHeader ''Sec-WebSocket-Accept'')
            else Inr (st\<lparr>accept_ok := Some (text_is (\<lambda>t. t = accept) v)\<rparr>))
         else case unrequested_negotiation name of
             None \<Rightarrow> Inr st
           | Some header \<Rightarrow>
               let seen = (if header = ''Sec-WebSocket-Extensions'' then extensions_seen st else protocol_seen st);
                   st = (if header = ''Sec-WebSocket-Extensions'' then st\<lparr>extensions_seen := True\<rparr>
                         else st\<lparr>protocol_seen := True\<rparr>)
               in if seen then Inl (DuplicateHeader header)
                  else let t = str_trim (from_utf8_lossy v)
                    in if t \<noteq> [] then Inl (Unrequested header t) else Inr st)"

fun scan_101_loop :: "bytes \<Rightarrow> header list \<Rightarrow> Scan101 \<Rightarrow> HandshakeError + Scan101" where
  "scan_101_loop accept [] st = Inr st"
| "scan_101_loop accept (h # hs) st =
     (case scan_101 accept h st of Inl e \<Rightarrow> Inl e | Inr st \<Rightarrow> scan_101_loop accept hs st)"

definition Scan101_start :: Scan101 where
  "Scan101_start = \<lparr>upgraded = None, connection = False, accept_ok = None, extensions_seen = False, protocol_seen = False\<rparr>"

definition validate_101 ::
  "(bytes \<Rightarrow> ParsedResponse HeadParse) \<Rightarrow> (bytes \<Rightarrow> bytes) \<Rightarrow> (bytes \<Rightarrow> bytes) \<Rightarrow> bytes \<Rightarrow> bytes \<Rightarrow> HandshakeError + unit"
where
  "validate_101 parse sha1 encode_block head key =
     (case parse head of
        Partial_head \<Rightarrow> Inl NotHttp
      | Parse_error \<Rightarrow> Inl NotHttp
      | Complete_head resp \<Rightarrow>
          (case rs_code resp of
             None \<Rightarrow> Inl NotHttp
           | Some status \<Rightarrow>
               if status \<noteq> 101 then
                 Inl (NotSwitching status (case rs_reason resp of None \<Rightarrow> [] | Some r \<Rightarrow> r))
               else case scan_101_loop (accept_for sha1 encode_block key) (rs_headers resp) Scan101_start of
                   Inl e \<Rightarrow> Inl e
                 | Inr st \<Rightarrow>
                     if upgraded st \<noteq> Some True \<or> \<not> connection st then Inl NotUpgraded
                     else if accept_ok st \<noteq> Some True then Inl BadAccept
                     else Inr ()))"

record ScanUpgrade =
  su_upgraded :: "bool option"
  su_connection :: bool
  su_version :: "bool option"
  su_key :: "bytes option"

definition scan_upgrade :: "header \<Rightarrow> ScanUpgrade \<Rightarrow> HandshakeError + ScanUpgrade" where
  "scan_upgrade h st =
     (let (name, v) = h
      in if eq_ignore_ascii_case name (s2b ''upgrade'') then
           (if su_upgraded st \<noteq> None then Inl (DuplicateHeader ''Upgrade'')
            else Inr (st\<lparr>su_upgraded := Some (text_is is_websocket v)\<rparr>))
         else if eq_ignore_ascii_case name (s2b ''connection'') then
           Inr (st\<lparr>su_connection := su_connection st \<or> ws_has_token v (s2b ''upgrade'')\<rparr>)
         else if eq_ignore_ascii_case name (s2b ''sec-websocket-version'') then
           (if su_version st \<noteq> None then Inl (DuplicateHeader ''Sec-WebSocket-Version'')
            else Inr (st\<lparr>su_version := Some (text_is (\<lambda>t. t = s2b ''13'') v)\<rparr>))
         else if eq_ignore_ascii_case name (s2b ''sec-websocket-key'') then
           (if su_key st \<noteq> None then Inl (DuplicateHeader ''Sec-WebSocket-Key'')
            else Inr (st\<lparr>su_key := Some (case from_utf8 v of None \<Rightarrow> [] | Some v \<Rightarrow> str_trim v)\<rparr>))
         else Inr st)"

fun scan_upgrade_loop :: "header list \<Rightarrow> ScanUpgrade \<Rightarrow> HandshakeError + ScanUpgrade" where
  "scan_upgrade_loop [] st = Inr st"
| "scan_upgrade_loop (h # hs) st =
     (case scan_upgrade h st of Inl e \<Rightarrow> Inl e | Inr st \<Rightarrow> scan_upgrade_loop hs st)"

definition ScanUpgrade_start :: ScanUpgrade where
  "ScanUpgrade_start = \<lparr>su_upgraded = None, su_connection = False, su_version = None, su_key = None\<rparr>"

definition validate_upgrade_request :: "(bytes \<Rightarrow> ParsedRequest HeadParse) \<Rightarrow> bytes \<Rightarrow> HandshakeError + bytes" where
  "validate_upgrade_request parse head =
     (case parse head of
        Partial_head \<Rightarrow> Inl NotHttp
      | Parse_error \<Rightarrow> Inl NotHttp
      | Complete_head req \<Rightarrow>
          if rq_method req \<noteq> Some (s2b ''GET'') then Inl NotUpgradeRequest
          else case scan_upgrade_loop (rq_headers req) ScanUpgrade_start of
              Inl e \<Rightarrow> Inl e
            | Inr st \<Rightarrow>
                if su_upgraded st \<noteq> Some True \<or> \<not> su_connection st then Inl NotUpgradeRequest
                else if su_version st \<noteq> Some True then Inl BadVersion
                else (case su_key st of
                    None \<Rightarrow> Inl MissingKey
                  | Some k \<Rightarrow> if k = [] then Inl MissingKey else Inr k))"

section \<open>Randomness\<close>

text \<open>
  The answers of \<^verbatim>\<open>getrandom(2)\<close>, in order, are an argument: each fills some of the tail, is interrupted,
  or fails. \<open>None\<close> means the answers ran out before the buffer was full; \<open>Some None\<close> is the panic.
\<close>

datatype getrandom_answer = Filled bytes | Interrupted | Failed

fun getrandom_exact :: "getrandom_answer list \<Rightarrow> nat \<Rightarrow> bytes \<Rightarrow> bytes option option" where
  "getrandom_exact [] n acc = (if length acc < n then None else Some (Some acc))"
| "getrandom_exact (a # as) n acc =
     (if length acc < n then
        (case a of
           Filled xs \<Rightarrow> getrandom_exact as n (acc @ take (n - length acc) xs)
         | Interrupted \<Rightarrow> getrandom_exact as n acc
         | Failed \<Rightarrow> Some None)
      else Some (Some acc))"

definition ws_key :: "(bytes \<Rightarrow> bytes) \<Rightarrow> getrandom_answer list \<Rightarrow> bytes option option" where
  "ws_key encode_block answers = map_option (map_option encode_block) (getrandom_exact answers 16 [])"

definition mask_key :: "getrandom_answer list \<Rightarrow> bytes option option" where
  "mask_key answers = getrandom_exact answers 4 []"

definition handshake_error_text :: "HandshakeError \<Rightarrow> bytes" where
  "handshake_error_text e =
     (case e of
        NotSwitching status reason \<Rightarrow> s2b ''endpoint answered '' @ s2b (show_nat status) @ s2b '' '' @ reason @ s2b '', not 101''
      | NotUpgraded \<Rightarrow> s2b ''101 head carried no websocket upgrade''
      | BadAccept \<Rightarrow> s2b ''Sec-WebSocket-Accept did not match our key''
      | NotHttp \<Rightarrow> s2b ''response head was not HTTP''
      | NotUpgradeRequest \<Rightarrow> s2b ''request was not a GET websocket upgrade''
      | MissingKey \<Rightarrow> s2b ''request carried no Sec-WebSocket-Key''
      | BadVersion \<Rightarrow> s2b ''Sec-WebSocket-Version was not 13''
      | Unrequested header v \<Rightarrow> s2b ''server selected '' @ s2b header @ s2b '': '' @ v @ s2b '', never offered''
      | DuplicateHeader header \<Rightarrow> s2b header @ s2b '' appeared more than once''
      | BadTarget v \<Rightarrow> s2b ''endpoint is not a usable request-target: '' @ v)"

section \<open>What the scans compute\<close>

text \<open>
  The specification: the values of a field in order, and a field that may appear once, read through
  \<open>f\<close>. \<open>once\<close> fails on a second occurrence.
\<close>

definition field :: "string \<Rightarrow> header list \<Rightarrow> bytes list" where
  "field n hs = map snd (filter (\<lambda>h. eq_ignore_ascii_case (fst h) (s2b n)) hs)"

fun once :: "(bytes \<Rightarrow> 'a) \<Rightarrow> 'a option \<Rightarrow> bytes list \<Rightarrow> 'a option option" where
  "once f x [] = Some x"
| "once f None (v # vs) = once f (Some (f v)) vs"
| "once f (Some x) (v # vs) = None"

definition blank :: "bytes \<Rightarrow> bool" where
  "blank v \<longleftrightarrow> str_trim (from_utf8_lossy v) = []"

fun blank_once :: "bool \<Rightarrow> bytes list \<Rightarrow> bool option" where
  "blank_once seen [] = Some seen"
| "blank_once seen (v # vs) = (if \<not> seen \<and> blank v then blank_once True vs else None)"

text \<open>The names the scans look for have pairwise different lengths, so a header is at most one of them.\<close>

lemma names_exclusive:
  assumes "eq_ignore_ascii_case name (s2b a)" "length a \<noteq> length b"
  shows "\<not> eq_ignore_ascii_case name (s2b b)"
  using assms by (metis eq_ignore_ascii_case_def length_map length_s2b)

lemma field_simps:
  "field n [] = []"
  "field n (h # hs) = (if eq_ignore_ascii_case (fst h) (s2b n) then snd h # field n hs else field n hs)"
  by (simp_all add: field_def)

lemma scan_101_loop_spec:
  "scan_101_loop accept hs st = Inr st' \<longleftrightarrow>
     once (text_is is_websocket) (upgraded st) (field ''upgrade'' hs) = Some (upgraded st')
     \<and> connection st' = (connection st \<or> (\<exists>v \<in> set (field ''connection'' hs). ws_has_token v (s2b ''upgrade'')))
     \<and> once (text_is (\<lambda>t. t = accept)) (accept_ok st) (field ''sec-websocket-accept'' hs) = Some (accept_ok st')
     \<and> blank_once (extensions_seen st) (field ''sec-websocket-extensions'' hs) = Some (extensions_seen st')
     \<and> blank_once (protocol_seen st) (field ''sec-websocket-protocol'' hs) = Some (protocol_seen st')"
proof (induction hs arbitrary: st)
  case Nil
  show ?case by (auto simp: field_simps intro!: Scan101.equality)
next
  case (Cons h hs)
  obtain name v where h: "h = (name, v)" by (cases h)
  consider "eq_ignore_ascii_case name (s2b ''upgrade'')"
    | "eq_ignore_ascii_case name (s2b ''connection'')"
    | "eq_ignore_ascii_case name (s2b ''sec-websocket-accept'')"
    | "eq_ignore_ascii_case name (s2b ''sec-websocket-extensions'')"
    | "eq_ignore_ascii_case name (s2b ''sec-websocket-protocol'')"
    | "\<not> eq_ignore_ascii_case name (s2b ''upgrade'')" "\<not> eq_ignore_ascii_case name (s2b ''connection'')"
      "\<not> eq_ignore_ascii_case name (s2b ''sec-websocket-accept'')"
      "\<not> eq_ignore_ascii_case name (s2b ''sec-websocket-extensions'')"
      "\<not> eq_ignore_ascii_case name (s2b ''sec-websocket-protocol'')" by blast
  then show ?case
  proof cases
    case 1
    note only = 1 names_exclusive [OF 1]
    show ?thesis
      by (cases "upgraded st") (simp_all add: h scan_101_def field_simps only Cons.IH del: s2b_Cons)
  next
    case 2
    note only = 2 names_exclusive [OF 2]
    show ?thesis
      by (simp add: h scan_101_def field_simps only Cons.IH disj_assoc del: s2b_Cons)
  next
    case 3
    note only = 3 names_exclusive [OF 3]
    show ?thesis
      by (cases "accept_ok st") (simp_all add: h scan_101_def field_simps only Cons.IH del: s2b_Cons)
  next
    case 4
    note only = 4 names_exclusive [OF 4]
    show ?thesis
      by (cases "extensions_seen st"; cases "blank v")
        (simp_all add: h scan_101_def unrequested_negotiation_def field_simps only Cons.IH blank_def Let_def del: s2b_Cons)
  next
    case 5
    note only = 5 names_exclusive [OF 5]
    show ?thesis
      by (cases "protocol_seen st"; cases "blank v")
        (simp_all add: h scan_101_def unrequested_negotiation_def field_simps only Cons.IH blank_def Let_def del: s2b_Cons)
  next
    case 6
    then show ?thesis
      by (simp add: h scan_101_def unrequested_negotiation_def field_simps Cons.IH del: s2b_Cons)
  qed
qed

lemma scan_upgrade_loop_spec:
  "scan_upgrade_loop hs st = Inr st' \<longleftrightarrow>
     once (text_is is_websocket) (su_upgraded st) (field ''upgrade'' hs) = Some (su_upgraded st')
     \<and> su_connection st' = (su_connection st \<or> (\<exists>v \<in> set (field ''connection'' hs). ws_has_token v (s2b ''upgrade'')))
     \<and> once (text_is (\<lambda>t. t = s2b ''13'')) (su_version st) (field ''sec-websocket-version'' hs) = Some (su_version st')
     \<and> once (\<lambda>v. case from_utf8 v of None \<Rightarrow> [] | Some v \<Rightarrow> str_trim v) (su_key st) (field ''sec-websocket-key'' hs)
         = Some (su_key st')"
proof (induction hs arbitrary: st)
  case Nil
  show ?case by (auto simp: field_simps intro!: ScanUpgrade.equality)
next
  case (Cons h hs)
  obtain name v where h: "h = (name, v)" by (cases h)
  consider "eq_ignore_ascii_case name (s2b ''upgrade'')"
    | "eq_ignore_ascii_case name (s2b ''connection'')"
    | "eq_ignore_ascii_case name (s2b ''sec-websocket-version'')"
    | "eq_ignore_ascii_case name (s2b ''sec-websocket-key'')"
    | "\<not> eq_ignore_ascii_case name (s2b ''upgrade'')" "\<not> eq_ignore_ascii_case name (s2b ''connection'')"
      "\<not> eq_ignore_ascii_case name (s2b ''sec-websocket-version'')"
      "\<not> eq_ignore_ascii_case name (s2b ''sec-websocket-key'')" by blast
  then show ?case
  proof cases
    case 1
    note only = 1 names_exclusive [OF 1]
    show ?thesis
      by (cases "su_upgraded st") (simp_all add: h scan_upgrade_def field_simps only Cons.IH del: s2b_Cons)
  next
    case 2
    note only = 2 names_exclusive [OF 2]
    show ?thesis
      by (simp add: h scan_upgrade_def field_simps only Cons.IH disj_assoc del: s2b_Cons)
  next
    case 3
    note only = 3 names_exclusive [OF 3]
    show ?thesis
      by (cases "su_version st") (simp_all add: h scan_upgrade_def field_simps only Cons.IH del: s2b_Cons)
  next
    case 4
    note only = 4 names_exclusive [OF 4]
    show ?thesis
      by (cases "su_key st") (simp_all add: h scan_upgrade_def field_simps only Cons.IH del: s2b_Cons)
  next
    case 5
    then show ?thesis
      by (simp add: h scan_upgrade_def field_simps Cons.IH del: s2b_Cons)
  qed
qed

lemma once_None: "once f None vs = Some (Some x) \<longleftrightarrow> (\<exists>v. vs = [v] \<and> f v = x)"
  by (cases vs rule: remdups_adj.cases) auto

lemma blank_once_Some: "(\<exists>b. blank_once False vs = Some b) \<longleftrightarrow> (vs = [] \<or> (\<exists>v. vs = [v] \<and> blank v))"
  by (cases vs rule: remdups_adj.cases) auto

section \<open>Cutting the head\<close>

definition crlf_lines :: "bytes list \<Rightarrow> bytes" where
  "crlf_lines ls = concat (map (\<lambda>l. l @ [CR, LF]) ls)"

definition graphic :: "bytes \<Rightarrow> bool" where
  "graphic v \<longleftrightarrow> list_all (\<lambda>b. 0x21 \<le> b \<and> b \<le> 0x7E) v"

definition no_eol :: "bytes \<Rightarrow> bool" where
  "no_eol v \<longleftrightarrow> list_all (\<lambda>b. b \<noteq> CR \<and> b \<noteq> LF) v"

lemma no_eol_append: "no_eol (xs @ ys) \<longleftrightarrow> no_eol xs \<and> no_eol ys"
  by (simp add: no_eol_def)

lemma no_eol_CR: "no_eol v \<Longrightarrow> CR \<notin> set v"
  by (auto simp: no_eol_def list_all_iff)

lemma no_eol_filter: "no_eol v \<Longrightarrow> filter (\<lambda>b. b = CR) v = [] \<and> filter (\<lambda>b. b = LF) v = []"
  by (auto simp: no_eol_def list_all_iff filter_empty_conv)

lemma graphic_no_eol: "graphic v \<Longrightarrow> no_eol v"
  by (auto simp: graphic_def no_eol_def list_all_iff)

definition line_ok :: "bytes \<Rightarrow> bool" where
  "line_ok l \<longleftrightarrow> l \<noteq> [] \<and> no_eol l"

lemma find_blank_skip:
  "CR \<notin> set l \<Longrightarrow> find_sub [CR, LF, CR, LF] (l @ xs) = map_option ((+) (length l)) (find_sub [CR, LF, CR, LF] xs)"
proof (induction l)
  case Nil
  then show ?case by (cases "find_sub [CR, LF, CR, LF] xs") auto
next
  case (Cons b l)
  then show ?case by (auto simp: starts_with_def option.map_comp comp_def)
qed

lemma find_blank_line:
  assumes "CR \<notin> set l"
  shows "find_sub [CR, LF, CR, LF] (l @ CR # LF # CR # LF # xs) = Some (length l)"
  using find_blank_skip [OF assms, of "CR # LF # CR # LF # xs"] by (simp add: starts_with_def)

lemma find_blank_next:
  assumes "CR \<notin> set l" "c \<noteq> CR"
  shows "find_sub [CR, LF, CR, LF] (l @ CR # LF # c # xs)
    = map_option ((+) (length l + 2)) (find_sub [CR, LF, CR, LF] (c # xs))"
proof -
  have "find_sub [CR, LF, CR, LF] (CR # LF # c # xs) = map_option (\<lambda>i. Suc (Suc i)) (find_sub [CR, LF, CR, LF] (c # xs))"
    using assms(2) by (simp add: starts_with_def option.map_comp comp_def)
  then show ?thesis
    by (simp add: find_blank_skip [OF assms(1)] option.map_comp comp_def)
qed

lemma find_blank_lines:
  assumes "list_all line_ok ls" "ls \<noteq> []"
  shows "find_sub [CR, LF, CR, LF] (crlf_lines ls @ CR # LF # rest) = Some (length (crlf_lines ls) - 2)"
  using assms
proof (induction ls)
  case (Cons l ls)
  then have l: "CR \<notin> set l" by (simp add: line_ok_def no_eol_CR)
  show ?case
  proof (cases ls)
    case Nil
    then show ?thesis using find_blank_line [OF l, of rest] by (simp add: crlf_lines_def)
  next
    case (Cons k ks)
    with Cons.prems obtain c k' where k: "k = c # k'" "c \<noteq> CR" by (cases k) (auto simp: line_ok_def no_eol_def)
    have "find_sub [CR, LF, CR, LF] (crlf_lines (l # ls) @ CR # LF # rest)
        = map_option ((+) (length l + 2)) (find_sub [CR, LF, CR, LF] (crlf_lines ls @ CR # LF # rest))"
      using find_blank_next [OF l k(2)] by (simp add: crlf_lines_def Cons k)
    with Cons.IH Cons.prems Cons show ?thesis by (simp add: crlf_lines_def)
  qed
qed simp

lemma ws_head_step_lines:
  assumes "list_all line_ok ls" "ls \<noteq> []" "head = crlf_lines ls @ [CR, LF]"
  shows "ws_head_step (head @ rest) st = (Complete (length head) 0, st\<lparr>ws_phase := Frames\<rparr>)"
proof -
  have "2 \<le> length (crlf_lines ls)" using assms(2) by (cases ls) (auto simp: crlf_lines_def)
  with find_blank_lines [OF assms(1,2), of rest] show ?thesis
    by (simp add: ws_head_step_def assms(3))
qed

lemma upgrade_request_lines:
  assumes "upgrade_request endpoint key = Inr req"
  shows "graphic endpoint"
    "req = crlf_lines [s2b ''GET '' @ endpoint @ s2b '' HTTP/1.1'', s2b ''Host: localhost'', s2b ''Upgrade: websocket'',
       s2b ''Connection: Upgrade'', s2b ''Sec-WebSocket-Key: '' @ key, s2b ''Sec-WebSocket-Version: 13''] @ [CR, LF]"
  using assms
  by (auto simp: upgrade_request_def validate_request_target_def graphic_def crlf_lines_def
      split: sum.splits if_splits simp del: s2b_Cons)

lemma literal_lines:
  "no_eol (s2b ''GET '')"
  "no_eol (s2b '' HTTP/1.1'')"
  "no_eol (s2b ''Host: localhost'')"
  "no_eol (s2b ''Upgrade: websocket'')"
  "no_eol (s2b ''Connection: Upgrade'')"
  "no_eol (s2b ''Sec-WebSocket-Key: '')"
  "no_eol (s2b ''Sec-WebSocket-Version: 13'')"
  "no_eol (s2b ''HTTP/1.1 101 Switching Protocols'')"
  "no_eol (s2b ''Sec-WebSocket-Accept: '')"
  by code_simp+

lemma upgrade_request_cut:
  assumes "upgrade_request endpoint key = Inr req" "no_eol key"
  shows "ws_head_step (req @ rest) st = (Complete (length req) 0, st\<lparr>ws_phase := Frames\<rparr>)"
  by (rule ws_head_step_lines [OF _ _ upgrade_request_lines(2) [OF assms(1)]])
    (use graphic_no_eol [OF upgrade_request_lines(1) [OF assms(1)]] assms(2) in
      \<open>simp_all add: line_ok_def literal_lines no_eol_append del: s2b_Cons, simp_all\<close>)

lemma upgrade_response_cut:
  assumes "no_eol (accept_for sha1 b64 key)"
  shows "ws_head_step (upgrade_response sha1 b64 key @ rest) st
    = (Complete (length (upgrade_response sha1 b64 key)) 0, st\<lparr>ws_phase := Frames\<rparr>)"
  by (rule ws_head_step_lines [of "[s2b ''HTTP/1.1 101 Switching Protocols'', s2b ''Upgrade: websocket'',
       s2b ''Connection: Upgrade'', s2b ''Sec-WebSocket-Accept: '' @ accept_for sha1 b64 key]"])
    (use assms in \<open>simp_all add: line_ok_def literal_lines no_eol_append upgrade_response_def crlf_lines_def del: s2b_Cons, simp_all\<close>)

section \<open>Acceptance\<close>

lemma blank_once_field: "blank_once False vs = Some b \<Longrightarrow> vs = [] \<or> (\<exists>v. vs = [v] \<and> blank v)"
  using blank_once_Some by blast

lemma validate_101_steps:
  "validate_101 parse sha1 b64 head key = Inr () \<longleftrightarrow>
     (\<exists>resp. parse head = Complete_head resp \<and> rs_code resp = Some 101
       \<and> (\<exists>st. scan_101_loop (accept_for sha1 b64 key) (rs_headers resp) Scan101_start = Inr st
            \<and> upgraded st = Some True \<and> connection st \<and> accept_ok st = Some True))"
  by (cases "parse head") (auto simp: validate_101_def split: option.splits sum.splits if_splits)

lemma scan_101_accepts:
  "(\<exists>st. scan_101_loop a hs Scan101_start = Inr st \<and> upgraded st = Some True \<and> connection st \<and> accept_ok st = Some True)
    \<longleftrightarrow> (\<exists>v. field ''upgrade'' hs = [v] \<and> text_is is_websocket v)
       \<and> (\<exists>v \<in> set (field ''connection'' hs). ws_has_token v (s2b ''upgrade''))
       \<and> (\<exists>v. field ''sec-websocket-accept'' hs = [v] \<and> text_is (\<lambda>t. t = a) v)
       \<and> (field ''sec-websocket-extensions'' hs = [] \<or> (\<exists>v. field ''sec-websocket-extensions'' hs = [v] \<and> blank v))
       \<and> (field ''sec-websocket-protocol'' hs = [] \<or> (\<exists>v. field ''sec-websocket-protocol'' hs = [v] \<and> blank v))"
  (is "?l \<longleftrightarrow> ?r")
proof
  assume ?l
  then obtain st where st: "scan_101_loop a hs Scan101_start = Inr st" "upgraded st = Some True" "connection st"
    "accept_ok st = Some True" by blast
  have f: "once (text_is is_websocket) None (field ''upgrade'' hs) = Some (Some True)"
    "\<exists>v \<in> set (field ''connection'' hs). ws_has_token v (s2b ''upgrade'')"
    "once (text_is (\<lambda>t. t = a)) None (field ''sec-websocket-accept'' hs) = Some (Some True)"
    "blank_once False (field ''sec-websocket-extensions'' hs) = Some (extensions_seen st)"
    "blank_once False (field ''sec-websocket-protocol'' hs) = Some (protocol_seen st)"
    using iffD1 [OF scan_101_loop_spec st(1)] st(2-4) by (simp_all add: Scan101_start_def del: s2b_Cons)
  have "\<exists>v. field ''upgrade'' hs = [v] \<and> text_is is_websocket v"
    "\<exists>v. field ''sec-websocket-accept'' hs = [v] \<and> text_is (\<lambda>t. t = a) v"
    using f(1,3) by (simp_all add: once_None)
  with f(2) blank_once_field [OF f(4)] blank_once_field [OF f(5)] show ?r
    by (intro conjI)
next
  assume r: ?r
  have "\<exists>e. blank_once False (field ''sec-websocket-extensions'' hs) = Some e"
    unfolding blank_once_Some using r by (elim conjE)
  moreover have "\<exists>p. blank_once False (field ''sec-websocket-protocol'' hs) = Some p"
    unfolding blank_once_Some using r by (elim conjE)
  ultimately obtain e p where "blank_once False (field ''sec-websocket-extensions'' hs) = Some e"
    "blank_once False (field ''sec-websocket-protocol'' hs) = Some p" by (elim exE)
  with r have "scan_101_loop a hs Scan101_start =
      Inr \<lparr>upgraded = Some True, connection = True, accept_ok = Some True, extensions_seen = e, protocol_seen = p\<rparr>"
    unfolding scan_101_loop_spec Scan101_start_def by (simp add: once_None del: s2b_Cons)
  then show ?l by simp
qed

lemma validate_upgrade_request_steps:
  "validate_upgrade_request parse head = Inr k \<longleftrightarrow>
     (\<exists>req. parse head = Complete_head req \<and> rq_method req = Some (s2b ''GET'')
       \<and> (\<exists>st. scan_upgrade_loop (rq_headers req) ScanUpgrade_start = Inr st
            \<and> su_upgraded st = Some True \<and> su_connection st \<and> su_version st = Some True
            \<and> su_key st = Some k \<and> k \<noteq> []))"
  by (cases "parse head")
    (auto simp: validate_upgrade_request_def simp del: s2b_Cons split: option.splits sum.splits if_splits)

lemma key_text:
  "(case from_utf8 v of None \<Rightarrow> [] | Some t \<Rightarrow> str_trim t) = k \<and> k \<noteq> [] \<longleftrightarrow> text_is (\<lambda>t. t = k) v \<and> k \<noteq> []"
  by (auto simp: text_is_def split: option.splits)

lemma scan_upgrade_accepts:
  "(\<exists>st. scan_upgrade_loop hs ScanUpgrade_start = Inr st \<and> su_upgraded st = Some True \<and> su_connection st
      \<and> su_version st = Some True \<and> su_key st = Some k \<and> k \<noteq> [])
    \<longleftrightarrow> (\<exists>v. field ''upgrade'' hs = [v] \<and> text_is is_websocket v)
       \<and> (\<exists>v \<in> set (field ''connection'' hs). ws_has_token v (s2b ''upgrade''))
       \<and> (\<exists>v. field ''sec-websocket-version'' hs = [v] \<and> text_is (\<lambda>t. t = s2b ''13'') v)
       \<and> (\<exists>v. field ''sec-websocket-key'' hs = [v] \<and> text_is (\<lambda>t. t = k) v \<and> k \<noteq> [])"
  (is "?l \<longleftrightarrow> ?r")
proof
  assume ?l
  then obtain st where st: "scan_upgrade_loop hs ScanUpgrade_start = Inr st" "su_upgraded st = Some True"
    "su_connection st" "su_version st = Some True" "su_key st = Some k" and k: "k \<noteq> []" by blast
  note spec = iffD1 [OF scan_upgrade_loop_spec st(1), unfolded st(2,4,5) ScanUpgrade_start_def ScanUpgrade.simps once_None]
  show ?r
    using spec st(3) k key_text by blast
next
  assume r: ?r
  then have "scan_upgrade_loop hs ScanUpgrade_start =
      Inr \<lparr>su_upgraded = Some True, su_connection = True, su_version = Some True, su_key = Some k\<rparr>"
    unfolding scan_upgrade_loop_spec ScanUpgrade_start_def ScanUpgrade.simps once_None using key_text by blast
  moreover have "k \<noteq> []" using r by (elim conjE exE)
  ultimately show ?l by simp
qed

text \<open>
  The documented behaviour of the head parser, \<^verbatim>\<open>httparse\<close>, on well-formed heads. A field is a name of
  letters, digits and hyphens with a value of graphic bytes; a request target is made of the characters
  of a URI. A head of a request or status line of HTTP/1.1 and the lines of such fields, at most as many
  as the caller has slots for, is read as the parts of its first line and those fields in their order.
\<close>

definition name_byte :: "byte \<Rightarrow> bool" where
  "name_byte b \<longleftrightarrow> is_ascii_alphanumeric b \<or> b = 0x2D"

definition uri_byte :: "byte \<Rightarrow> bool" where
  "uri_byte b \<longleftrightarrow> is_ascii_alphanumeric b \<or> b \<in> set (s2b ''-._~:/?#[]@!$&()*+,;=%'')"

fun field_ok :: "header \<Rightarrow> bool" where
  "field_ok (n, v) \<longleftrightarrow> n \<noteq> [] \<and> list_all name_byte n \<and> v \<noteq> [] \<and> graphic v"

fun field_line :: "header \<Rightarrow> bytes" where
  "field_line (n, v) = n @ s2b '': '' @ v"

definition head_of :: "bytes \<Rightarrow> header list \<Rightarrow> bytes" where
  "head_of first fs = crlf_lines (first # map field_line fs) @ [CR, LF]"

definition digit_byte :: "nat \<Rightarrow> byte" where
  "digit_byte d = of_nat (48 + d)"

definition status_line :: "nat \<Rightarrow> bytes \<Rightarrow> bytes" where
  "status_line code reason = s2b ''HTTP/1.1 '' @
     [digit_byte (code div 100), digit_byte (code div 10 mod 10), digit_byte (code mod 10)] @ s2b '' '' @ reason"

definition reads_requests :: "(bytes \<Rightarrow> ParsedRequest HeadParse) \<Rightarrow> bool" where
  "reads_requests parse \<longleftrightarrow> (\<forall>meth target fs.
     meth \<noteq> [] \<and> list_all is_ascii_alphanumeric meth \<and> target \<noteq> [] \<and> list_all uri_byte target
       \<and> list_all field_ok fs \<and> length fs \<le> 32 \<longrightarrow>
     parse (head_of (meth @ s2b '' '' @ target @ s2b '' HTTP/1.1'') fs)
       = Complete_head \<lparr>rq_method = Some meth, rq_headers = fs\<rparr>)"

definition reads_responses :: "(bytes \<Rightarrow> ParsedResponse HeadParse) \<Rightarrow> bool" where
  "reads_responses parse \<longleftrightarrow> (\<forall>code reason fs.
     100 \<le> code \<and> code \<le> 999 \<and> list_all (\<lambda>b. 0x20 \<le> b \<and> b \<le> 0x7E) reason
       \<and> list_all field_ok fs \<and> length fs \<le> 32 \<longrightarrow>
     parse (head_of (status_line code reason) fs)
       = Complete_head \<lparr>rs_code = Some code, rs_reason = Some reason, rs_headers = fs\<rparr>)"

text \<open>The two heads this module writes are such heads.\<close>

lemma upgrade_request_head:
  assumes "upgrade_request endpoint key = Inr req"
  shows "endpoint \<noteq> []"
    "req = head_of (s2b ''GET'' @ s2b '' '' @ endpoint @ s2b '' HTTP/1.1'')
       [(s2b ''Host'', s2b ''localhost''), (s2b ''Upgrade'', s2b ''websocket''), (s2b ''Connection'', s2b ''Upgrade''),
        (s2b ''Sec-WebSocket-Key'', key), (s2b ''Sec-WebSocket-Version'', s2b ''13'')]"
  using assms unfolding upgrade_request_lines(2) [OF assms]
  by (auto simp: upgrade_request_def validate_request_target_def head_of_def split: if_splits sum.splits)

lemma upgrade_response_head:
  "upgrade_response sha1 b64 key = head_of (status_line 101 (s2b ''Switching Protocols''))
     [(s2b ''Upgrade'', s2b ''websocket''), (s2b ''Connection'', s2b ''Upgrade''),
      (s2b ''Sec-WebSocket-Accept'', accept_for sha1 b64 key)]"
  by (simp add: upgrade_response_def head_of_def status_line_def digit_byte_def crlf_lines_def)

lemma written_fields:
  "field_ok (s2b ''Host'', s2b ''localhost'')" "field_ok (s2b ''Upgrade'', s2b ''websocket'')"
  "field_ok (s2b ''Connection'', s2b ''Upgrade'')" "field_ok (s2b ''Sec-WebSocket-Version'', s2b ''13'')"
  "list_all name_byte (s2b ''Sec-WebSocket-Key'')" "list_all name_byte (s2b ''Sec-WebSocket-Accept'')"
  "list_all is_ascii_alphanumeric (s2b ''GET'')"
  "list_all (\<lambda>b. 0x20 \<le> b \<and> b \<le> 0x7E) (s2b ''Switching Protocols'')"
  by code_simp+

lemma reads_upgrade_request:
  assumes "reads_requests parse" "upgrade_request endpoint key = Inr req" "list_all uri_byte endpoint" "graphic key" "key \<noteq> []"
  shows "parse req = Complete_head \<lparr>rq_method = Some (s2b ''GET''),
     rq_headers = [(s2b ''Host'', s2b ''localhost''), (s2b ''Upgrade'', s2b ''websocket''), (s2b ''Connection'', s2b ''Upgrade''),
       (s2b ''Sec-WebSocket-Key'', key), (s2b ''Sec-WebSocket-Version'', s2b ''13'')]\<rparr>"
proof -
  have "field_ok (s2b ''Sec-WebSocket-Key'', key)"
    unfolding field_ok.simps using written_fields(5) assms(4,5) by simp
  then show ?thesis
    unfolding upgrade_request_head(2) [OF assms(2)]
    by (intro assms(1) [unfolded reads_requests_def, rule_format] conjI)
      (use upgrade_request_head(1) [OF assms(2)] assms(3) written_fields in \<open>simp_all del: field_ok.simps s2b_Cons add: s2b_def [of "[]"], simp_all add: s2b_def\<close>)
qed

lemma reads_upgrade_response:
  assumes "reads_responses parse" "graphic (accept_for sha1 b64 key)" "accept_for sha1 b64 key \<noteq> []"
  shows "parse (upgrade_response sha1 b64 key) = Complete_head \<lparr>rs_code = Some 101, rs_reason = Some (s2b ''Switching Protocols''),
     rs_headers = [(s2b ''Upgrade'', s2b ''websocket''), (s2b ''Connection'', s2b ''Upgrade''),
       (s2b ''Sec-WebSocket-Accept'', accept_for sha1 b64 key)]\<rparr>"
proof -
  have "field_ok (s2b ''Sec-WebSocket-Accept'', accept_for sha1 b64 key)"
    unfolding field_ok.simps using written_fields(6) assms(2,3) by simp
  then show ?thesis
    unfolding upgrade_response_head
    by (intro assms(1) [unfolded reads_responses_def, rule_format] conjI)
      (use written_fields in \<open>simp_all del: field_ok.simps s2b_Cons\<close>)
qed

lemma eq_ignore_length: "length xs \<noteq> length ys \<Longrightarrow> \<not> eq_ignore_ascii_case xs ys"
  by (metis eq_ignore_ascii_case_def length_map)

lemma written_names:
  "eq_ignore_ascii_case (s2b ''Upgrade'') (s2b ''upgrade'')" "eq_ignore_ascii_case (s2b ''Connection'') (s2b ''connection'')"
  "eq_ignore_ascii_case (s2b ''Sec-WebSocket-Key'') (s2b ''sec-websocket-key'')"
  "eq_ignore_ascii_case (s2b ''Sec-WebSocket-Version'') (s2b ''sec-websocket-version'')"
  "eq_ignore_ascii_case (s2b ''Sec-WebSocket-Accept'') (s2b ''sec-websocket-accept'')"
  "ws_has_token (s2b ''Upgrade'') (s2b ''upgrade'')" "text_is is_websocket (s2b ''websocket'')"
  "text_is (\<lambda>t. t = s2b ''13'') (s2b ''13'')"
  by code_simp+

lemma text_is_graphic:
  assumes "graphic v"
  shows "text_is (\<lambda>t. t = v) v"
proof -
  have "\<forall>b \<in> set v. 0x21 \<le> b \<and> b \<le> 0x7E" using assms by (simp add: graphic_def list_all_iff)
  moreover from this have "\<forall>b \<in> set v. b < 0x80" by (auto simp: word_le_nat_alt word_less_nat_alt)
  ultimately show ?thesis by (simp add: text_is_def from_utf8_def utf8_valid_ascii str_trim_graphic)
qed

lemma server_accepts_request:
  assumes "reads_requests parse" "upgrade_request endpoint key = Inr req" "list_all uri_byte endpoint" "graphic key" "key \<noteq> []"
  shows "validate_upgrade_request parse req = Inr key"
  unfolding validate_upgrade_request_steps scan_upgrade_accepts
  using reads_upgrade_request [OF assms] text_is_graphic [OF assms(4)] assms(5)
  by (simp add: field_simps written_names eq_ignore_length del: s2b_Cons)

lemma client_accepts_response:
  assumes "reads_responses parse" "graphic (accept_for sha1 b64 key)" "accept_for sha1 b64 key \<noteq> []"
  shows "validate_101 parse sha1 b64 (upgrade_response sha1 b64 key) key = Inr ()"
  unfolding validate_101_steps scan_101_accepts
  using reads_upgrade_response [OF assms] text_is_graphic [OF assms(2)]
  by (simp add: field_simps written_names eq_ignore_length del: s2b_Cons)

section \<open>Properties\<close>

text \<open>
  C26. A client accepts a response as the upgrade iff it is a complete head of status 101 with exactly one
  \<^verbatim>\<open>Upgrade\<close> field equal to \<^verbatim>\<open>websocket\<close>, some \<^verbatim>\<open>Connection\<close> field with the token \<^verbatim>\<open>upgrade\<close>, exactly one
  \<^verbatim>\<open>Sec-WebSocket-Accept\<close> field equal to the digest of the key it sent, and at most one, blank, field
  each of extensions and subprotocol.
\<close>

theorem validate_101_accepts_iff:
  "validate_101 parse sha1 b64 head key = Inr () \<longleftrightarrow>
     (\<exists>resp hs. parse head = Complete_head resp \<and> rs_code resp = Some 101 \<and> hs = rs_headers resp
       \<and> (\<exists>v. field ''upgrade'' hs = [v] \<and> text_is is_websocket v)
       \<and> (\<exists>v \<in> set (field ''connection'' hs). ws_has_token v (s2b ''upgrade''))
       \<and> (\<exists>v. field ''sec-websocket-accept'' hs = [v] \<and> text_is (\<lambda>t. t = accept_for sha1 b64 key) v)
       \<and> (field ''sec-websocket-extensions'' hs = [] \<or> (\<exists>v. field ''sec-websocket-extensions'' hs = [v] \<and> blank v))
       \<and> (field ''sec-websocket-protocol'' hs = [] \<or> (\<exists>v. field ''sec-websocket-protocol'' hs = [v] \<and> blank v)))"
  unfolding validate_101_steps scan_101_accepts by blast

text \<open>
  A server accepts a request as an upgrade, and takes \<open>k\<close> from it as the key, iff it is a complete
  \<^verbatim>\<open>GET\<close> with exactly one \<^verbatim>\<open>Upgrade\<close> field equal to \<^verbatim>\<open>websocket\<close>, some \<^verbatim>\<open>Connection\<close> field with the token
  \<^verbatim>\<open>upgrade\<close>, exactly one version field equal to 13 and exactly one key field, whose trimmed text is the
  non-empty \<open>k\<close>.
\<close>

theorem validate_upgrade_request_iff:
  "validate_upgrade_request parse head = Inr k \<longleftrightarrow>
     (\<exists>req hs. parse head = Complete_head req \<and> rq_method req = Some (s2b ''GET'') \<and> hs = rq_headers req
       \<and> (\<exists>v. field ''upgrade'' hs = [v] \<and> text_is is_websocket v)
       \<and> (\<exists>v \<in> set (field ''connection'' hs). ws_has_token v (s2b ''upgrade''))
       \<and> (\<exists>v. field ''sec-websocket-version'' hs = [v] \<and> text_is (\<lambda>t. t = s2b ''13'') v)
       \<and> (\<exists>v. field ''sec-websocket-key'' hs = [v] \<and> text_is (\<lambda>t. t = k) v \<and> k \<noteq> []))"
  unfolding validate_upgrade_request_steps scan_upgrade_accepts by blast

text \<open>
  C22. The two ends agree on the handshake. For an endpoint of URI characters and a key and digest of
  graphic bytes, with head parsers that read well-formed heads as documented: the request a client
  writes is cut by the server's framer as one head, whatever bytes follow it, and the server takes from
  it the key the client chose; the response the server writes for that key is cut by the client's framer
  as one head, whatever bytes follow it, and accepted by the client. Both framers are then in the frame
  phase with what followed still unread.
\<close>

theorem handshake_agrees:
  assumes "reads_requests parse_req" and "reads_responses parse_resp"
    and "upgrade_request endpoint key = Inr req" and "list_all uri_byte endpoint"
    and "graphic key" and "key \<noteq> []"
    and "graphic (accept_for sha1 b64 key)" and "accept_for sha1 b64 key \<noteq> []"
  shows "ws_server_frame (req @ rest) WsState_default = (Complete (length req) 0, \<lparr>ws_phase = Frames\<rparr>)
    \<and> validate_upgrade_request parse_req req = Inr key
    \<and> ws_frame (upgrade_response sha1 b64 key @ rest') WsState_default
       = (Complete (length (upgrade_response sha1 b64 key)) 0, \<lparr>ws_phase = Frames\<rparr>)
    \<and> validate_101 parse_resp sha1 b64 (upgrade_response sha1 b64 key) key = Inr ()"
proof (intro conjI)
  show "ws_server_frame (req @ rest) WsState_default = (Complete (length req) 0, \<lparr>ws_phase = Frames\<rparr>)"
    by (simp add: ws_server_frame_def WsState_default_def upgrade_request_cut [OF assms(3) graphic_no_eol [OF assms(5)]])
  show "ws_frame (upgrade_response sha1 b64 key @ rest') WsState_default
      = (Complete (length (upgrade_response sha1 b64 key)) 0, \<lparr>ws_phase = Frames\<rparr>)"
    by (simp add: ws_frame_def WsState_default_def upgrade_response_cut [OF graphic_no_eol [OF assms(7)]])
  show "validate_upgrade_request parse_req req = Inr key"
    by (rule server_accepts_request [OF assms(1,3-6)])
  show "validate_101 parse_resp sha1 b64 (upgrade_response sha1 b64 key) key = Inr ()"
    by (rule client_accepts_response [OF assms(2,7,8)])
qed

text \<open>
  C23. A configured endpoint cannot split the upgrade request: whatever endpoint is accepted, the request
  has exactly the seven line ends the code writes, its first line is the request line with the endpoint as
  its target, and a server's framer cuts the whole of it as one head, whatever bytes follow.
\<close>

theorem upgrade_request_unsplittable:
  assumes "upgrade_request endpoint key = Inr req" and "graphic key"
  shows "length (filter (\<lambda>b. b = CR) req) = 7 \<and> length (filter (\<lambda>b. b = LF) req) = 7
    \<and> take (length endpoint + 15) req = s2b ''GET '' @ endpoint @ s2b '' HTTP/1.1'' @ [CR, LF]
    \<and> ws_server_frame (req @ rest) WsState_default = (Complete (length req) 0, \<lparr>ws_phase = Frames\<rparr>)"
proof -
  note lines = upgrade_request_lines [OF assms(1)]
  note clean = graphic_no_eol [OF lines(1), THEN no_eol_filter] graphic_no_eol [OF assms(2), THEN no_eol_filter]
    literal_lines [THEN no_eol_filter]
  have "length (filter (\<lambda>b. b = CR) req) = 7" "length (filter (\<lambda>b. b = LF) req) = 7"
    unfolding lines(2) crlf_lines_def by (simp_all add: clean del: s2b_Cons)
  moreover have "take (length endpoint + 15) req = s2b ''GET '' @ endpoint @ s2b '' HTTP/1.1'' @ [CR, LF]"
    unfolding lines(2) crlf_lines_def by (simp del: s2b_Cons)
  moreover have "ws_server_frame (req @ rest) WsState_default = (Complete (length req) 0, \<lparr>ws_phase = Frames\<rparr>)"
    by (simp add: ws_server_frame_def WsState_default_def upgrade_request_cut [OF assms(1) graphic_no_eol [OF assms(2)]])
  ultimately show ?thesis by blast
qed

section \<open>Witnesses\<close>

definition sample_key :: bytes where "sample_key = s2b ''dGhlIHNhbXBsZSBub25jZQ==''"
definition sample_digest :: "bytes \<Rightarrow> bytes" where "sample_digest = take 4"

text \<open>
  Parsers that read heads as documented: the lines up to the blank one, the first cut at its spaces, each
  other at its colon.
\<close>

definition head_lines :: "bytes \<Rightarrow> bytes list" where
  "head_lines buf = takeWhile (\<lambda>l. l \<noteq> []) (map (takeWhile (\<lambda>b. b \<noteq> CR)) (split_on (\<lambda>b. b = LF) buf))"

definition sample_field :: "bytes \<Rightarrow> header" where
  "sample_field l = (takeWhile (\<lambda>b. b \<noteq> 0x3A) l, drop 2 (dropWhile (\<lambda>b. b \<noteq> 0x3A) l))"

definition sample_request :: "bytes \<Rightarrow> ParsedRequest HeadParse" where
  "sample_request buf =
     (case head_lines buf of
        [] \<Rightarrow> Partial_head
      | first # ls \<Rightarrow> Complete_head \<lparr>rq_method = Some (takeWhile (\<lambda>b. b \<noteq> 0x20) first), rq_headers = map sample_field ls\<rparr>)"

definition sample_response :: "bytes \<Rightarrow> ParsedResponse HeadParse" where
  "sample_response buf =
     (case head_lines buf of
        [] \<Rightarrow> Partial_head
      | first # ls \<Rightarrow> Complete_head
          \<lparr>rs_code = Some (100 * (unat (first ! 9) - 48) + 10 * (unat (first ! 10) - 48) + (unat (first ! 11) - 48)),
           rs_reason = Some (drop 13 first), rs_headers = map sample_field ls\<rparr>)"

lemma head_lines_crlf:
  "list_all line_ok ls \<Longrightarrow> head_lines (crlf_lines ls @ [CR, LF]) = ls"
proof (induction ls)
  case Nil
  then show ?case by (simp add: head_lines_def crlf_lines_def)
next
  case (Cons l ls)
  then have l: "\<forall>b \<in> set l. b \<noteq> CR \<and> b \<noteq> LF" "l \<noteq> []"
    by (auto simp: line_ok_def no_eol_def list_all_iff)
  then have "split_on (\<lambda>b. b = LF) ((l @ [CR]) @ LF # crlf_lines ls @ [CR, LF])
      = (l @ [CR]) # split_on (\<lambda>b. b = LF) (crlf_lines ls @ [CR, LF])"
    by (intro split_on_append) auto
  moreover have "takeWhile (\<lambda>b. b \<noteq> CR) (l @ [CR]) = l" using l by (simp add: takeWhile_append2)
  ultimately show ?case using Cons l by (simp add: head_lines_def crlf_lines_def)
qed

lemma name_byte_clean: "name_byte b \<Longrightarrow> 0x21 \<le> b \<and> b \<le> 0x7E \<and> b \<noteq> 0x3A"
  unfolding name_byte_def ascii_defs by (auto simp: word_le_nat_alt)

lemma alnum_clean: "is_ascii_alphanumeric b \<Longrightarrow> 0x21 \<le> b \<and> b \<le> 0x7E"
  unfolding ascii_defs by (auto simp: word_le_nat_alt)

lemma uri_byte_clean: "uri_byte b \<Longrightarrow> 0x21 \<le> b \<and> b \<le> 0x7E"
  using alnum_clean by (auto simp: uri_byte_def word_le_nat_alt)

lemma sample_field_line: "field_ok f \<Longrightarrow> sample_field (field_line f) = f"
  using name_byte_clean
  by (cases f) (auto simp: sample_field_def list_all_iff takeWhile_append2 dropWhile_append2)

lemma printable_no_eol: "list_all (\<lambda>b. 0x20 \<le> b \<and> b \<le> 0x7E) v \<Longrightarrow> no_eol v"
  by (auto simp: no_eol_def list_all_iff word_le_nat_alt)

lemma printable_sub: "\<forall>b \<in> set v. 0x21 \<le> b \<and> b \<le> 0x7E \<Longrightarrow> list_all (\<lambda>b. 0x20 \<le> b \<and> b \<le> (0x7E :: byte)) v"
  by (auto simp: list_all_iff word_le_nat_alt)

lemma field_line_ok:
  assumes "field_ok f"
  shows "line_ok (field_line f)"
proof -
  obtain n v where f: "f = (n, v)" by fastforce
  with assms name_byte_clean have "no_eol n" "no_eol v" "n \<noteq> []"
    by (auto simp: list_all_iff graphic_def intro!: printable_no_eol printable_sub)
  with f show ?thesis by (simp add: line_ok_def no_eol_append) (simp add: no_eol_def)
qed

lemma head_lines_head_of:
  "line_ok first \<Longrightarrow> list_all field_ok fs \<Longrightarrow> head_lines (head_of first fs) = first # map field_line fs"
  unfolding head_of_def by (rule head_lines_crlf) (auto simp: list_all_iff field_line_ok)

lemma sample_fields: "list_all field_ok fs \<Longrightarrow> map (sample_field \<circ> field_line) fs = fs"
  by (induction fs) (auto simp: sample_field_line)

lemma sample_request_reads: "reads_requests sample_request"
  unfolding reads_requests_def
proof (intro allI impI, elim conjE)
  fix meth target :: bytes and fs
  assume m: "meth \<noteq> []" "list_all is_ascii_alphanumeric meth" and t: "list_all uri_byte target"
    and fs: "list_all field_ok fs"
  let ?first = "meth @ s2b '' '' @ target @ s2b '' HTTP/1.1''"
  have clean: "\<forall>b \<in> set meth. 0x21 \<le> b \<and> b \<le> 0x7E" "\<forall>b \<in> set target. 0x21 \<le> b \<and> b \<le> 0x7E"
    using m(2) t alnum_clean uri_byte_clean by (auto simp: list_all_iff)
  then have "list_all (\<lambda>b. 0x20 \<le> b \<and> b \<le> 0x7E) ?first" by (auto dest!: printable_sub)
  then have "line_ok ?first" using m(1) printable_no_eol by (auto simp: line_ok_def)
  moreover have "\<forall>b \<in> set meth. b \<noteq> 0x20" using clean(1) by (auto simp: word_le_nat_alt)
  then have "takeWhile (\<lambda>b. b \<noteq> 0x20) ?first = meth" by (simp add: takeWhile_append2)
  ultimately show "sample_request (head_of ?first fs) = Complete_head \<lparr>rq_method = Some meth, rq_headers = fs\<rparr>"
    using fs by (simp add: sample_request_def head_lines_head_of sample_fields del: s2b_Cons)
qed

lemma unat_digit_byte: "d < 10 \<Longrightarrow> unat (digit_byte d) = 48 + d"
  unfolding digit_byte_def by (rule unat_word_of_nat_eq) simp

lemma digit_byte_val: "d < 10 \<Longrightarrow> unat (digit_byte d) - 48 = d"
  by (simp add: unat_digit_byte)

lemma digit_byte_printable: "d < 10 \<Longrightarrow> 0x20 \<le> digit_byte d \<and> digit_byte d \<le> 0x7E"
  by (simp add: word_le_nat_alt unat_digit_byte)

lemma three_digits: "100 * (n div 100) + 10 * (n div 10 mod 10) + n mod 10 = n" for n :: nat
proof -
  have "n div 100 = n div 10 div 10" by (simp add: div_mult2_eq [symmetric])
  then show ?thesis using div_mult_mod_eq [of n 10] div_mult_mod_eq [of "n div 10" 10] by linarith
qed

lemma sample_response_reads: "reads_responses sample_response"
  unfolding reads_responses_def
proof (intro allI impI, elim conjE)
  fix code :: nat and reason :: bytes and fs
  assume c: "code \<le> 999" and r: "list_all (\<lambda>b. 0x20 \<le> b \<and> b \<le> 0x7E) reason" and fs: "list_all field_ok fs"
  have d: "code div 100 < 10" "code div 10 mod 10 < 10" "code mod 10 < 10" using c by auto
  have "list_all (\<lambda>b. 0x20 \<le> b \<and> b \<le> 0x7E) (status_line code reason)"
    using r d [THEN digit_byte_printable] by (simp add: status_line_def)
  then have "line_ok (status_line code reason)"
    using printable_no_eol by (auto simp: line_ok_def status_line_def)
  moreover have at: "status_line code reason ! 9 = digit_byte (code div 100)"
    "status_line code reason ! 10 = digit_byte (code div 10 mod 10)" "status_line code reason ! 11 = digit_byte (code mod 10)"
    by (simp_all add: status_line_def)
  have "100 * (unat (status_line code reason ! 9) - 48) + 10 * (unat (status_line code reason ! 10) - 48)
      + (unat (status_line code reason ! 11) - 48) = code"
    unfolding at d [THEN digit_byte_val] by (rule three_digits)
  moreover have "drop 13 (status_line code reason) = reason" by (simp add: status_line_def)
  ultimately show "sample_response (head_of (status_line code reason) fs)
      = Complete_head \<lparr>rs_code = Some code, rs_reason = Some reason, rs_headers = fs\<rparr>"
    using fs by (simp add: sample_response_def head_lines_head_of sample_fields)
qed

lemma sample_handshake:
  "upgrade_request (s2b ''/api/current'') sample_key = Inr (projr (upgrade_request (s2b ''/api/current'') sample_key))"
  "list_all uri_byte (s2b ''/api/current'')"
  "graphic sample_key" "sample_key \<noteq> []" "graphic (accept_for sample_digest (\<lambda>x. x) sample_key)"
  "accept_for sample_digest (\<lambda>x. x) sample_key \<noteq> []"
  by code_simp+

theorem handshake_agrees_witness:
  "validate_upgrade_request sample_request (projr (upgrade_request (s2b ''/api/current'') sample_key)) = Inr sample_key
   \<and> validate_101 sample_response sample_digest (\<lambda>x. x) (upgrade_response sample_digest (\<lambda>x. x) sample_key) sample_key = Inr ()"
  using handshake_agrees [OF sample_request_reads sample_response_reads sample_handshake] by blast

theorem upgrade_request_unsplittable_witness:
  "length (filter (\<lambda>b. b = CR) (projr (upgrade_request (s2b ''/api/current'') sample_key))) = 7"
  using upgrade_request_unsplittable [OF sample_handshake(1,3)] by blast

end
