(* ===== verification/Ustr.thy ===== *)
theory Ustr
  imports Rust_Utf8
begin

text \<open>
  Rust's \<^verbatim>\<open>str\<close> seen as its characters: a list of Unicode scalar values. The configuration file parser
  works on characters only, so this is the view its model uses; the byte length of a text is \<open>ulen\<close> and
  \<open>decode_utf8\<close> is the view of a valid UTF-8 buffer.
\<close>

section \<open>Characters\<close>

type_synonym ustr = "nat list"

definition lit :: "string \<Rightarrow> ustr" where
  "lit s = map of_char s"

definition is_whitespace :: "nat \<Rightarrow> bool" where
  "is_whitespace c \<longleftrightarrow>
     9 \<le> c \<and> c \<le> 13 \<or> c = 0x20 \<or> c = 0x85 \<or> c = 0xA0 \<or> c = 0x1680 \<or> 0x2000 \<le> c \<and> c \<le> 0x200A
     \<or> c = 0x2028 \<or> c = 0x2029 \<or> c = 0x202F \<or> c = 0x205F \<or> c = 0x3000"

definition utf8_len :: "nat \<Rightarrow> nat" where
  "utf8_len c = (if c < 0x80 then 1 else if c < 0x800 then 2 else if c < 0x10000 then 3 else 4)"

definition ulen :: "ustr \<Rightarrow> nat" where
  "ulen s = sum_list (map utf8_len s)"

definition decode_utf8 :: "bytes \<Rightarrow> ustr" where
  "decode_utf8 bs = map (\<lambda>(ok, c). code_point c) (utf8_chars bs)"

section \<open>Operations\<close>

definition trim_start_matches :: "(nat \<Rightarrow> bool) \<Rightarrow> ustr \<Rightarrow> ustr" where
  "trim_start_matches p s = dropWhile p s"

definition trim_end_matches :: "(nat \<Rightarrow> bool) \<Rightarrow> ustr \<Rightarrow> ustr" where
  "trim_end_matches p s = rev (dropWhile p (rev s))"

definition trim_matches :: "(nat \<Rightarrow> bool) \<Rightarrow> ustr \<Rightarrow> ustr" where
  "trim_matches p s = trim_end_matches p (trim_start_matches p s)"

definition utrim :: "ustr \<Rightarrow> ustr" where
  "utrim s = trim_matches is_whitespace s"

fun split_inclusive :: "nat \<Rightarrow> ustr \<Rightarrow> ustr list" where
  "split_inclusive n [] = []"
| "split_inclusive n (c # cs) =
     (if c = n then [c] # split_inclusive n cs
      else case split_inclusive n cs of [] \<Rightarrow> [[c]] | l # ls \<Rightarrow> (c # l) # ls)"

fun join_lines :: "ustr \<Rightarrow> ustr list \<Rightarrow> ustr" where
  "join_lines sep [] = []"
| "join_lines sep [l] = l"
| "join_lines sep (l # ls) = l @ sep @ join_lines sep ls"

definition replace_char :: "nat \<Rightarrow> ustr \<Rightarrow> ustr \<Rightarrow> ustr" where
  "replace_char c by s = concat (map (\<lambda>x. if x = c then by else [x]) s)"

section \<open>Lemmas\<close>

lemma lit_Nil [simp]: "lit [] = []"
  by (simp add: lit_def)

lemma lit_Cons [simp]: "lit (c # cs) = of_char c # lit cs"
  by (simp add: lit_def)

lemma ulen_simps [simp]: "ulen [] = 0" "ulen (c # s) = utf8_len c + ulen s" "ulen (s @ t) = ulen s + ulen t"
  by (simp_all add: ulen_def)

lemma ulen_drop: "ulen (drop n s) \<le> ulen s"
  by (metis append_take_drop_id le_add2 ulen_simps(3))

lemma utf8_len_pos: "0 < utf8_len c"
  by (simp add: utf8_len_def)

subsection \<open>Trimming\<close>

lemma trim_end_snoc: "trim_end_matches p (s @ [c]) = (if p c then trim_end_matches p s else s @ [c])"
  by (simp add: trim_end_matches_def)

lemma trim_end_Nil [simp]: "trim_end_matches p [] = []"
  by (simp add: trim_end_matches_def)

lemma trim_end_id: "s = [] \<or> \<not> p (last s) \<Longrightarrow> trim_end_matches p s = s"
  by (cases s rule: rev_cases) (auto simp: trim_end_snoc)

lemma trim_end_append_all: "\<forall>c \<in> set t. p c \<Longrightarrow> trim_end_matches p (s @ t) = trim_end_matches p s"
  by (induction t rule: rev_induct) (auto simp: trim_end_snoc simp flip: append_assoc)

lemma trim_end_idem [simp]: "trim_end_matches p (trim_end_matches p s) = trim_end_matches p s"
  by (rule trim_end_id) (induction s rule: rev_induct, auto simp: trim_end_snoc)

lemma trim_matches_id:
  assumes "s = [] \<or> \<not> p (hd s) \<and> \<not> p (last s)"
  shows "trim_matches p s = s"
proof -
  have "dropWhile p s = s" using assms by (cases s) auto
  with assms show ?thesis by (auto simp: trim_matches_def trim_start_matches_def trim_end_id)
qed

lemma trim_matches_append_all:
  assumes "\<forall>c \<in> set t. p c"
  shows "trim_matches p (s @ t) = trim_matches p s"
proof (cases "\<forall>c \<in> set s. p c")
  case True
  with assms have "dropWhile p (s @ t) = []" "dropWhile p s = []" by auto
  then show ?thesis by (simp only: trim_matches_def trim_start_matches_def)
next
  case False
  with assms show ?thesis
    by (auto simp: trim_matches_def trim_start_matches_def trim_end_append_all dropWhile_append)
qed

lemma trim_matches_prepend_all:
  "\<forall>c \<in> set t. p c \<Longrightarrow> trim_matches p (t @ s) = trim_matches p s"
  by (simp add: trim_matches_def trim_start_matches_def dropWhile_append)

lemma trim_matches_ends:
  "trim_matches p s = [] \<or> \<not> p (hd (trim_matches p s)) \<and> \<not> p (last (trim_matches p s))"
proof -
  have hd: "trim_end_matches p t = [] \<or> hd (trim_end_matches p t) = hd t" for t
    by (induction t rule: rev_induct) (auto simp: trim_end_snoc hd_append)
  have last: "trim_end_matches p t = [] \<or> \<not> p (last (trim_end_matches p t))" for t
    by (induction t rule: rev_induct) (auto simp: trim_end_snoc)
  have "dropWhile p s = [] \<or> \<not> p (hd (dropWhile p s))" by (induction s) auto
  with hd [of "dropWhile p s"] last [of "dropWhile p s"] show ?thesis
    unfolding trim_matches_def trim_start_matches_def by (metis trim_end_Nil)
qed

subsection \<open>Lines\<close>

lemma split_inclusive_line:
  assumes "n \<notin> set l"
  shows "split_inclusive n (l @ n # rest) = (l @ [n]) # split_inclusive n rest"
  using assms by (induction l) auto

lemma split_inclusive_lines:
  "\<forall>l \<in> set ls. n \<notin> set l \<Longrightarrow> split_inclusive n (concat (map (\<lambda>l. l @ [n]) ls)) = map (\<lambda>l. l @ [n]) ls"
  by (induction ls) (simp_all add: split_inclusive_line)

lemma concat_map_concat: "concat (map f (concat xss)) = concat (map (\<lambda>xs. concat (map f xs)) xss)"
  by (induction xss) simp_all

lemma concat_split_inclusive: "concat (split_inclusive n s) = s"
  by (induction s) (auto split: list.splits)

lemma split_on_join: "join_lines [n] (split_on (\<lambda>c. c = n) s) = s"
proof (induction s)
  case (Cons c s)
  obtain l ls where l: "split_on (\<lambda>c. c = n) s = l # ls"
    by (cases "split_on (\<lambda>c. c = n) s") auto
  with Cons show ?case by (cases ls) auto
qed simp

lemma split_on_lines:
  "l \<in> set (split_on (\<lambda>c. c = n) s) \<Longrightarrow> n \<notin> set l"
  using split_on_pieces [of l "\<lambda>c. c = n" s] by auto

lemma join_lines_Cons: "ls \<noteq> [] \<Longrightarrow> join_lines sep (l # ls) = l @ sep @ join_lines sep ls"
  by (cases ls) simp_all

lemma replace_char_append: "replace_char c by (s @ t) = replace_char c by s @ replace_char c by t"
  by (simp add: replace_char_def)

lemma replace_char_id: "c \<notin> set s \<Longrightarrow> replace_char c by s = s"
  by (induction s) (auto simp: replace_char_def)

lemma replace_char_join:
  "\<forall>l \<in> set ls. c \<notin> set l \<Longrightarrow> replace_char c by (join_lines [c] ls) = join_lines by ls"
proof (induction ls)
  case (Cons l ls)
  then show ?case
    by (cases "ls = []") (auto simp: join_lines_Cons replace_char_append replace_char_id, simp add: replace_char_def)
qed (simp add: replace_char_def)

end
