(* ===== verification/Config_Map.thy ===== *)
theory Config_Map
  imports Ustr
begin

text \<open>
  The insertion-ordered maps of the configuration file module (\<^verbatim>\<open>Ordered\<close> and \<^verbatim>\<open>MergedView\<close> of
  \<^verbatim>\<open>src/configfile/mod.rs\<close>): a vector of entries beside an index from keys to positions. The locale
  \<open>ordered_dict\<close> is what their clients rely on; both are interpretations of it.
\<close>

section \<open>The contract\<close>

text \<open>
  Of a store \<open>m\<close> the clients see the list of its entries. Inserting overwrites in place or appends, as an
  assignment to a Python \<^verbatim>\<open>dict\<close> does.
\<close>

fun upsert_list :: "'k \<Rightarrow> 'v \<Rightarrow> ('k \<times> 'v) list \<Rightarrow> ('k \<times> 'v) list" where
  "upsert_list k v [] = [(k, v)]"
| "upsert_list k v (e # es) = (if fst e = k then (k, v) # es else e # upsert_list k v es)"

lemma upsert_list_new: "k \<notin> fst ` set es \<Longrightarrow> upsert_list k v es = es @ [(k, v)]"
  by (induction es) auto

lemma map_of_upsert_list [simp]: "map_of (upsert_list k v es) = (map_of es)(k \<mapsto> v)"
  by (induction es) auto

lemma keys_upsert_list: "map fst (upsert_list k v es) = (if k \<in> fst ` set es then map fst es else map fst es @ [k])"
  by (induction es) auto

lemma distinct_upsert_list: "distinct (map fst es) \<Longrightarrow> distinct (map fst (upsert_list k v es))"
  by (auto simp: keys_upsert_list)

locale ordered_dict =
  fixes empty :: 'm
    and look :: "'m \<Rightarrow> 'k \<Rightarrow> 'v option"
    and put :: "'k \<Rightarrow> 'v \<Rightarrow> 'm \<Rightarrow> 'm"
    and to_list :: "'m \<Rightarrow> ('k \<times> 'v) list"
    and ok :: "'m \<Rightarrow> bool"
  assumes ok_empty: "ok empty"
    and list_empty: "to_list empty = []"
    and ok_put: "ok m \<Longrightarrow> ok (put k v m)"
    and list_put: "ok m \<Longrightarrow> to_list (put k v m) = upsert_list k v (to_list m)"
    and look_list: "ok m \<Longrightarrow> look m k = map_of (to_list m) k"
    and distinct_list: "ok m \<Longrightarrow> distinct (map fst (to_list m))"
begin

lemma look_put: "ok m \<Longrightarrow> look (put k v m) k' = (if k' = k then Some v else look m k')"
  by (simp add: look_list ok_put list_put)

text \<open>Storing a whole list of entries, one after another.\<close>

definition put_all :: "('k \<times> 'v) list \<Rightarrow> 'm \<Rightarrow> 'm" where
  "put_all es m = fold (\<lambda>(k, v). put k v) es m"

lemma put_all_simps: "put_all [] m = m" "put_all (e # es) m = put_all es (put (fst e) (snd e) m)"
  by (simp_all add: put_all_def split: prod.splits)

lemma ok_put_all: "ok m \<Longrightarrow> ok (put_all es m)"
  by (induction es arbitrary: m) (simp_all add: put_all_simps ok_put)

text \<open>Later entries win over earlier ones and over what was there.\<close>

lemma look_put_all: "ok m \<Longrightarrow> look (put_all es m) k = (case map_of (rev es) k of Some v \<Rightarrow> Some v | None \<Rightarrow> look m k)"
proof (induction es arbitrary: m)
  case (Cons e es)
  then show ?case
    by (cases e) (auto simp: put_all_simps ok_put look_put map_add_def split: option.splits)
qed (simp add: put_all_simps)

text \<open>Entries with new, distinct keys are appended in their order.\<close>

lemma list_put_all:
  "ok m \<Longrightarrow> distinct (map fst (to_list m @ es)) \<Longrightarrow> to_list (put_all es m) = to_list m @ es"
proof (induction es arbitrary: m)
  case (Cons e es)
  have "to_list (put (fst e) (snd e) m) = to_list m @ [e]"
    using Cons.prems by (subst list_put) (auto simp: upsert_list_new)
  with Cons show ?case
    by (simp add: put_all_simps ok_put)
qed (simp add: put_all_simps)

lemma list_put_all_empty: "distinct (map fst es) \<Longrightarrow> to_list (put_all es empty) = es"
  using list_put_all [OF ok_empty, of es] by (simp add: list_empty)

end

section \<open>\<^verbatim>\<open>Ordered\<close>\<close>

record 'v Ordered =
  entries :: "(ustr \<times> 'v) list"
  index :: "ustr \<rightharpoonup> nat"

definition Ordered_new :: "'v Ordered" where
  "Ordered_new = \<lparr>entries = [], index = Map.empty\<rparr>"

definition Ordered_position :: "'v Ordered \<Rightarrow> ustr \<Rightarrow> nat option" where
  "Ordered_position m key = index m key"

definition Ordered_contains :: "'v Ordered \<Rightarrow> ustr \<Rightarrow> bool" where
  "Ordered_contains m key \<longleftrightarrow> index m key \<noteq> None"

definition Ordered_get :: "'v Ordered \<Rightarrow> ustr \<Rightarrow> 'v option" where
  "Ordered_get m key = map_option (\<lambda>i. snd (entries m ! i)) (Ordered_position m key)"

text \<open>
  \<^verbatim>\<open>get_mut\<close> hands out a reference; what a caller does through it is the function \<open>f\<close>.
\<close>

definition set_at :: "nat \<Rightarrow> ('v \<Rightarrow> 'v) \<Rightarrow> 'v Ordered \<Rightarrow> 'v Ordered" where
  "set_at i f m = m\<lparr>entries := (entries m)[i := (fst (entries m ! i), f (snd (entries m ! i)))]\<rparr>"

definition Ordered_get_mut :: "'v Ordered \<Rightarrow> ustr \<Rightarrow> ('v \<Rightarrow> 'v) \<Rightarrow> 'v Ordered option" where
  "Ordered_get_mut m key f = map_option (\<lambda>i. set_at i f m) (index m key)"

definition Ordered_insert :: "ustr \<Rightarrow> 'v \<Rightarrow> 'v Ordered \<Rightarrow> 'v option \<times> 'v Ordered" where
  "Ordered_insert key v m =
     (case index m key of
        Some i \<Rightarrow> (Some (snd (entries m ! i)), set_at i (\<lambda>_. v) m)
      | None \<Rightarrow> (None, \<lparr>entries = entries m @ [(key, v)], index = (index m)(key \<mapsto> length (entries m))\<rparr>))"

definition reindex :: "nat \<Rightarrow> 'v Ordered \<Rightarrow> 'v Ordered" where
  "reindex i m =
     fold (\<lambda>pos m. case index m (fst (entries m ! pos)) of
         Some _ \<Rightarrow> m\<lparr>index := (index m)(fst (entries m ! pos) \<mapsto> pos)\<rparr>
       | None \<Rightarrow> m) [i..<length (entries m)] m"

definition Ordered_remove :: "ustr \<Rightarrow> 'v Ordered \<Rightarrow> (ustr \<times> ustr \<times> 'v) option \<times> 'v Ordered" where
  "Ordered_remove key m =
     (case index m key of
        None \<Rightarrow> (None, m)
      | Some i \<Rightarrow>
          let (entry_key, v) = entries m ! i
          in (Some (key, entry_key, v),
              reindex i \<lparr>entries = take i (entries m) @ drop (Suc i) (entries m), index = (index m)(key := None)\<rparr>))"

definition Ordered_is_empty :: "'v Ordered \<Rightarrow> bool" where
  "Ordered_is_empty m \<longleftrightarrow> entries m = []"

definition Ordered_keys :: "'v Ordered \<Rightarrow> ustr list" where
  "Ordered_keys m = map fst (entries m)"

section \<open>\<^verbatim>\<open>MergedView\<close>\<close>

record MergedView =
  view_entries :: "(ustr \<times> ustr option) list"
  view_index :: "ustr \<rightharpoonup> nat"

definition MergedView_default :: MergedView where
  "MergedView_default = \<lparr>view_entries = [], view_index = Map.empty\<rparr>"

definition upsert :: "ustr \<Rightarrow> ustr option \<Rightarrow> MergedView \<Rightarrow> MergedView" where
  "upsert key v w =
     (case view_index w key of
        Some i \<Rightarrow> w\<lparr>view_entries := (view_entries w)[i := (fst (view_entries w ! i), v)]\<rparr>
      | None \<Rightarrow> \<lparr>view_entries = view_entries w @ [(key, v)],
                 view_index = (view_index w)(key \<mapsto> length (view_entries w))\<rparr>)"

definition view_get :: "MergedView \<Rightarrow> ustr \<Rightarrow> ustr option option" where
  "view_get w key = map_option (\<lambda>i. snd (view_entries w ! i)) (view_index w key)"

section \<open>The index agrees with the entries\<close>

definition key_index :: "('k \<times> 'v) list \<Rightarrow> 'k \<Rightarrow> nat option" where
  "key_index es k = position (\<lambda>e. fst e = k) es"

definition indexed :: "('k \<times> 'v) list \<Rightarrow> ('k \<rightharpoonup> nat) \<Rightarrow> bool" where
  "indexed es ix \<longleftrightarrow> distinct (map fst es) \<and> ix = key_index es"

definition Ordered_ok :: "'v Ordered \<Rightarrow> bool" where
  "Ordered_ok m \<longleftrightarrow> indexed (entries m) (index m)"

lemma key_index_None: "key_index es k = None \<longleftrightarrow> k \<notin> fst ` set es"
  by (auto simp: key_index_def position_None)

lemma key_index_Some:
  "key_index es k = Some i \<Longrightarrow> i < length es \<and> fst (es ! i) = k \<and> map_of es k = Some (snd (es ! i))"
proof (induction es arbitrary: i)
  case (Cons e es)
  then show ?case by (cases i) (auto simp: key_index_def split: if_splits)
qed (simp add: key_index_def)

lemma key_index_Cons: "key_index (e # es) k = (if fst e = k then Some 0 else map_option Suc (key_index es k))"
  by (simp add: key_index_def)

lemma key_index_nth: "distinct (map fst es) \<Longrightarrow> i < length es \<Longrightarrow> key_index es (fst (es ! i)) = Some i"
proof (induction es arbitrary: i)
  case (Cons e es)
  then show ?case by (cases i) (auto simp: key_index_Cons)
qed simp

lemma upsert_list_at: "key_index es k = Some i \<Longrightarrow> upsert_list k v es = es[i := (fst (es ! i), v)]"
proof (induction es arbitrary: i)
  case (Cons e es)
  then show ?case by (cases i) (auto simp: key_index_def split: if_splits)
qed (simp add: key_index_def)

lemma key_index_snoc_at:
  "key_index (es @ [(k, v)]) x = (case key_index es x of Some i \<Rightarrow> Some i | None \<Rightarrow> if x = k then Some (length es) else None)"
  by (induction es) (auto simp: key_index_def split: option.splits)

lemma key_index_snoc:
  "k \<notin> fst ` set es \<Longrightarrow> key_index (es @ [(k, v)]) = (key_index es)(k \<mapsto> length es)"
  by (auto simp: fun_eq_iff key_index_snoc_at key_index_None [THEN iffD2] split: option.splits)

lemma key_index_keys: "map fst es = map fst es' \<Longrightarrow> key_index es = key_index es'"
proof -
  have "key_index es k = position (\<lambda>x. x = k) (map fst es)" for es :: "('a \<times> 'b) list" and k
    by (induction es) (auto simp: key_index_def)
  moreover have "key_index es k = position (\<lambda>x. x = k) (map fst es)" for es :: "('a \<times> 'c) list" and k
    by (induction es) (auto simp: key_index_def)
  ultimately show "map fst es = map fst es' \<Longrightarrow> key_index es = key_index es'" by auto
qed

lemma indexed_upsert:
  assumes "indexed es ix"
  shows "ix k = Some i \<Longrightarrow> indexed (upsert_list k v es) ix"
    "ix k = None \<Longrightarrow> upsert_list k v es = es @ [(k, v)] \<and> indexed (es @ [(k, v)]) (ix(k \<mapsto> length es))"
proof -
  assume "ix k = Some i"
  with assms have k: "k \<in> fst ` set es" using key_index_None [of es k] by (auto simp: indexed_def)
  then have "map fst (upsert_list k v es) = map fst es" by (simp add: keys_upsert_list)
  with assms show "indexed (upsert_list k v es) ix"
    using key_index_keys [of "upsert_list k v es" es] by (simp add: indexed_def)
next
  assume "ix k = None"
  with assms have "k \<notin> fst ` set es" using key_index_None [of es k] by (simp add: indexed_def)
  with assms show "upsert_list k v es = es @ [(k, v)] \<and> indexed (es @ [(k, v)]) (ix(k \<mapsto> length es))"
    by (auto simp: indexed_def upsert_list_new key_index_snoc)
qed

lemma Ordered_insert_entries:
  assumes "Ordered_ok m"
  shows "entries (snd (Ordered_insert k v m)) = upsert_list k v (entries m)"
    "Ordered_ok (snd (Ordered_insert k v m))"
    "fst (Ordered_insert k v m) = map_of (entries m) k"
proof -
  note ok = assms [unfolded Ordered_ok_def]
  have "entries (snd (Ordered_insert k v m)) = upsert_list k v (entries m)
      \<and> Ordered_ok (snd (Ordered_insert k v m)) \<and> fst (Ordered_insert k v m) = map_of (entries m) k"
  proof (cases "index m k")
    case None
    with ok have "k \<notin> fst ` set (entries m)" by (simp add: indexed_def key_index_None)
    then have "map_of (entries m) k = None" by (simp add: map_of_eq_None_iff)
    with None indexed_upsert(2) [OF ok None, of v] show ?thesis by (simp add: Ordered_insert_def Ordered_ok_def)
  next
    case (Some i)
    then have ki: "key_index (entries m) k = Some i" using ok by (simp add: indexed_def)
    with Some indexed_upsert(1) [OF ok Some, of v] key_index_Some [OF ki] upsert_list_at [OF ki, of v]
    show ?thesis by (simp add: Ordered_insert_def Ordered_ok_def set_at_def)
  qed
  then show "entries (snd (Ordered_insert k v m)) = upsert_list k v (entries m)"
    "Ordered_ok (snd (Ordered_insert k v m))" "fst (Ordered_insert k v m) = map_of (entries m) k" by auto
qed

lemma Ordered_get_map_of: "Ordered_ok m \<Longrightarrow> Ordered_get m k = map_of (entries m) k"
proof -
  assume "Ordered_ok m"
  then have ix: "index m = key_index (entries m)" by (simp add: Ordered_ok_def indexed_def)
  show ?thesis
  proof (cases "key_index (entries m) k")
    case None
    then show ?thesis
      using key_index_None [of "entries m" k] map_of_eq_None_iff [of "entries m" k]
      by (simp add: Ordered_get_def Ordered_position_def ix)
  next
    case (Some i)
    with key_index_Some [OF Some] show ?thesis by (simp add: Ordered_get_def Ordered_position_def ix)
  qed
qed

lemma reindex_fold:
  assumes "distinct (map fst es)" "\<forall>pos \<in> set ps. pos < length es" "distinct ps"
  shows "fold (\<lambda>pos m. case index m (fst (entries m ! pos)) of
           Some _ \<Rightarrow> m\<lparr>index := (index m)(fst (entries m ! pos) \<mapsto> pos)\<rparr> | None \<Rightarrow> m) ps \<lparr>entries = es, index = ix\<rparr>
       = \<lparr>entries = es, index = (\<lambda>k. case key_index es k of
             Some pos \<Rightarrow> if pos \<in> set ps \<and> ix k \<noteq> None then Some pos else ix k | None \<Rightarrow> ix k)\<rparr>"
  using assms(2,3)
proof (induction ps arbitrary: ix)
  case Nil
  show ?case by (simp add: fun_eq_iff split: option.splits)
next
  case (Cons p ps)
  have at: "key_index es k = Some p \<longleftrightarrow> k = fst (es ! p)" for k
    using Cons.prems key_index_nth [OF assms(1), of p] key_index_Some [of es k p] by auto
  show ?case
  proof (cases "ix (fst (es ! p))")
    case None
    then have "(case key_index es k of Some pos \<Rightarrow> if pos \<in> set (p # ps) \<and> ix k \<noteq> None then Some pos else ix k | None \<Rightarrow> ix k)
        = (case key_index es k of Some pos \<Rightarrow> if pos \<in> set ps \<and> ix k \<noteq> None then Some pos else ix k | None \<Rightarrow> ix k)" for k
      using at [of k] by (auto split: option.splits)
    with None Cons show ?thesis by simp
  next
    case (Some q)
    let ?ix = "ix(fst (es ! p) \<mapsto> p)"
    have "(case key_index es k of Some pos \<Rightarrow> if pos \<in> set ps \<and> ?ix k \<noteq> None then Some pos else ?ix k | None \<Rightarrow> ?ix k)
        = (case key_index es k of Some pos \<Rightarrow> if pos \<in> set (p # ps) \<and> ix k \<noteq> None then Some pos else ix k | None \<Rightarrow> ix k)" for k
      using at [of k] Some Cons.prems by (auto split: option.splits)
    with Some Cons show ?thesis by simp
  qed
qed

lemma reindex_index:
  assumes "distinct (map fst es)"
  shows "reindex i \<lparr>entries = es, index = ix\<rparr> = \<lparr>entries = es, index = (\<lambda>k. case key_index es k of
      Some pos \<Rightarrow> if i \<le> pos \<and> ix k \<noteq> None then Some pos else ix k | None \<Rightarrow> ix k)\<rparr>"
proof -
  have "key_index es k = Some pos \<Longrightarrow> pos \<in> set [i..<length es] \<longleftrightarrow> i \<le> pos" for k pos
    using key_index_Some [of es k pos] by auto
  then show ?thesis
    using reindex_fold [OF assms, of "[i..<length es]" ix]
    by (auto simp: reindex_def fun_eq_iff split: option.splits)
qed

definition remove_key :: "'k \<Rightarrow> ('k \<times> 'v) list \<Rightarrow> ('k \<times> 'v) list" where
  "remove_key k es = filter (\<lambda>e. fst e \<noteq> k) es"

lemma remove_key_at:
  "distinct (map fst es) \<Longrightarrow> key_index es k = Some i \<Longrightarrow> take i es @ drop (Suc i) es = remove_key k es"
proof (induction es arbitrary: i)
  case (Cons e es)
  show ?case
  proof (cases "fst e = k")
    case True
    with Cons.prems have "\<forall>e \<in> set es. fst e \<noteq> k" by (metis distinct.simps(2) image_eqI list.set_map list.simps(9))
    then have "filter (\<lambda>e. fst e \<noteq> k) es = es" by (simp add: filter_id_conv)
    with True Cons.prems show ?thesis by (auto simp: key_index_Cons remove_key_def)
  next
    case False
    with Cons show ?thesis by (cases i) (auto simp: key_index_Cons remove_key_def)
  qed
qed (simp add: key_index_def)

lemma key_index_at_iff: "distinct (map fst es) \<Longrightarrow> key_index es x = Some j \<Longrightarrow> key_index es y = Some j \<Longrightarrow> x = y"
  by (metis key_index_Some)

lemma key_index_delete:
  assumes "distinct (map fst es)" "key_index es k = Some i" "x \<noteq> k"
  shows "key_index (take i es @ drop (Suc i) es) x =
    (case key_index es x of Some j \<Rightarrow> Some (if j < i then j else j - 1) | None \<Rightarrow> None)"
  using assms
proof (induction es arbitrary: i)
  case (Cons e es)
  show ?case
  proof (cases "fst e = k")
    case True
    with Cons.prems show ?thesis by (auto simp: key_index_Cons split: option.splits)
  next
    case False
    with Cons obtain i' where "i = Suc i'" "key_index es k = Some i'" by (auto simp: key_index_Cons)
    moreover from this Cons.prems have "key_index es x \<noteq> Some i'" using key_index_at_iff [of es x i' k] by auto
    ultimately show ?thesis
      using Cons False by (auto simp: key_index_Cons split: option.splits)
  qed
qed (simp add: key_index_def)

lemma Ordered_remove_entries:
  assumes "Ordered_ok m"
  shows "entries (snd (Ordered_remove k m)) = remove_key k (entries m)"
    "Ordered_ok (snd (Ordered_remove k m))"
    "fst (Ordered_remove k m) = map_option (\<lambda>v. (k, k, v)) (map_of (entries m) k)"
proof -
  let ?es = "entries m"
  have d: "distinct (map fst ?es)" and ix: "index m = key_index ?es"
    using assms by (simp_all add: Ordered_ok_def indexed_def)
  have "entries (snd (Ordered_remove k m)) = remove_key k ?es \<and> Ordered_ok (snd (Ordered_remove k m))
      \<and> fst (Ordered_remove k m) = map_option (\<lambda>v. (k, k, v)) (map_of ?es k)"
  proof (cases "key_index ?es k")
    case None
    then have "k \<notin> fst ` set ?es" by (simp add: key_index_None)
    then have "remove_key k ?es = ?es" "map_of ?es k = None"
      by (auto simp: remove_key_def filter_id_conv map_of_eq_None_iff)
    with None assms show ?thesis by (simp add: Ordered_remove_def ix)
  next
    case (Some i)
    let ?es' = "take i ?es @ drop (Suc i) ?es"
    have es': "?es' = remove_key k ?es" by (rule remove_key_at [OF d Some])
    have d': "distinct (map fst ?es')" unfolding es' remove_key_def using d by (simp add: distinct_map_filter)
    have "(case key_index ?es' x of Some pos \<Rightarrow> if i \<le> pos \<and> ((key_index ?es)(k := None)) x \<noteq> None then Some pos
          else ((key_index ?es)(k := None)) x | None \<Rightarrow> ((key_index ?es)(k := None)) x) = key_index ?es' x" for x
    proof (cases "x = k")
      case True
      then have "key_index ?es' x = None" unfolding es' by (auto simp: key_index_None remove_key_def)
      with True show ?thesis by simp
    next
      case False
      show ?thesis
      proof (cases "key_index ?es x")
        case None
        with False key_index_delete [OF d Some False] show ?thesis by simp
      next
        case (Some j)
        with False key_index_delete [OF d \<open>key_index ?es k = Some i\<close> False]
          key_index_at_iff [OF d Some, of k] \<open>key_index ?es k = Some i\<close>
        have "j \<noteq> i" by auto
        with Some False key_index_delete [OF d \<open>key_index ?es k = Some i\<close> False] show ?thesis by auto
      qed
    qed
    then have "reindex i \<lparr>entries = ?es', index = (key_index ?es)(k := None)\<rparr> = \<lparr>entries = ?es', index = key_index ?es'\<rparr>"
      unfolding reindex_index [OF d'] by simp
    with Some key_index_Some [OF Some] d' show ?thesis
      by (auto simp: Ordered_remove_def ix Let_def Ordered_ok_def indexed_def es' split: prod.splits)
  qed
  then show "entries (snd (Ordered_remove k m)) = remove_key k ?es" "Ordered_ok (snd (Ordered_remove k m))"
    "fst (Ordered_remove k m) = map_option (\<lambda>v. (k, k, v)) (map_of ?es k)" by auto
qed

text \<open>A change through \<^verbatim>\<open>get_mut\<close> keeps the keys, so it keeps the invariant.\<close>

lemma map_fst_update: "map fst (es[i := (fst (es ! i), v)]) = map fst es"
  by (cases "i < length es") (simp_all add: map_update list_update_beyond list_update_same_conv)

lemma set_at_ok: "Ordered_ok m \<Longrightarrow> Ordered_ok (set_at i f m)"
  using key_index_keys [OF map_fst_update, of "entries m" i "f (snd (entries m ! i))"]
  by (simp add: Ordered_ok_def indexed_def set_at_def map_fst_update)

lemma Ordered_ok_new: "Ordered_ok Ordered_new"
  by (auto simp: Ordered_ok_def indexed_def Ordered_new_def key_index_def)

lemma Ordered_new_simps [simp]: "entries Ordered_new = []" "Ordered_get Ordered_new k = None"
  by (simp_all add: Ordered_new_def Ordered_get_def Ordered_position_def)

lemma Ordered_contains_get: "Ordered_contains m k \<longleftrightarrow> Ordered_get m k \<noteq> None"
  by (simp add: Ordered_contains_def Ordered_get_def Ordered_position_def)

section \<open>Interpretations\<close>

abbreviation store :: "ustr \<Rightarrow> 'v \<Rightarrow> 'v Ordered \<Rightarrow> 'v Ordered" where
  "store k v m \<equiv> snd (Ordered_insert k v m)"

interpretation ordered: ordered_dict Ordered_new Ordered_get store entries Ordered_ok
  by unfold_locales
    (auto simp: Ordered_ok_new Ordered_insert_entries Ordered_get_map_of, simp_all add: Ordered_new_def Ordered_ok_def indexed_def)

text \<open>The entries determine the map, so storing what is there changes nothing and the last store counts.\<close>

lemma Ordered_ext: "Ordered_ok m \<Longrightarrow> Ordered_ok m' \<Longrightarrow> entries m = entries m' \<Longrightarrow> m = m'" for m m' :: "'v Ordered"
  by (simp add: Ordered_ok_def indexed_def)

lemma upsert_list_same: "map_of es k = Some v \<Longrightarrow> upsert_list k v es = es"
  by (induction es) auto

lemma upsert_list_upsert: "upsert_list k v (upsert_list k u es) = upsert_list k v es"
  by (induction es) auto

lemma store_same: "Ordered_ok m \<Longrightarrow> Ordered_get m k = Some v \<Longrightarrow> store k v m = m"
  by (rule Ordered_ext) (simp_all add: Ordered_insert_entries Ordered_get_map_of upsert_list_same)

lemma store_store: "Ordered_ok m \<Longrightarrow> store k v (store k u m) = store k v m"
  by (rule Ordered_ext) (simp_all add: Ordered_insert_entries upsert_list_upsert)

definition view_ok :: "MergedView \<Rightarrow> bool" where
  "view_ok w \<longleftrightarrow> indexed (view_entries w) (view_index w)"

text \<open>A view is an \<^verbatim>\<open>Ordered\<close> of optional texts in all but name.\<close>

definition view_store :: "MergedView \<Rightarrow> ustr option Ordered" where
  "view_store w = \<lparr>entries = view_entries w, index = view_index w\<rparr>"

lemma view_store_simps:
  "entries (view_store w) = view_entries w" "view_ok w \<longleftrightarrow> Ordered_ok (view_store w)"
  "view_store (upsert k v w) = store k v (view_store w)" "view_get w k = Ordered_get (view_store w) k"
  by (auto simp: view_store_def view_ok_def Ordered_ok_def upsert_def Ordered_insert_def set_at_def view_get_def
      Ordered_get_def Ordered_position_def split: option.splits)

interpretation merged: ordered_dict MergedView_default view_get upsert view_entries view_ok
proof unfold_locales
  show "view_ok MergedView_default" "view_entries MergedView_default = []"
    by (auto simp: view_ok_def MergedView_default_def indexed_def key_index_def)
next
  fix w k v
  assume ok: "view_ok w"
  show "view_ok (upsert k v w)" using ok ordered.ok_put by (simp add: view_store_simps)
  show "view_entries (upsert k v w) = upsert_list k v (view_entries w)"
    using ok ordered.list_put [of "view_store w" k v] by (simp flip: view_store_simps)
  show "view_get w k = map_of (view_entries w) k"
    using ok ordered.look_list [of "view_store w" k] by (simp add: view_store_simps)
  show "distinct (map fst (view_entries w))"
    using ok by (simp add: view_ok_def indexed_def)
qed

section \<open>Properties\<close>

text \<open>
  The index of an ordered map always agrees with its entries: storing, removing (which renumbers the
  entries behind the removed one) and changing a value in place keep the invariant, every lookup is the
  lookup in the entries, storing overwrites in place or appends, and removing takes the one entry out and
  keeps the order of the others.
\<close>

theorem ordered_map_index_sound:
  assumes "Ordered_ok m"
  shows "Ordered_ok (snd (Ordered_insert k v m)) \<and> entries (snd (Ordered_insert k v m)) = upsert_list k v (entries m)
    \<and> fst (Ordered_insert k v m) = map_of (entries m) k
    \<and> Ordered_ok (snd (Ordered_remove k m)) \<and> entries (snd (Ordered_remove k m)) = remove_key k (entries m)
    \<and> fst (Ordered_remove k m) = map_option (\<lambda>v. (k, k, v)) (map_of (entries m) k)
    \<and> Ordered_get m k = map_of (entries m) k \<and> (Ordered_contains m k \<longleftrightarrow> k \<in> set (Ordered_keys m))
    \<and> (\<forall>m'. Ordered_get_mut m k f = Some m' \<longrightarrow> Ordered_ok m' \<and> Ordered_get m' k = map_option f (Ordered_get m k))"
proof -
  have contains: "Ordered_contains m k \<longleftrightarrow> k \<in> set (Ordered_keys m)"
    using assms key_index_None [of "entries m" k]
    by (auto simp: Ordered_contains_def Ordered_keys_def Ordered_ok_def indexed_def)
  have "Ordered_ok m' \<and> Ordered_get m' k = map_option f (Ordered_get m k)" if g: "Ordered_get_mut m k f = Some m'" for m'
  proof -
    from g obtain i where i: "index m k = Some i" and m': "m' = set_at i f m" by (auto simp: Ordered_get_mut_def)
    have "i < length (entries m)"
      using i assms key_index_Some [of "entries m" k i] by (simp add: Ordered_ok_def indexed_def)
    with i show ?thesis unfolding m'
      using set_at_ok [OF assms] by (simp add: Ordered_get_def Ordered_position_def set_at_def)
  qed
  with contains assms show ?thesis
    by (auto simp: Ordered_insert_entries Ordered_remove_entries Ordered_get_map_of)
qed

theorem ordered_map_index_sound_witness:
  "entries (snd (Ordered_remove [97] (store [98] (2 :: nat) (store [97] 1 Ordered_new)))) = [([98], 2)]"
proof -
  have ok: "Ordered_ok (store [98] (2 :: nat) (store [97] 1 Ordered_new))"
    by (intro ordered.ok_put ordered.ok_empty)
  have "entries (store [98] (2 :: nat) (store [97] 1 Ordered_new)) = [([97], 1), ([98], 2)]" by code_simp
  with ordered_map_index_sound [OF ok, of "[97]"] show ?thesis by (simp add: remove_key_def)
qed

end
