(* ===== verification/Config_Parse.thy ===== *)
theory Config_Parse
  imports Config_Map
begin

text \<open>
  Reading and writing configuration files (\<^verbatim>\<open>src/configfile/parse.rs\<close>, \<^verbatim>\<open>src/configfile/write.rs\<close> and the
  \<^verbatim>\<open>ConfigFile\<close> of \<^verbatim>\<open>mod.rs\<close>). \<open>lower\<close> is \<^verbatim>\<open>str::to_lowercase\<close>, whose Unicode tables are data of the
  standard library: a parameter. Burning of released buffers is not visible in the values and so not in the
  model; what the \<^verbatim>\<open>scrub\<close> flag withholds from errors is.
\<close>

section \<open>Configurations\<close>

datatype Interp = NoInterp | Basic

record ConfigFile =
  defaults :: "ustr option Ordered"
  sections :: "ustr option Ordered Ordered"
  interp :: Interp
  allow_no_value :: bool
  scrub :: bool

definition DEFAULT_SECTION :: ustr where
  "DEFAULT_SECTION = lit ''DEFAULT''"

definition ConfigFile_new :: ConfigFile where
  "ConfigFile_new =
     \<lparr>defaults = Ordered_new, sections = Ordered_new, interp = Basic, allow_no_value = False, scrub = False\<rparr>"

definition ConfigFile_raw :: ConfigFile where
  "ConfigFile_raw = ConfigFile_new\<lparr>interp := NoInterp\<rparr>"

definition optionxform :: "(ustr \<Rightarrow> ustr) \<Rightarrow> ustr \<Rightarrow> ustr" where
  "optionxform lower option = lower option"

section \<open>The grammar of a line\<close>

definition is_py_space :: "nat \<Rightarrow> bool" where
  "is_py_space c \<longleftrightarrow> is_whitespace c \<or> 0x1C \<le> c \<and> c \<le> 0x1F"

definition py_strip :: "ustr \<Rightarrow> ustr" where
  "py_strip s = trim_matches is_py_space s"

definition py_rstrip :: "ustr \<Rightarrow> ustr" where
  "py_rstrip s = trim_end_matches is_py_space s"

definition first_is :: "(nat \<Rightarrow> bool) \<Rightarrow> ustr \<Rightarrow> bool" where
  "first_is p s \<longleftrightarrow> (case s of [] \<Rightarrow> False | c # _ \<Rightarrow> p c)"

definition is_eol :: "nat \<Rightarrow> bool" where "is_eol c \<longleftrightarrow> c = 10 \<or> c = 13"
definition is_delim :: "nat \<Rightarrow> bool" where "is_delim c \<longleftrightarrow> c = 0x3D \<or> c = 0x3A"
definition is_comment :: "nat \<Rightarrow> bool" where "is_comment c \<longleftrightarrow> c = 0x23 \<or> c = 0x3B"

datatype NameFault = IsEmpty | LineBreak | HasDelimiter | Surrounded | ReadsAsHeader | ReadsAsComment

definition key_fault :: "ustr \<Rightarrow> NameFault option" where
  "key_fault key =
     (if key = [] then Some IsEmpty
      else if list_ex is_eol key then Some LineBreak
      else if list_ex is_delim key then Some HasDelimiter
      else if first_is is_py_space key \<or> first_is is_py_space (rev key) then Some Surrounded
      else if first_is (\<lambda>c. c = 0x5B) key then Some ReadsAsHeader
      else if first_is is_comment key then Some ReadsAsComment
      else None)"

definition section_fault :: "ustr \<Rightarrow> NameFault option" where
  "section_fault name =
     (if name = [] then Some IsEmpty else if list_ex is_eol name then Some LineBreak else None)"

definition section_header :: "ustr \<Rightarrow> ustr option" where
  "section_header clean =
     (if \<not> first_is (\<lambda>c. c = 0x5B) clean then None
      else case rposition (\<lambda>c. c = 0x5D) clean of
          None \<Rightarrow> None
        | Some close \<Rightarrow> if close \<le> 1 then None else Some (slice clean 1 close))"

definition parse_option :: "ustr \<Rightarrow> bool \<Rightarrow> (ustr \<times> ustr option) option" where
  "parse_option clean allow =
     (case position is_delim clean of
        Some p \<Rightarrow> Some (py_rstrip (take p clean), Some (py_strip (drop (p + 1) clean)))
      | None \<Rightarrow> if allow then Some (py_rstrip clean, None) else None)"

section \<open>The read loop\<close>

type_synonym Acc = "ustr list option"

datatype SectionId = SidDefault | SidAt nat

datatype Cur = CurNone | CurDefault | CurSection nat

definition SectionId_of :: "Cur \<Rightarrow> SectionId" where
  "SectionId_of cur = (case cur of CurSection i \<Rightarrow> SidAt i | _ \<Rightarrow> SidDefault)"

record Work =
  w_default :: "Acc Ordered"
  w_sections :: "Acc Ordered Ordered"
  dups :: "(SectionId \<times> ustr) set"
  added_sections :: "ustr set"

text \<open>
  The errors of a read: the line, and what the message quotes of the file (\<open>None\<close> where a scrubbed
  configuration withholds it).
\<close>

datatype read_error =
    ContinuationWithoutValue nat
  | DuplicateSection nat "ustr option"
  | MissingHeader nat
  | DuplicateOption nat "ustr option"
  | ParsingErrors "nat list"

record Reading =
  work :: Work
  cur :: Cur
  optname :: "ustr option"
  indent_level :: nat
  parse_errors :: "nat list"

definition cur_opts :: "Work \<Rightarrow> Cur \<Rightarrow> Acc Ordered option" where
  "cur_opts w c =
     (case c of
        CurNone \<Rightarrow> None
      | CurDefault \<Rightarrow> Some (w_default w)
      | CurSection i \<Rightarrow> Some (snd (entries (w_sections w) ! i)))"

text \<open>What the loop does through the reference \<^verbatim>\<open>cur_opts\<close> returns.\<close>

definition put_opts :: "Work \<Rightarrow> Cur \<Rightarrow> Acc Ordered \<Rightarrow> Work" where
  "put_opts w c opts =
     (case c of
        CurNone \<Rightarrow> w
      | CurDefault \<Rightarrow> w\<lparr>w_default := opts\<rparr>
      | CurSection i \<Rightarrow> w\<lparr>w_sections := set_at i (\<lambda>_. opts) (w_sections w)\<rparr>)"

text \<open>
  Appending a line to the open value: \<open>None\<close> where there is no section, no such key or no value to
  append to.
\<close>

definition push_line :: "Work \<Rightarrow> Cur \<Rightarrow> ustr option \<Rightarrow> ustr \<Rightarrow> Work option" where
  "push_line w c name line =
     (case (cur_opts w c, name) of
        (Some opts, Some name) \<Rightarrow>
          (case Ordered_get opts name of
             Some (Some lines) \<Rightarrow>
               map_option (put_opts w c) (Ordered_get_mut opts name (\<lambda>acc. map_option (\<lambda>ls. ls @ [line]) acc))
           | _ \<Rightarrow> None)
      | _ \<Rightarrow> None)"

definition read_blank :: "bool \<Rightarrow> Reading \<Rightarrow> Reading" where
  "read_blank is_full_comment st =
     (if is_full_comment then st
      else case push_line (work st) (cur st) (optname st) [] of
          None \<Rightarrow> st
        | Some w \<Rightarrow> st\<lparr>work := w\<rparr>)"

definition read_header :: "bool \<Rightarrow> nat \<Rightarrow> ustr \<Rightarrow> Reading \<Rightarrow> read_error + Reading" where
  "read_header sc lineno header st =
     (if header = DEFAULT_SECTION then Inr (st\<lparr>cur := CurDefault, optname := None\<rparr>)
      else if header \<in> added_sections (work st) then
        Inl (DuplicateSection lineno (if sc then None else Some header))
      else
        let secs = snd (Ordered_insert header Ordered_new (w_sections (work st)));
            w = (work st)\<lparr>added_sections := insert header (added_sections (work st)), w_sections := secs\<rparr>
        in Inr (st\<lparr>work := w, cur := CurSection (the (Ordered_position secs header)), optname := None\<rparr>))"

definition read_option :: "(ustr \<Rightarrow> ustr) \<Rightarrow> bool \<Rightarrow> bool \<Rightarrow> nat \<Rightarrow> ustr \<Rightarrow> Reading \<Rightarrow> read_error + Reading" where
  "read_option lower allow sc lineno clean st =
     (case parse_option clean allow of
        None \<Rightarrow> Inr (st\<lparr>parse_errors := parse_errors st @ [lineno]\<rparr>)
      | Some (raw_key, v) \<Rightarrow>
          let key = optionxform lower raw_key
          in if key = [] then Inr (st\<lparr>parse_errors := parse_errors st @ [lineno]\<rparr>)
             else if (SectionId_of (cur st), key) \<in> dups (work st) then
               Inl (DuplicateOption lineno (if sc then None else Some key))
             else
               let w = (work st)\<lparr>dups := insert (SectionId_of (cur st), key) (dups (work st))\<rparr>;
                   acc = map_option (\<lambda>v. [v]) v;
                   opts = snd (Ordered_insert key acc (the (cur_opts w (cur st))))
               in Inr (st\<lparr>work := put_opts w (cur st) opts, optname := Some key\<rparr>))"

definition read_line :: "(ustr \<Rightarrow> ustr) \<Rightarrow> bool \<Rightarrow> bool \<Rightarrow> nat \<Rightarrow> ustr \<Rightarrow> Reading \<Rightarrow> read_error + Reading" where
  "read_line lower allow sc lineno line st =
     (let trimmed = py_strip line;
          is_full_comment = first_is is_comment trimmed;
          clean = (if is_full_comment then [] else trimmed)
      in if clean = [] then Inr (read_blank is_full_comment st)
         else
           let cur_indent = length (takeWhile is_py_space line)
           in if cur st \<noteq> CurNone \<and> optname st \<noteq> None \<and> cur_indent > indent_level st then
                (case push_line (work st) (cur st) (optname st) clean of
                   Some w \<Rightarrow> Inr (st\<lparr>work := w\<rparr>)
                 | None \<Rightarrow> Inl (ContinuationWithoutValue lineno))
              else case section_header clean of
                  Some header \<Rightarrow> read_header sc lineno header st
                | None \<Rightarrow>
                    if cur st = CurNone then Inl (MissingHeader lineno)
                    else read_option lower allow sc lineno clean (st\<lparr>indent_level := cur_indent\<rparr>))"

fun read_lines ::
  "(ustr \<Rightarrow> ustr) \<Rightarrow> bool \<Rightarrow> bool \<Rightarrow> nat \<Rightarrow> ustr list \<Rightarrow> Reading \<Rightarrow> read_error + Reading" where
  "read_lines lower allow sc lineno [] st = Inr st"
| "read_lines lower allow sc lineno (l # ls) st =
     (case read_line lower allow sc lineno l st of
        Inl e \<Rightarrow> Inl e
      | Inr st \<Rightarrow> read_lines lower allow sc (lineno + 1) ls st)"

definition Reading_start :: Reading where
  "Reading_start =
     \<lparr>work = \<lparr>w_default = Ordered_new, w_sections = Ordered_new, dups = {}, added_sections = {}\<rparr>,
      cur = CurNone, optname = None, indent_level = 0, parse_errors = []\<rparr>"

definition join_acc :: "Acc \<Rightarrow> ustr option" where
  "join_acc acc = map_option (\<lambda>lines. py_rstrip (join_lines [10] lines)) acc"

definition merge_opts :: "Acc Ordered \<Rightarrow> ustr option Ordered \<Rightarrow> ustr option Ordered" where
  "merge_opts opts target = fold (\<lambda>(key, acc) t. store key (join_acc acc) t) (entries opts) target"

definition merge_section :: "ustr \<times> Acc Ordered \<Rightarrow> ustr option Ordered Ordered \<Rightarrow> ustr option Ordered Ordered" where
  "merge_section s secs =
     (let secs = (if Ordered_contains secs (fst s) then secs else store (fst s) Ordered_new secs)
      in case Ordered_get_mut secs (fst s) (merge_opts (snd s)) of Some secs \<Rightarrow> secs | None \<Rightarrow> secs)"

definition merge :: "Work \<Rightarrow> ConfigFile \<Rightarrow> ConfigFile" where
  "merge w cfg =
     cfg\<lparr>defaults := merge_opts (w_default w) (defaults cfg),
         sections := fold merge_section (entries (w_sections w)) (sections cfg)\<rparr>"

definition read :: "(ustr \<Rightarrow> ustr) \<Rightarrow> ConfigFile \<Rightarrow> ustr \<Rightarrow> read_error + ConfigFile" where
  "read lower cfg text =
     (case read_lines lower (allow_no_value cfg) (scrub cfg) 1 (split_inclusive 10 text) Reading_start of
        Inl e \<Rightarrow> Inl e
      | Inr st \<Rightarrow>
          if parse_errors st \<noteq> [] then Inl (ParsingErrors (parse_errors st))
          else Inr (merge (work st) cfg))"

section \<open>Writing\<close>

definition write_option :: "ustr \<Rightarrow> bool \<Rightarrow> ustr \<times> ustr option \<Rightarrow> ustr" where
  "write_option delim allow opt =
     (let (key, v) = opt
      in (if v \<noteq> None \<or> \<not> allow then
            key @ delim @ (case v of
                Some v \<Rightarrow> if 10 \<in> set v then replace_char 10 [10, 9] v else v
              | None \<Rightarrow> lit ''None'')
          else key) @ [10])"

definition write_section :: "ustr \<Rightarrow> bool \<Rightarrow> ustr \<times> ustr option Ordered \<Rightarrow> ustr" where
  "write_section delim allow s =
     [0x5B] @ fst s @ [0x5D, 10] @ concat (map (write_option delim allow) (entries (snd s))) @ [10]"

definition to_string :: "ConfigFile \<Rightarrow> bool \<Rightarrow> ustr" where
  "to_string cfg space_around =
     (let delim = (if space_around then lit '' = '' else lit ''='')
      in (if \<not> Ordered_is_empty (defaults cfg)
          then write_section delim (allow_no_value cfg) (DEFAULT_SECTION, defaults cfg) else [])
         @ concat (map (write_section delim (allow_no_value cfg)) (entries (sections cfg))))"

section \<open>The working state\<close>

definition cur_valid :: "Work \<Rightarrow> Cur \<Rightarrow> bool" where
  "cur_valid w c \<longleftrightarrow> (case c of CurNone \<Rightarrow> False | CurDefault \<Rightarrow> True | CurSection i \<Rightarrow> i < length (entries (w_sections w)))"

lemma cur_opts_put [simp]: "cur_valid w c \<Longrightarrow> cur_opts (put_opts w c m) c = Some m"
  by (cases c) (simp_all add: cur_valid_def cur_opts_def put_opts_def set_at_def)

lemma put_opts_put [simp]: "put_opts (put_opts w c m) c m' = put_opts w c m'"
proof (cases c)
  case (CurSection i)
  then show ?thesis
    by (cases "i < length (entries (w_sections w))") (simp_all add: put_opts_def set_at_def list_update_beyond)
qed (simp_all add: put_opts_def)

lemma cur_valid_put [simp]: "cur_valid (put_opts w c m) c = cur_valid w c"
  by (cases c) (simp_all add: cur_valid_def put_opts_def set_at_def)

lemma put_opts_dups [simp]: "dups (put_opts w c m) = dups w" "(put_opts w c m)\<lparr>dups := d\<rparr> = put_opts (w\<lparr>dups := d\<rparr>) c m"
  "cur_opts (w\<lparr>dups := d\<rparr>) c = cur_opts w c" "cur_valid (w\<lparr>dups := d\<rparr>) c = cur_valid w c"
  by (cases c; simp add: put_opts_def cur_opts_def cur_valid_def)+

lemma cur_valid_opts: "cur_valid w c \<Longrightarrow> c \<noteq> CurNone"
  by (auto simp: cur_valid_def)

lemma get_mut_store:
  assumes "Ordered_ok m" "Ordered_get m k = Some v"
  shows "Ordered_get_mut m k f = Some (store k (f v) m)"
  using assms by (auto simp: Ordered_get_mut_def Ordered_get_def Ordered_position_def Ordered_insert_def set_at_def
      split: option.splits)

lemma push_line_store:
  assumes "cur_opts w c = Some opts" "Ordered_ok opts" "Ordered_get opts k = Some (Some ls)"
  shows "push_line w c (Some k) l = Some (put_opts w c (store k (Some (ls @ [l])) opts))"
  using assms by (simp add: push_line_def get_mut_store)

text \<open>What the accumulated options will be once their lines are joined.\<close>

definition absopts :: "Acc Ordered \<Rightarrow> (ustr \<times> ustr option) list" where
  "absopts m = map (\<lambda>(k, acc). (k, join_acc acc)) (entries m)"

lemma fst_absopts: "map fst (absopts m) = map fst (entries m)"
  by (simp add: absopts_def case_prod_beta comp_def)

lemma entries_distinct: "Ordered_ok m \<Longrightarrow> distinct (map fst (entries m))"
  by (simp add: Ordered_ok_def indexed_def)

lemma merge_opts_put_all: "merge_opts m t = ordered.put_all (absopts m) t"
  unfolding merge_opts_def ordered.put_all_def absopts_def by (simp add: fold_map comp_def case_prod_unfold)

section \<open>Scrubbed reads\<close>

fun withhold :: "read_error \<Rightarrow> read_error" where
  "withhold (DuplicateSection n q) = DuplicateSection n None"
| "withhold (DuplicateOption n q) = DuplicateOption n None"
| "withhold e = e"

lemma read_line_scrub:
  "read_line lower allow True n l st = (case read_line lower allow False n l st of Inl e \<Rightarrow> Inl (withhold e) | Inr st \<Rightarrow> Inr st)"
  by (auto simp: read_line_def read_header_def read_option_def Let_def split: option.splits)

lemma read_lines_scrub:
  "read_lines lower allow True n ls st = (case read_lines lower allow False n ls st of Inl e \<Rightarrow> Inl (withhold e) | Inr st \<Rightarrow> Inr st)"
  by (induction ls arbitrary: n st) (auto simp: read_line_scrub split: sum.splits)

section \<open>Every map the reader builds is sound\<close>

definition reading_ok :: "Reading \<Rightarrow> bool" where
  "reading_ok st \<longleftrightarrow>
     Ordered_ok (w_default (work st)) \<and> Ordered_ok (w_sections (work st))
     \<and> (\<forall>s \<in> set (entries (w_sections (work st))). Ordered_ok (snd s))
     \<and> (cur st = CurNone \<or> cur_valid (work st) (cur st))"

lemma cur_opts_ok: "reading_ok st \<Longrightarrow> cur_opts (work st) (cur st) = Some m \<Longrightarrow> Ordered_ok m"
  by (auto simp: reading_ok_def cur_opts_def cur_valid_def split: Cur.splits)

lemma put_opts_ok:
  assumes "reading_ok st" "Ordered_ok m" "cur st \<noteq> CurNone"
    and "work st' = put_opts ((work st)\<lparr>dups := d\<rparr>) (cur st) m" "cur st' = cur st"
  shows "reading_ok st'"
proof (cases "cur st")
  case (CurSection i)
  let ?es = "entries (w_sections (work st))"
  have "\<forall>s \<in> set (?es[i := (fst (?es ! i), m)]). Ordered_ok (snd s)"
    using assms(1,2) set_update_subset_insert by (fastforce simp: reading_ok_def)
  with CurSection assms show ?thesis
    by (simp add: reading_ok_def put_opts_def cur_valid_def set_at_ok) (simp add: set_at_def)
qed (use assms in \<open>auto simp: reading_ok_def put_opts_def cur_valid_def\<close>)

lemma push_line_ok:
  assumes "reading_ok st" "push_line (work st) (cur st) k l = Some w"
  shows "reading_ok (st\<lparr>work := w\<rparr>)"
proof -
  from assms(2) obtain m k' ls where m: "cur_opts (work st) (cur st) = Some m" "k = Some k'" "Ordered_get m k' = Some (Some ls)"
    by (auto simp: push_line_def split: option.splits)
  have ok: "Ordered_ok m" by (rule cur_opts_ok [OF assms(1) m(1)])
  have w: "w = put_opts ((work st)\<lparr>dups := dups (work st)\<rparr>) (cur st) (store k' (Some (ls @ [l])) m)"
    using assms(2) m push_line_store [OF m(1) ok m(3)] by simp
  have "cur st \<noteq> CurNone" using m(1) by (auto simp: cur_opts_def)
  then show ?thesis
    by (rule put_opts_ok [OF assms(1) ordered.ok_put [OF ok], of _ "dups (work st)" k' "Some (ls @ [l])"]) (simp_all add: w)
qed

lemma read_header_ok:
  assumes "reading_ok st" "read_header sc n name st = Inr st'"
  shows "reading_ok st'"
proof -
  let ?secs = "w_sections (work st)"
  have ok: "Ordered_ok ?secs" "\<forall>s \<in> set (entries ?secs). Ordered_ok (snd s)" using assms(1) by (simp_all add: reading_ok_def)
  have "set (upsert_list k v es) \<subseteq> insert (k, v) (set es)" for k and v :: "Acc Ordered" and es
    by (induction es) auto
  with ok have "\<forall>s \<in> set (entries (store name Ordered_new ?secs)). Ordered_ok (snd s)"
    by (fastforce simp: Ordered_insert_entries Ordered_ok_new)
  moreover have "the (Ordered_position (store name Ordered_new ?secs) name) < length (entries (store name Ordered_new ?secs))"
  proof -
    have "Ordered_get (store name Ordered_new ?secs) name \<noteq> None" using ok(1) by (simp add: ordered.look_put)
    then obtain i where "index (store name Ordered_new ?secs) name = Some i"
      by (auto simp: Ordered_get_def Ordered_position_def)
    moreover have "index (store name Ordered_new ?secs) = key_index (entries (store name Ordered_new ?secs))"
      using ordered.ok_put [OF ok(1)] by (simp add: Ordered_ok_def indexed_def)
    ultimately show ?thesis
      using key_index_Some [of "entries (store name Ordered_new ?secs)" name i] by (simp add: Ordered_position_def)
  qed
  ultimately show ?thesis
    using assms ordered.ok_put [OF ok(1)]
    by (auto simp: read_header_def reading_ok_def cur_valid_def Let_def split: if_splits)
qed

lemma read_option_ok:
  assumes "reading_ok st" "read_option lower allow sc n clean st = Inr st'" "cur st \<noteq> CurNone"
  shows "reading_ok st'"
proof -
  obtain m where m: "cur_opts (work st) (cur st) = Some m"
    using assms(3) by (cases "cur st") (auto simp: cur_opts_def)
  note ok = ordered.ok_put [OF cur_opts_ok [OF assms(1) m]]
  from assms(2) m consider "st' = st\<lparr>parse_errors := parse_errors st @ [n]\<rparr>"
    | d k acc where "st' = st\<lparr>work := put_opts ((work st)\<lparr>dups := d\<rparr>) (cur st) (store k acc m), optname := Some k\<rparr>"
    by (auto simp: read_option_def Let_def split: option.splits if_splits)
  then show ?thesis
  proof cases
    case 1
    with assms(1) show ?thesis by (simp add: reading_ok_def)
  next
    case 2
    then show ?thesis by (intro put_opts_ok [OF assms(1) ok assms(3)]) simp_all
  qed
qed

lemma read_blank_ok: "reading_ok st \<Longrightarrow> reading_ok (read_blank c st)"
  by (simp add: read_blank_def push_line_ok split: option.split)

lemma read_lineE:
  assumes "read_line lower allow sc n l st = Inr st'"
  obtains (blank) c where "st' = read_blank c st"
    | (push) clean w where "push_line (work st) (cur st) (optname st) clean = Some w" "st' = st\<lparr>work := w\<rparr>"
    | (header) clean h where "section_header clean = Some h" "read_header sc n h st = Inr st'"
    | (option) clean i where "cur st \<noteq> CurNone" "read_option lower allow sc n clean (st\<lparr>indent_level := i\<rparr>) = Inr st'"
proof -
  let ?c = "first_is is_comment (py_strip l)"
  let ?clean = "if ?c then [] else py_strip l"
  let ?in = "cur st \<noteq> CurNone \<and> optname st \<noteq> None \<and> indent_level st < length (takeWhile is_py_space l)"
  let ?st = "st\<lparr>indent_level := length (takeWhile is_py_space l)\<rparr>"
  note line = assms [unfolded read_line_def Let_def]
  consider "?clean = []" | "?clean \<noteq> []" "?in" | h where "?clean \<noteq> []" "\<not> ?in" "section_header ?clean = Some h"
    | "?clean \<noteq> []" "\<not> ?in" "section_header ?clean = None"
    by (cases "section_header ?clean") blast+
  then show thesis
  proof cases
    case 1
    with line have "st' = read_blank ?c st" by (simp only: if_True refl sum.inject)
    then show thesis by (rule blank)
  next
    case 2
    with line have "(case push_line (work st) (cur st) (optname st) ?clean of
        Some w \<Rightarrow> Inr (st\<lparr>work := w\<rparr>) | None \<Rightarrow> Inl (ContinuationWithoutValue n)) = Inr st'"
      by (simp only: if_True if_False simp_thms)
    then show thesis using push [of ?clean] by (auto split: option.splits)
  next
    case 3
    with line have "read_header sc n h st = Inr st'" by (simp only: if_True if_False option.case)
    with 3(3) show thesis by (rule header)
  next
    case 4
    with line have "(if cur st = CurNone then Inl (MissingHeader n) else read_option lower allow sc n ?clean ?st) = Inr st'"
      by (simp only: if_True if_False option.case)
    then have "cur st \<noteq> CurNone" "read_option lower allow sc n ?clean ?st = Inr st'" by (simp_all split: if_splits)
    then show thesis by (rule option)
  qed
qed

lemma read_line_ok:
  assumes "reading_ok st" "read_line lower allow sc n l st = Inr st'"
  shows "reading_ok st'"
  using assms(2)
proof (cases rule: read_lineE)
  case (option clean i)
  have "reading_ok (st\<lparr>indent_level := i\<rparr>)" using assms(1) by (simp add: reading_ok_def)
  with option show ?thesis using read_option_ok by fastforce
qed (use assms(1) read_blank_ok push_line_ok read_header_ok in auto)

lemma read_lines_ok: "reading_ok st \<Longrightarrow> read_lines lower allow sc n ls st = Inr st' \<Longrightarrow> reading_ok st'"
proof (induction ls arbitrary: n st)
  case (Cons l ls)
  then obtain st1 where "read_line lower allow sc n l st = Inr st1" "read_lines lower allow sc (n + 1) ls st1 = Inr st'"
    by (auto split: sum.splits)
  with Cons show ?case using read_line_ok by blast
qed simp

section \<open>Merging\<close>

definition cfg_maps_ok :: "ConfigFile \<Rightarrow> bool" where
  "cfg_maps_ok cfg \<longleftrightarrow>
     Ordered_ok (defaults cfg) \<and> Ordered_ok (sections cfg) \<and> (\<forall>n m. Ordered_get (sections cfg) n = Some m \<longrightarrow> Ordered_ok m)"

text \<open>The value a section itself holds for a key.\<close>

definition own :: "ustr option Ordered Ordered \<Rightarrow> ustr \<Rightarrow> ustr \<Rightarrow> ustr option option" where
  "own secs n k = (case Ordered_get secs n of None \<Rightarrow> None | Some m \<Rightarrow> Ordered_get m k)"

definition over :: "'a option \<Rightarrow> 'a option \<Rightarrow> 'a option" where
  "over new old = (case new of Some v \<Rightarrow> Some v | None \<Rightarrow> old)"

lemma over_None [simp]: "over None x = x" "over x None = x"
  by (simp_all add: over_def split: option.splits)

lemma map_of_rev: "distinct (map fst es) \<Longrightarrow> map_of (rev es) = map_of es"
  by (rule map_of_inject_set [THEN iffD2]) (simp_all add: rev_map [symmetric])

lemma merge_opts_look:
  assumes "Ordered_ok m" "Ordered_ok t"
  shows "Ordered_get (merge_opts m t) k = over (map_of (absopts m) k) (Ordered_get t k)" "Ordered_ok (merge_opts m t)"
  using assms ordered.look_put_all [OF assms(2), of "absopts m"] ordered.ok_put_all [OF assms(2), of "absopts m"]
  by (simp_all add: merge_opts_put_all over_def map_of_rev fst_absopts entries_distinct)

lemma merge_section_look:
  assumes "Ordered_ok secs"
  shows "Ordered_get (merge_section s secs) n =
      (if n = fst s then Some (merge_opts (snd s) (case Ordered_get secs n of Some m \<Rightarrow> m | None \<Rightarrow> Ordered_new))
       else Ordered_get secs n)"
    "Ordered_ok (merge_section s secs)"
proof -
  let ?secs = "if Ordered_contains secs (fst s) then secs else store (fst s) Ordered_new secs"
  have ok: "Ordered_ok ?secs" using assms by (simp add: ordered.ok_put)
  have get: "Ordered_get ?secs (fst s) = Some (case Ordered_get secs (fst s) of Some m \<Rightarrow> m | None \<Rightarrow> Ordered_new)"
    using assms by (auto simp: ordered.look_put Ordered_contains_get)
  have eq: "merge_section s secs =
      store (fst s) (merge_opts (snd s) (case Ordered_get secs (fst s) of Some m \<Rightarrow> m | None \<Rightarrow> Ordered_new)) ?secs"
    unfolding merge_section_def Let_def get_mut_store [OF ok get] by simp
  show "Ordered_ok (merge_section s secs)" unfolding eq by (rule ordered.ok_put [OF ok])
  show "Ordered_get (merge_section s secs) n =
      (if n = fst s then Some (merge_opts (snd s) (case Ordered_get secs n of Some m \<Rightarrow> m | None \<Rightarrow> Ordered_new))
       else Ordered_get secs n)"
    unfolding eq ordered.look_put [OF ok] using assms by (simp add: ordered.look_put)
qed

lemma merge_sections_look:
  assumes "Ordered_ok secs" "distinct (map fst ss)"
  shows "Ordered_get (fold merge_section ss secs) n =
      (case map_of ss n of
         None \<Rightarrow> Ordered_get secs n
       | Some m \<Rightarrow> Some (merge_opts m (case Ordered_get secs n of Some m \<Rightarrow> m | None \<Rightarrow> Ordered_new)))
    \<and> Ordered_ok (fold merge_section ss secs)"
  using assms
proof (induction ss arbitrary: secs)
  case (Cons s ss)
  note one = merge_section_look [OF Cons.prems(1), of s]
  have "map_of ss (fst s) = None" using Cons.prems(2) by (simp add: map_of_eq_None_iff)
  with Cons.IH [OF one(2)] Cons.prems(2) one(1) show ?case
    by (cases s) (auto split: option.splits)
qed simp

lemma merged_own:
  assumes ws: "Ordered_ok ws" "\<forall>s \<in> set (entries ws). Ordered_ok (snd s)"
    and secs: "Ordered_ok secs" "\<forall>n m. Ordered_get secs n = Some m \<longrightarrow> Ordered_ok m"
  shows "own (fold merge_section (entries ws) secs) n k =
    over (own (fold merge_section (entries ws) Ordered_new) n k) (own secs n k)"
proof -
  have d: "distinct (map fst (entries ws))" by (rule entries_distinct [OF ws(1)])
  note look = merge_sections_look [OF _ d, of _ n, THEN conjunct1]
  show ?thesis
  proof (cases "map_of (entries ws) n")
    case None
    then show ?thesis by (simp add: own_def look [OF secs(1)] look [OF Ordered_ok_new])
  next
    case (Some m)
    then have m: "Ordered_ok m" using ws(2) by (metis map_of_SomeD snd_conv)
    let ?old = "case Ordered_get secs n of Some m \<Rightarrow> m | None \<Rightarrow> Ordered_new"
    have old: "Ordered_ok ?old" using secs(2) Ordered_ok_new by (auto split: option.splits)
    have "Ordered_get ?old k = own secs n k" by (simp add: own_def split: option.splits)
    with Some show ?thesis
      by (simp add: own_def look [OF secs(1)] look [OF Ordered_ok_new] merge_opts_look [OF m old]
          merge_opts_look [OF m Ordered_ok_new])
  qed
qed

section \<open>Properties\<close>

text \<open>
  Scrubbing changes what is withheld and nothing else: on every text a scrubbed read succeeds exactly when
  the plain one does, with the same configuration, and fails with the same error at the same line, from
  which the quoted names are removed.
\<close>

theorem scrubbed_read_agrees:
  "read lower (cfg\<lparr>scrub := True\<rparr>) text =
     (case read lower (cfg\<lparr>scrub := False\<rparr>) text of
        Inl e \<Rightarrow> Inl (withhold e)
      | Inr cfg' \<Rightarrow> Inr (cfg'\<lparr>scrub := True\<rparr>))"
  by (auto simp: read_def merge_def read_lines_scrub split: sum.splits)

text \<open>
  A further document is layered over what a configuration holds: it is accepted exactly when it is
  accepted on its own, and then every section and \<^verbatim>\<open>DEFAULT\<close> answers with the document's value for a key the
  document gives and with what it answered before for any other. The maps stay sound.
\<close>

theorem read_layers:
  assumes "cfg_maps_ok cfg" "read lower (cfg\<lparr>defaults := Ordered_new, sections := Ordered_new\<rparr>) text = Inr doc"
  shows "\<exists>cfg'. read lower cfg text = Inr cfg'
    \<and> Ordered_get (defaults cfg') k = over (Ordered_get (defaults doc) k) (Ordered_get (defaults cfg) k)
    \<and> own (sections cfg') n k = over (own (sections doc) n k) (own (sections cfg) n k)
    \<and> Ordered_ok (defaults cfg') \<and> Ordered_ok (sections cfg')"
proof -
  from assms(2) obtain st where
    st: "read_lines lower (allow_no_value cfg) (scrub cfg) 1 (split_inclusive 10 text) Reading_start = Inr st" "parse_errors st = []"
    and doc: "doc = merge (work st) (cfg\<lparr>defaults := Ordered_new, sections := Ordered_new\<rparr>)"
    by (auto simp: read_def split: sum.splits if_splits)
  have "reading_ok Reading_start" by (simp add: reading_ok_def Reading_start_def Ordered_ok_new)
  from read_lines_ok [OF this st(1)] have ok: "Ordered_ok (w_default (work st))" "Ordered_ok (w_sections (work st))"
    "\<forall>s \<in> set (entries (w_sections (work st))). Ordered_ok (snd s)" by (simp_all add: reading_ok_def)
  have cfg: "Ordered_ok (defaults cfg)" "Ordered_ok (sections cfg)" "\<forall>n m. Ordered_get (sections cfg) n = Some m \<longrightarrow> Ordered_ok m"
    using assms(1) by (simp_all add: cfg_maps_ok_def)
  show ?thesis
    using st merged_own [OF ok(2,3) cfg(2,3), of n k] merge_opts_look [OF ok(1) cfg(1)] merge_opts_look [OF ok(1) Ordered_ok_new]
      merge_sections_look [OF cfg(2) entries_distinct [OF ok(2)]]
    by (simp add: read_def doc merge_def)
qed

theorem read_layers_witness:
  "\<exists>cfg'. read (\<lambda>s. s) ConfigFile_raw (lit ''[a]'' @ [10] @ lit ''k=v'' @ [10]) = Inr cfg' \<and> own (sections cfg') (lit ''a'') (lit ''k'') = Some (Some (lit ''v''))"
proof -
  let ?text = "lit ''[a]'' @ [10] @ lit ''k=v'' @ [10]"
  let ?doc = "projr (read (\<lambda>s. s) (ConfigFile_raw\<lparr>defaults := Ordered_new, sections := Ordered_new\<rparr>) ?text)"
  have doc: "read (\<lambda>s. s) (ConfigFile_raw\<lparr>defaults := Ordered_new, sections := Ordered_new\<rparr>) ?text = Inr ?doc"
  proof -
    have "case read (\<lambda>s. s) (ConfigFile_raw\<lparr>defaults := Ordered_new, sections := Ordered_new\<rparr>) ?text of Inl _ \<Rightarrow> False | Inr _ \<Rightarrow> True"
      by code_simp
    then show ?thesis by (auto split: sum.splits)
  qed
  have own: "own (sections ?doc) (lit ''a'') (lit ''k'') = Some (Some (lit ''v''))" by code_simp
  have "cfg_maps_ok ConfigFile_raw"
    by (simp add: cfg_maps_ok_def ConfigFile_raw_def ConfigFile_new_def Ordered_ok_new)
  from read_layers [OF this doc, of "lit ''k''" "lit ''a''"] own show ?thesis by (auto simp: over_def)
qed

end
