(* ===== verification/Config_Roundtrip.thy ===== *)
theory Config_Roundtrip
  imports Config_Parse
begin

text \<open>
  The text a configuration writes is read back as that configuration. Working out a written document line by
  line: a header opens its section, an option with the continuation lines of its value is stored under its
  name, the blank line behind a section changes nothing that counts.
\<close>

section \<open>What survives a round trip\<close>

text \<open>
  A value the reader gives back: its lines carry no white space at their ends, none but the first begins
  like a comment, and nothing blank ends it. An option name or section name is one \<^verbatim>\<open>set\<close> and \<^verbatim>\<open>add_section\<close>
  accept.
\<close>

definition value_ok :: "ustr \<Rightarrow> bool" where
  "value_ok v \<longleftrightarrow>
     list_all (\<lambda>l. py_strip l = l) (split_on (\<lambda>c. c = 10) v)
     \<and> list_all (\<lambda>l. \<not> first_is is_comment l) (tl (split_on (\<lambda>c. c = 10) v)) \<and> py_rstrip v = v"

definition option_ok :: "(ustr \<Rightarrow> ustr) \<Rightarrow> bool \<Rightarrow> ustr \<times> ustr option \<Rightarrow> bool" where
  "option_ok lower allow opt \<longleftrightarrow>
     key_fault (fst opt) = None \<and> lower (fst opt) = fst opt
     \<and> (case snd opt of None \<Rightarrow> allow | Some v \<Rightarrow> value_ok v)"

definition opts_ok :: "(ustr \<Rightarrow> ustr) \<Rightarrow> bool \<Rightarrow> ustr option Ordered \<Rightarrow> bool" where
  "opts_ok lower allow m \<longleftrightarrow> Ordered_ok m \<and> list_all (option_ok lower allow) (entries m)"

definition section_ok :: "(ustr \<Rightarrow> ustr) \<Rightarrow> bool \<Rightarrow> ustr \<times> ustr option Ordered \<Rightarrow> bool" where
  "section_ok lower allow s \<longleftrightarrow>
     section_fault (fst s) = None \<and> fst s \<noteq> DEFAULT_SECTION \<and> opts_ok lower allow (snd s)"

definition cfg_ok :: "(ustr \<Rightarrow> ustr) \<Rightarrow> ConfigFile \<Rightarrow> bool" where
  "cfg_ok lower cfg \<longleftrightarrow>
     opts_ok lower (allow_no_value cfg) (defaults cfg) \<and> Ordered_ok (sections cfg)
     \<and> list_all (section_ok lower (allow_no_value cfg)) (entries (sections cfg))"

section \<open>Single lines\<close>

lemma py_space_lf [simp]: "is_py_space 10" "is_py_space 9" "is_py_space 32"
  by (simp_all add: is_py_space_def is_whitespace_def)

lemma py_space_punct [simp]: "\<not> is_py_space 0x5B" "\<not> is_py_space 0x5D" "\<not> is_py_space 0x3D"
  by (simp_all add: is_py_space_def is_whitespace_def)

lemma first_is_simps [simp]: "first_is p (c # s) \<longleftrightarrow> p c" "\<not> first_is p []"
  by (simp_all add: first_is_def)

lemma first_is_append: "s \<noteq> [] \<Longrightarrow> first_is p (s @ t) \<longleftrightarrow> first_is p s"
  by (cases s) simp_all

lemma first_is_rev: "s \<noteq> [] \<Longrightarrow> first_is p (rev s) \<longleftrightarrow> p (last s)"
  by (cases s rule: rev_cases) simp_all

lemma stripped_ends: "py_strip l = l \<longleftrightarrow> l = [] \<or> \<not> is_py_space (hd l) \<and> \<not> is_py_space (last l)"
  unfolding py_strip_def using trim_matches_ends [of is_py_space l] trim_matches_id [of l is_py_space] by metis

lemma py_strip_lf: "py_strip (l @ [10]) = py_strip l"
  by (simp add: py_strip_def trim_matches_append_all)

lemma py_strip_tab: "py_strip (9 # l) = py_strip l"
  using trim_matches_prepend_all [of "[9]" is_py_space l] by (simp add: py_strip_def)

lemma py_strip_space: "py_strip (32 # l) = py_strip l"
  using trim_matches_prepend_all [of "[32]" is_py_space l] by (simp add: py_strip_def)

lemma section_header_bracketed:
  assumes "name \<noteq> []"
  shows "section_header ([0x5B] @ name @ [0x5D]) = Some name"
proof -
  have "rposition (\<lambda>c. c = 0x5D) ([0x5B] @ name @ [0x5D]) = Some (Suc (length name))"
    by (simp add: rposition_def)
  with assms show ?thesis by (simp add: section_header_def slice_def)
qed

text \<open>A name that passes the screen.\<close>

lemma key_fault_None:
  assumes "key_fault k = None"
  shows "k \<noteq> []" "10 \<notin> set k" "\<forall>c \<in> set k. \<not> is_delim c" "\<not> is_py_space (hd k)" "\<not> is_py_space (last k)"
    "hd k \<noteq> 0x5B" "\<not> is_comment (hd k)"
proof -
  have "k \<noteq> [] \<and> 10 \<notin> set k \<and> (\<forall>c \<in> set k. \<not> is_delim c) \<and> \<not> is_py_space (hd k) \<and> \<not> is_py_space (last k)
      \<and> hd k \<noteq> 0x5B \<and> \<not> is_comment (hd k)"
    using assms first_is_rev [of k is_py_space]
    by (cases k) (auto simp: key_fault_def list_ex_iff is_eol_def split: if_splits)
  then show "k \<noteq> []" "10 \<notin> set k" "\<forall>c \<in> set k. \<not> is_delim c" "\<not> is_py_space (hd k)" "\<not> is_py_space (last k)"
    "hd k \<noteq> 0x5B" "\<not> is_comment (hd k)" by auto
qed

definition is_delimiter :: "ustr \<Rightarrow> bool" where
  "is_delimiter delim \<longleftrightarrow> delim = lit '' = '' \<or> delim = lit ''=''"

lemma parse_option_written:
  assumes k: "key_fault k = None" and d: "is_delimiter delim" and l: "py_strip l = l"
  shows "parse_option (py_strip (k @ delim @ l)) allow = Some (k, Some l)"
    "first_is p (py_strip (k @ delim @ l)) = p (hd k)" "py_strip (k @ delim @ l) \<noteq> []"
proof -
  note k' = key_fault_None [OF k]
  have pos: "position is_delim k = None" using k'(3) by (simp add: position_None)
  have rs: "py_rstrip k = k" "py_rstrip (k @ [32]) = k"
    using k' by (simp_all add: py_rstrip_def trim_end_id trim_end_snoc)
  have dl: "is_delim 0x3D" "\<not> is_delim 32" by (simp_all add: is_delim_def)
  have strip: "py_strip (k @ delim @ l) = (if l = [] then k @ py_rstrip delim else k @ delim @ l)"
  proof (cases "l = []")
    case True
    have "py_strip (k @ [0x3D]) = k @ [0x3D]" "py_strip (k @ [32, 0x3D]) = k @ [32, 0x3D]"
      using k' by (simp_all add: stripped_ends hd_append)
    moreover have "py_strip (k @ [32, 0x3D] @ [32]) = py_strip (k @ [32, 0x3D])"
      using trim_matches_append_all [of "[32]" is_py_space "k @ [32, 0x3D]"] by (simp add: py_strip_def)
    ultimately show ?thesis
      using True d by (auto simp: is_delimiter_def py_rstrip_def trim_end_matches_def)
  next
    case False
    then have "k @ delim @ l \<noteq> []" "last (k @ delim @ l) = last l" "hd (k @ delim @ l) = hd k"
      using k'(1) by (simp_all add: hd_append)
    moreover have "\<not> is_py_space (last l)" using l False by (simp add: stripped_ends)
    ultimately have "py_strip (k @ delim @ l) = k @ delim @ l"
      using k'(4) by (simp only: stripped_ends) simp
    with False show ?thesis by simp
  qed
  show "parse_option (py_strip (k @ delim @ l)) allow = Some (k, Some l)"
    using d rs dl l strip py_strip_space [of l]
    by (auto simp: parse_option_def is_delimiter_def position_append pos py_rstrip_def trim_end_matches_def py_strip_def
        trim_matches_def trim_start_matches_def)
  show "first_is p (py_strip (k @ delim @ l)) = p (hd k)" "py_strip (k @ delim @ l) \<noteq> []"
    unfolding strip using k'(1) by (cases k; simp)+
qed

lemma absopts_store_new:
  "Ordered_ok m \<Longrightarrow> k \<notin> fst ` set (entries m) \<Longrightarrow> absopts (store k acc m) = absopts m @ [(k, join_acc acc)]"
  by (simp add: absopts_def Ordered_insert_entries upsert_list_new)

lemma map_upsert_same:
  "map_of es k = Some a \<Longrightarrow> distinct (map fst es) \<Longrightarrow> f a' = f a
    \<Longrightarrow> map (\<lambda>(k, a). (k, f a)) (upsert_list k a' es) = map (\<lambda>(k, a). (k, f a)) es"
  by (induction es) (auto split: if_splits)

lemma absopts_store_same:
  "Ordered_ok m \<Longrightarrow> Ordered_get m k = Some acc \<Longrightarrow> join_acc acc' = join_acc acc \<Longrightarrow> absopts (store k acc' m) = absopts m"
  unfolding absopts_def
  by (simp add: Ordered_insert_entries Ordered_get_map_of map_upsert_same Ordered_ok_def indexed_def)

lemma join_acc_blank: "ls \<noteq> [] \<Longrightarrow> join_acc (Some (ls @ [[]])) = join_acc (Some ls)"
proof -
  assume "ls \<noteq> []"
  then have "join_lines [10] (ls @ [[]]) = join_lines [10] ls @ [10]"
    by (induction ls rule: induct_list012) auto
  then show ?thesis by (simp add: join_acc_def py_rstrip_def trim_end_append_all)
qed

lemma join_acc_split: "py_rstrip v = v \<Longrightarrow> join_acc (Some (split_on (\<lambda>c. c = 10) v)) = Some v"
  by (simp add: join_acc_def split_on_join)

section \<open>Reading what was written\<close>

lemma read_lines_append:
  "read_lines lower allow sc n (xs @ ys) st =
     (case read_lines lower allow sc n xs st of Inl e \<Rightarrow> Inl e | Inr st' \<Rightarrow> read_lines lower allow sc (n + length xs) ys st')"
  by (induction xs arbitrary: n st) (auto split: sum.splits)

text \<open>Continuation lines extend the open value, a blank one by an empty line.\<close>

lemma read_continuation_line:
  assumes "cur_valid (work st) (cur st)" "cur_opts (work st) (cur st) = Some opts" "Ordered_ok opts"
    and "Ordered_get opts k = Some (Some ls)" "optname st = Some k" "indent_level st = 0"
    and "py_strip l = l" "\<not> first_is is_comment l"
  shows "read_line lower allow sc n (9 # l @ [10]) st =
    Inr (st\<lparr>work := put_opts (work st) (cur st) (store k (Some (ls @ [l])) opts)\<rparr>)"
proof -
  have strip: "py_strip (9 # l @ [10]) = l"
    using assms(7) by (simp add: py_strip_tab py_strip_lf)
  note push = push_line_store [OF assms(2-4)]
  show ?thesis
    using assms(1,5,6,8) cur_valid_opts [OF assms(1)]
    by (auto simp: read_line_def strip read_blank_def push Let_def)
qed

lemma read_continuation:
  assumes "cur_valid (work st) (cur st)" "cur_opts (work st) (cur st) = Some opts" "Ordered_ok opts"
    and "Ordered_get opts k = Some (Some ls)" "optname st = Some k" "indent_level st = 0"
    and "\<forall>l \<in> set ms. py_strip l = l \<and> \<not> first_is is_comment l"
  shows "read_lines lower allow sc n (map (\<lambda>l. 9 # l @ [10]) ms) st =
    Inr (st\<lparr>work := put_opts (work st) (cur st) (store k (Some (ls @ ms)) opts)\<rparr>)"
  using assms
proof (induction ms arbitrary: n st opts ls)
  case Nil
  have "store k (Some ls) opts = opts"
    using Nil.prems(3,4) by (rule store_same)
  moreover have "put_opts (work st) (cur st) opts = work st"
    using Nil.prems(1,2) by (cases "cur st") (auto simp: put_opts_def cur_opts_def cur_valid_def set_at_def)
  ultimately show ?case by simp
next
  case (Cons l ms)
  let ?opts = "store k (Some (ls @ [l])) opts"
  let ?st = "st\<lparr>work := put_opts (work st) (cur st) ?opts\<rparr>"
  have line: "read_line lower allow sc n (9 # l @ [10]) st = Inr ?st"
    using Cons.prems by (intro read_continuation_line) auto
  have "read_lines lower allow sc (n + 1) (map (\<lambda>l. 9 # l @ [10]) ms) ?st
      = Inr (?st\<lparr>work := put_opts (work ?st) (cur ?st) (store k (Some ((ls @ [l]) @ ms)) ?opts)\<rparr>)"
    using Cons.prems by (intro Cons.IH) (simp_all add: ordered.ok_put ordered.look_put)
  then show ?case by (simp add: line store_store [OF Cons.prems(3)])
qed

text \<open>The lines of a written option.\<close>

definition option_lines :: "ustr \<Rightarrow> ustr \<times> ustr option \<Rightarrow> ustr list" where
  "option_lines delim opt =
     (case snd opt of
        None \<Rightarrow> [fst opt]
      | Some v \<Rightarrow> (fst opt @ delim @ hd (split_on (\<lambda>c. c = 10) v)) # map ((#) 9) (tl (split_on (\<lambda>c. c = 10) v)))"

definition opt_acc :: "ustr option \<Rightarrow> Acc" where
  "opt_acc v = map_option (split_on (\<lambda>c. c = 10)) v"

lemma join_tab: "concat (map (\<lambda>l. l @ [10]) (l # map ((#) 9) ls)) = join_lines [10, 9] (l # ls) @ [10]"
proof (induction ls arbitrary: l)
  case (Cons m ls)
  from Cons [of m] show ?case by (simp add: join_lines_Cons)
qed simp

lemma write_option_lines:
  assumes "option_ok lower allow opt"
  shows "write_option delim allow opt = concat (map (\<lambda>l. l @ [10]) (option_lines delim opt))"
proof (cases "snd opt")
  case None
  with assms show ?thesis by (cases opt) (simp add: write_option_def option_lines_def option_ok_def)
next
  case (Some v)
  obtain l ls where ls: "split_on (\<lambda>c. c = 10) v = l # ls" by (cases "split_on (\<lambda>c. c = 10) v") auto
  have no_lf: "\<forall>m \<in> set (l # ls). 10 \<notin> set m" using split_on_lines [of _ 10 v] by (simp add: ls)
  have v: "v = join_lines [10] (l # ls)" using split_on_join [of 10 v] by (simp add: ls)
  have "(if 10 \<in> set v then replace_char 10 [10, 9] v else v) = replace_char 10 [10, 9] v"
    by (simp add: replace_char_id)
  also have "\<dots> = join_lines [10, 9] (l # ls)" unfolding v by (rule replace_char_join [OF no_lf])
  finally have "(if 10 \<in> set v then replace_char 10 [10, 9] v else v) @ [10] = concat (map (\<lambda>l. l @ [10]) (l # map ((#) 9) ls))"
    by (simp only: join_tab)
  with Some ls show ?thesis by (cases opt) (simp add: write_option_def option_lines_def)
qed

lemma opt_acc_join: "option_ok lower allow opt \<Longrightarrow> join_acc (opt_acc (snd opt)) = snd opt"
  by (cases "snd opt") (auto simp: opt_acc_def option_ok_def value_ok_def join_acc_split, simp add: join_acc_def)

definition with_option :: "ustr \<times> ustr option \<Rightarrow> Acc Ordered \<Rightarrow> Reading \<Rightarrow> Reading" where
  "with_option opt opts st =
     st\<lparr>work := put_opts ((work st)\<lparr>dups := insert (SectionId_of (cur st), fst opt) (dups (work st))\<rparr>) (cur st)
          (store (fst opt) (opt_acc (snd opt)) opts), optname := Some (fst opt), indent_level := 0\<rparr>"

lemma no_header: "hd k \<noteq> 0x5B \<Longrightarrow> first_is (\<lambda>c. c = 0x5B) clean = (hd k = 0x5B) \<Longrightarrow> section_header clean = None"
  by (simp add: section_header_def)

lemma takeWhile_key: "k \<noteq> [] \<Longrightarrow> \<not> is_py_space (hd k) \<Longrightarrow> takeWhile is_py_space (k @ r) = []"
  by (cases k) simp_all

lemma read_key_line:
  assumes cur: "cur_valid (work st) (cur st)" "cur_opts (work st) (cur st) = Some opts"
    and k: "key_fault k = None" "lower k = k" "(SectionId_of (cur st), k) \<notin> dups (work st)"
    and clean: "py_strip line = clean" "clean \<noteq> []" "\<And>p. first_is p clean = p (hd k)" "takeWhile is_py_space line = []"
    and parse: "parse_option clean allow = Some (k, v)"
  shows "read_line lower allow sc n line st =
    Inr (st\<lparr>work := put_opts ((work st)\<lparr>dups := insert (SectionId_of (cur st), k) (dups (work st))\<rparr>) (cur st)
          (store k (map_option (\<lambda>v. [v]) v) opts), optname := Some k, indent_level := 0\<rparr>)"
proof -
  note k' = key_fault_None [OF k(1)]
  have "\<not> first_is is_comment clean" using clean(3) k'(7) by simp
  moreover have "section_header clean = None" using no_header [OF k'(6)] clean(3) by simp
  moreover have "cur st \<noteq> CurNone" using cur_valid_opts [OF cur(1)] .
  ultimately show ?thesis
    using k' k(2,3) clean cur parse
    by (simp add: read_line_def Let_def read_option_def optionxform_def)
qed

lemma read_written_option:
  assumes cur: "cur_valid (work st) (cur st)" "cur_opts (work st) (cur st) = Some opts" "Ordered_ok opts"
    and opt: "option_ok lower allow opt" "(SectionId_of (cur st), fst opt) \<notin> dups (work st)" and d: "is_delimiter delim"
  shows "read_lines lower allow sc n (map (\<lambda>l. l @ [10]) (option_lines delim opt)) st = Inr (with_option opt opts st)"
proof -
  obtain k v where [simp]: "opt = (k, v)" by (cases opt)
  have k: "key_fault k = None" "lower k = k" "(SectionId_of (cur st), k) \<notin> dups (work st)"
    using opt by (simp_all add: option_ok_def)
  note k' = key_fault_None [OF k(1)]
  show ?thesis
  proof (cases v)
    case None
    have strip: "py_strip (k @ [10]) = k" using k' by (simp add: py_strip_lf stripped_ends)
    have "py_rstrip k = k" using k' by (simp add: py_rstrip_def trim_end_id)
    moreover have "position is_delim k = None" using k'(3) by (simp add: position_None)
    ultimately have "parse_option k allow = Some (k, None)"
      using opt(1) None by (simp add: parse_option_def option_ok_def)
    then have "read_line lower allow sc n (k @ [10]) st = Inr (with_option opt opts st)"
      using read_key_line [where st = st and lower = lower and clean = k and k = k, OF cur(1,2) k strip] k' None
      by (auto simp: takeWhile_key with_option_def opt_acc_def first_is_def split: list.splits)
    with None show ?thesis by (simp add: option_lines_def)
  next
    case (Some u)
    obtain l ls where ls: "split_on (\<lambda>c. c = 10) u = l # ls" by (cases "split_on (\<lambda>c. c = 10) u") auto
    have l: "py_strip l = l" and rest: "\<forall>m \<in> set ls. py_strip m = m \<and> \<not> first_is is_comment m"
      using opt(1) Some ls by (auto simp: option_ok_def value_ok_def list_all_iff)
    let ?line = "k @ delim @ l @ [10]"
    have strip: "py_strip ?line = py_strip (k @ delim @ l)"
      using py_strip_lf [of "k @ delim @ l"] by simp
    let ?opts = "store k (Some [l]) opts"
    let ?st = "st\<lparr>work := put_opts ((work st)\<lparr>dups := insert (SectionId_of (cur st), k) (dups (work st))\<rparr>) (cur st) ?opts,
        optname := Some k, indent_level := 0\<rparr>"
    have first: "read_line lower allow sc n ?line st = Inr ?st"
      using read_key_line [where st = st and lower = lower and clean = "py_strip (k @ delim @ l)" and k = k, OF cur(1,2) k strip]
        parse_option_written [OF k(1) d l] k' by (simp add: takeWhile_key)
    have "read_lines lower allow sc (n + 1) (map (\<lambda>l. 9 # l @ [10]) ls) ?st
        = Inr (?st\<lparr>work := put_opts (work ?st) (cur ?st) (store k (Some ([l] @ ls)) ?opts)\<rparr>)"
      using cur rest by (intro read_continuation) (simp_all add: ordered.ok_put ordered.look_put)
    then show ?thesis
      using Some ls first by (simp add: option_lines_def with_option_def opt_acc_def store_store [OF cur(3)] comp_def)
  qed
qed

text \<open>
  A run of written options. The open section is the reader's \<open>opts\<close>; what the run leaves of everything
  else is the state it started from.
\<close>

definition same_elsewhere :: "Reading \<Rightarrow> Reading \<Rightarrow> ustr set \<Rightarrow> bool" where
  "same_elsewhere st st' ks \<longleftrightarrow>
     cur st' = cur st \<and> parse_errors st' = parse_errors st
     \<and> (\<exists>m. work st' = put_opts ((work st)\<lparr>dups := dups (work st) \<union> Pair (SectionId_of (cur st)) ` ks\<rparr>) (cur st) m)"

lemma same_elsewhere_refl:
  assumes "cur_valid (work st) (cur st)"
  shows "same_elsewhere st st {}"
proof -
  from assms have "put_opts (work st) (cur st) (the (cur_opts (work st) (cur st))) = work st"
    by (cases "cur st") (auto simp: cur_valid_def put_opts_def cur_opts_def set_at_def)
  then show ?thesis unfolding same_elsewhere_def by (metis Un_empty_right Work.surjective Work.update_convs(3) image_empty)
qed

lemma same_elsewhere_trans:
  "same_elsewhere st st' ks \<Longrightarrow> same_elsewhere st' st'' ks' \<Longrightarrow> same_elsewhere st st'' (ks \<union> ks')"
  by (auto simp: same_elsewhere_def image_Un Un_assoc simp del: put_opts_dups(2) simp flip: put_opts_dups(2))

lemma same_elsewhere_with: "same_elsewhere st (with_option opt opts st) {fst opt}"
  by (auto simp: same_elsewhere_def with_option_def)

lemma same_elsewhere_valid: "same_elsewhere st st' ks \<Longrightarrow> cur_valid (work st) (cur st) \<Longrightarrow> cur_valid (work st') (cur st')"
  by (auto simp: same_elsewhere_def)

definition open_opts :: "Reading \<Rightarrow> (ustr \<times> ustr option) list \<Rightarrow> bool" where
  "open_opts st es \<longleftrightarrow>
     cur_valid (work st) (cur st) \<and> (\<exists>m. cur_opts (work st) (cur st) = Some m \<and> Ordered_ok m \<and> absopts m = es)"

lemma open_with_option:
  assumes "cur_valid (work st) (cur st)" "Ordered_ok opts" "fst opt \<notin> fst ` set (absopts opts)" "option_ok lower allow opt"
  shows "open_opts (with_option opt opts st) (absopts opts @ [opt])"
proof -
  have "fst opt \<notin> fst ` set (entries opts)" using assms(3) fst_absopts [of opts] by (metis set_map)
  then show ?thesis
    using assms(1,2) opt_acc_join [OF assms(4)]
    by (simp add: open_opts_def with_option_def ordered.ok_put absopts_store_new)
qed

lemma read_written_options:
  assumes "open_opts st es" "list_all (option_ok lower allow) os" "distinct (map fst (es @ os))"
    and "\<forall>k \<in> fst ` set os. (SectionId_of (cur st), k) \<notin> dups (work st)" "is_delimiter delim"
  shows "\<exists>st'. read_lines lower allow sc n (map (\<lambda>l. l @ [10]) (concat (map (option_lines delim) os))) st = Inr st'
    \<and> open_opts st' (es @ os) \<and> same_elsewhere st st' (fst ` set os)"
  using assms
proof (induction os arbitrary: st es n)
  case Nil
  then show ?case by (auto simp: same_elsewhere_refl open_opts_def)
next
  case (Cons opt os)
  from Cons.prems(1) obtain m where cur: "cur_valid (work st) (cur st)" "cur_opts (work st) (cur st) = Some m" "Ordered_ok m"
    and m: "absopts m = es" by (auto simp: open_opts_def)
  have opt: "option_ok lower allow opt" "(SectionId_of (cur st), fst opt) \<notin> dups (work st)" using Cons.prems(2,4) by auto
  let ?st = "with_option opt m st"
  note first = read_written_option [OF cur opt Cons.prems(5), of sc n]
  have "open_opts ?st (es @ [opt])"
    using open_with_option [OF cur(1,3) _ opt(1)] Cons.prems(3) by (auto simp: m)
  moreover have "\<forall>k \<in> fst ` set os. (SectionId_of (cur ?st), k) \<notin> dups (work ?st)"
  proof
    fix k
    assume k: "k \<in> fst ` set os"
    moreover have "fst opt \<notin> fst ` set os" using Cons.prems(3) by simp
    ultimately have "k \<noteq> fst opt" by metis
    moreover have "(SectionId_of (cur st), k) \<notin> dups (work st)" using k Cons.prems(4) by auto
    ultimately show "(SectionId_of (cur ?st), k) \<notin> dups (work ?st)" by (simp add: with_option_def)
  qed
  ultimately obtain st' where
    st': "read_lines lower allow sc (n + length (option_lines delim opt)) (map (\<lambda>l. l @ [10]) (concat (map (option_lines delim) os))) ?st = Inr st'"
      "open_opts st' (es @ opt # os)" "same_elsewhere ?st st' (fst ` set os)"
    using Cons.IH [of ?st "es @ [opt]" "n + length (option_lines delim opt)"] Cons.prems(2,3,5) by auto
  have "same_elsewhere st st' (fst ` set (opt # os))"
    using same_elsewhere_trans [OF same_elsewhere_with st'(3)] by (simp add: insert_is_Un [symmetric])
  with st' first show ?case by (auto simp: read_lines_append)
qed

lemma read_blank_line:
  assumes "open_opts st es"
  shows "\<exists>st'. read_line lower allow sc n [10] st = Inr st' \<and> open_opts st' es \<and> same_elsewhere st st' {}
    \<and> optname st' = optname st"
proof -
  from assms obtain m where cur: "cur_valid (work st) (cur st)" "cur_opts (work st) (cur st) = Some m" "Ordered_ok m"
    and m: "absopts m = es" by (auto simp: open_opts_def)
  have blank: "read_line lower allow sc n [10] st = Inr (read_blank False st)"
    by (simp add: read_line_def py_strip_def trim_matches_def trim_start_matches_def trim_end_matches_def)
  show ?thesis
  proof (cases "push_line (work st) (cur st) (optname st) []")
    case None
    with assms cur blank same_elsewhere_refl [OF cur(1)] show ?thesis by (simp add: read_blank_def)
  next
    case (Some w)
    then obtain k ls where k: "optname st = Some k" "Ordered_get m k = Some (Some ls)"
      by (auto simp: push_line_def cur split: option.splits)
    have w: "w = put_opts (work st) (cur st) (store k (Some (ls @ [[]])) m)"
      using Some k push_line_store [OF cur(2,3) k(2)] by simp
    have same: "same_elsewhere st (read_blank False st) {}"
      using Some by (auto simp: same_elsewhere_def read_blank_def w)
    show ?thesis
    proof (cases "ls = []")
      case False
      then have "absopts (store k (Some (ls @ [[]])) m) = es"
        using absopts_store_same [OF cur(3) k(2)] join_acc_blank m by simp
      with Some blank same cur show ?thesis
        by (simp add: read_blank_def open_opts_def w ordered.ok_put)
    next
      case True
      have "join_acc (Some [[]]) = join_acc (Some [])" by (simp add: join_acc_def)
      then have "absopts (store k (Some (ls @ [[]])) m) = es"
        using absopts_store_same [OF cur(3) k(2)] m True by simp
      with Some blank same cur show ?thesis
        by (simp add: read_blank_def open_opts_def w ordered.ok_put)
    qed
  qed
qed

text \<open>The state between two sections: what has been read so far.\<close>

definition doc_ok :: "Reading \<Rightarrow> (ustr \<times> ustr option) list \<Rightarrow> (ustr \<times> (ustr \<times> ustr option) list) list \<Rightarrow> bool" where
  "doc_ok st D S \<longleftrightarrow>
     (let w = work st
      in Ordered_ok (w_default w) \<and> absopts (w_default w) = D
         \<and> Ordered_ok (w_sections w) \<and> (\<forall>s \<in> set (entries (w_sections w)). Ordered_ok (snd s))
         \<and> map (\<lambda>(n, m). (n, absopts m)) (entries (w_sections w)) = S \<and> added_sections w = fst ` set S
         \<and> dups w = Pair SidDefault ` fst ` set D \<union> (\<Union>i < length S. Pair (SidAt i) ` fst ` set (snd (S ! i)))
         \<and> parse_errors st = [])"

lemma doc_ok_start: "doc_ok Reading_start [] []"
  by (simp add: doc_ok_def Reading_start_def Ordered_ok_new absopts_def)

lemma put_opts_other [simp]:
  "added_sections (put_opts w c m) = added_sections w" "parse_errors (st\<lparr>work := w\<rparr>) = parse_errors st"
  by (cases c; simp add: put_opts_def)+

text \<open>Filling the section that was opened last.\<close>

lemma doc_fill_section:
  assumes "doc_ok st D (S @ [(n, [])])" "cur st = CurSection (length S)"
    and "same_elsewhere st st' (fst ` set os)" "open_opts st' os"
  shows "doc_ok st' D (S @ [(n, os)])"
proof -
  from assms(3) obtain m where cur': "cur st' = cur st" and pe: "parse_errors st' = parse_errors st"
    and w: "work st' = put_opts ((work st)\<lparr>dups := dups (work st) \<union> Pair (SidAt (length S)) ` fst ` set os\<rparr>) (cur st) m"
    by (auto simp: same_elsewhere_def assms(2) SectionId_of_def)
  let ?es = "entries (w_sections (work st))"
  have S: "map (\<lambda>(n, m). (n, absopts m)) ?es = S @ [(n, [])]" using assms(1) by (simp add: doc_ok_def Let_def)
  then have len: "length ?es = Suc (length S)" by (metis length_append_singleton length_map)
  have m: "Ordered_ok m" "absopts m = os"
    using assms(4) unfolding open_opts_def cur' w assms(2) by (auto simp: cur_valid_def put_opts_def cur_opts_def set_at_def)
  obtain es mm where es: "?es = es @ [(n, mm)]" "length es = length S" "map (\<lambda>(n, m). (n, absopts m)) es = S"
    using S len by (cases ?es rule: rev_cases) auto
  have secs: "entries (w_sections (work st')) = es @ [(n, m)]"
    by (simp add: w assms(2) put_opts_def set_at_def es nth_append) (simp flip: es(2))
  have "map fst (entries (w_sections (work st'))) = map fst ?es" by (simp add: secs es)
  then have ok: "Ordered_ok (w_sections (work st'))"
    using assms(1) set_at_ok [of "w_sections (work st)" "length S" "\<lambda>_. m"]
    by (simp add: w assms(2) put_opts_def doc_ok_def Let_def)
  have dup: "dups (work st') = dups (work st) \<union> Pair (SidAt (length S)) ` fst ` set os" by (simp add: w)
  have "(\<Union>i < length (S @ [(n, os)]). Pair (SidAt i) ` fst ` set (snd ((S @ [(n, os)]) ! i)))
      = (\<Union>i < length (S @ [(n, [])]). Pair (SidAt i) ` fst ` set (snd ((S @ [(n, [])]) ! i))) \<union> Pair (SidAt (length S)) ` fst ` set os"
    by (auto simp: lessThan_Suc nth_append)
  with assms(1) secs ok m es pe dup show ?thesis
    by (simp add: doc_ok_def Let_def Un_assoc) (simp add: w assms(2) put_opts_def)
qed

lemma doc_fill_default:
  assumes "doc_ok st [] []" "cur st = CurDefault" "same_elsewhere st st' (fst ` set os)" "open_opts st' os"
  shows "doc_ok st' os []"
proof -
  from assms(3) obtain m where cur': "cur st' = cur st" and pe: "parse_errors st' = parse_errors st"
    and w: "work st' = put_opts ((work st)\<lparr>dups := dups (work st) \<union> Pair SidDefault ` fst ` set os\<rparr>) (cur st) m"
    by (auto simp: same_elsewhere_def assms(2) SectionId_of_def)
  have "Ordered_ok m" "absopts m = os"
    using assms(4) unfolding open_opts_def cur' w assms(2) by (auto simp: put_opts_def cur_opts_def)
  with assms(1) pe show ?thesis
    by (simp add: doc_ok_def Let_def w assms(2) put_opts_def)
qed

text \<open>Opening a section.\<close>

lemma read_header_line:
  assumes "name \<noteq> []"
  shows "read_line lower allow sc n ([0x5B] @ name @ [0x5D, 10]) st = read_header sc n name st"
proof -
  have "py_strip ([0x5B] @ name @ [0x5D, 10]) = py_strip ([0x5B] @ name @ [0x5D])"
    using py_strip_lf [of "[0x5B] @ name @ [0x5D]"] by simp
  also have "\<dots> = [0x5B] @ name @ [0x5D]" by (simp add: stripped_ends)
  finally have strip: "py_strip ([0x5B] @ name @ [0x5D, 10]) = [0x5B] @ name @ [0x5D]" .
  show ?thesis
    unfolding read_line_def strip using section_header_bracketed [OF assms]
    by (simp add: is_comment_def)
qed

lemma open_section:
  assumes "doc_ok st D S" "name \<notin> fst ` set S" "name \<noteq> DEFAULT_SECTION"
  shows "\<exists>st'. read_header sc n name st = Inr st' \<and> doc_ok st' D (S @ [(name, [])]) \<and> open_opts st' []
    \<and> cur st' = CurSection (length S)"
proof -
  let ?w = "work st"
  let ?secs = "store name Ordered_new (w_sections ?w)"
  have ok: "Ordered_ok (w_sections ?w)" and S: "map (\<lambda>(n, m). (n, absopts m)) (entries (w_sections ?w)) = S"
    using assms(1) by (simp_all add: doc_ok_def Let_def)
  have "map fst S = map fst (entries (w_sections ?w))" by (simp flip: S add: case_prod_beta comp_def)
  then have new: "name \<notin> fst ` set (entries (w_sections ?w))" using assms(2) by (metis set_map)
  have es: "entries ?secs = entries (w_sections ?w) @ [(name, Ordered_new)]"
    using ok new by (simp add: Ordered_insert_entries upsert_list_new)
  have "index (w_sections ?w) name = None"
    using ok new key_index_None [of "entries (w_sections ?w)" name] by (simp add: Ordered_ok_def indexed_def)
  then have pos: "Ordered_position ?secs name = Some (length (entries (w_sections ?w)))"
    by (simp add: Ordered_insert_def Ordered_position_def)
  have len: "length (entries (w_sections ?w)) = length S" by (simp flip: S)
  have empty: "absopts Ordered_new = []" by (simp add: absopts_def)
  have "dups ?w = Pair SidDefault ` fst ` set D
      \<union> (\<Union>i < length (S @ [(name, [])]). Pair (SidAt i) ` fst ` set (snd ((S @ [(name, [])]) ! i)))"
    using assms(1) by (auto simp: doc_ok_def Let_def lessThan_Suc nth_append)
  with assms es pos len ok S empty show ?thesis
    by (auto simp: read_header_def doc_ok_def Let_def open_opts_def cur_valid_def cur_opts_def Ordered_ok_new nth_append
        Ordered_insert_entries(2))
qed

section \<open>Whole documents\<close>

definition section_lines :: "ustr \<Rightarrow> ustr \<times> ustr option Ordered \<Rightarrow> ustr list" where
  "section_lines delim s = ([0x5B] @ fst s @ [0x5D]) # concat (map (option_lines delim) (entries (snd s))) @ [[]]"

lemma write_section_lines:
  assumes "opts_ok lower allow (snd s)"
  shows "write_section delim allow s = concat (map (\<lambda>l. l @ [10]) (section_lines delim s))"
proof -
  have "map (write_option delim allow) (entries (snd s)) =
      map (\<lambda>opt. concat (map (\<lambda>l. l @ [10]) (option_lines delim opt))) (entries (snd s))"
    using assms by (auto simp: opts_ok_def list_all_iff write_option_lines)
  then show ?thesis
    unfolding write_section_def section_lines_def by (simp only:) (simp add: concat_map_concat comp_def)
qed

lemma option_lines_no_lf:
  assumes "option_ok lower allow opt" "is_delimiter delim" "l \<in> set (option_lines delim opt)"
  shows "10 \<notin> set l"
proof -
  have k: "10 \<notin> set (fst opt)" using assms(1) key_fault_None by (auto simp: option_ok_def)
  have d: "10 \<notin> set delim" using assms(2) by (auto simp: is_delimiter_def)
  show ?thesis
  proof (cases "snd opt")
    case None
    with assms(3) k show ?thesis by (simp add: option_lines_def)
  next
    case (Some v)
    obtain m ms where "split_on (\<lambda>c. c = 10) v = m # ms" by (cases "split_on (\<lambda>c. c = 10) v") auto
    moreover from this have "\<forall>x \<in> set (m # ms). 10 \<notin> set x" using split_on_lines [of _ 10 v] by simp
    ultimately show ?thesis using assms(3) k d Some by (auto simp: option_lines_def)
  qed
qed

lemma section_lines_no_lf:
  assumes "opts_ok lower allow (snd s)" "10 \<notin> set (fst s)" "is_delimiter delim" "l \<in> set (section_lines delim s)"
  shows "10 \<notin> set l"
  using assms option_lines_no_lf [OF _ assms(3)] by (fastforce simp: section_lines_def opts_ok_def list_all_iff)

lemma read_open_section:
  assumes "open_opts st []" "opts_ok lower allow m" "is_delimiter delim"
    and "\<forall>k \<in> fst ` set (entries m). (SectionId_of (cur st), k) \<notin> dups (work st)"
  shows "\<exists>st'. read_lines lower allow sc n (map (\<lambda>l. l @ [10]) (concat (map (option_lines delim) (entries m)) @ [[]])) st = Inr st'
    \<and> open_opts st' (entries m) \<and> same_elsewhere st st' (fst ` set (entries m))"
proof -
  obtain st1 where st1: "read_lines lower allow sc n (map (\<lambda>l. l @ [10]) (concat (map (option_lines delim) (entries m)))) st = Inr st1"
    "open_opts st1 (entries m)" "same_elsewhere st st1 (fst ` set (entries m))"
    using read_written_options [OF assms(1), of lower allow "entries m" delim sc n] assms(2-4)
    by (auto simp: opts_ok_def entries_distinct)
  obtain st2 where "read_line lower allow sc (n + length (concat (map (option_lines delim) (entries m)))) [10] st1 = Inr st2"
    "open_opts st2 (entries m)" "same_elsewhere st1 st2 {}"
    using read_blank_line [OF st1(2)] by blast
  with st1 same_elsewhere_trans [OF st1(3)] show ?thesis
    by (fastforce simp: read_lines_append)
qed

lemma doc_dups: "doc_ok st D S \<Longrightarrow> cur st = CurSection i \<Longrightarrow> i < length S \<Longrightarrow> snd (S ! i) = []
    \<Longrightarrow> (SectionId_of (cur st), k) \<notin> dups (work st)"
  by (auto simp: doc_ok_def Let_def SectionId_of_def)

lemma section_fault_None: "section_fault n = None \<Longrightarrow> n \<noteq> [] \<and> 10 \<notin> set n"
  by (auto simp: section_fault_def list_ex_iff is_eol_def split: if_splits)

lemma read_written_section:
  assumes "doc_ok st D S" "section_ok lower allow s" "fst s \<notin> fst ` set S" "is_delimiter delim"
  shows "\<exists>st'. read_lines lower allow sc n (map (\<lambda>l. l @ [10]) (section_lines delim s)) st = Inr st'
    \<and> doc_ok st' D (S @ [(fst s, entries (snd s))])"
proof -
  have name: "fst s \<noteq> []" "fst s \<noteq> DEFAULT_SECTION" and opts: "opts_ok lower allow (snd s)"
    using assms(2) section_fault_None by (auto simp: section_ok_def)
  obtain st1 where st1: "read_header sc n (fst s) st = Inr st1" "doc_ok st1 D (S @ [(fst s, [])])" "open_opts st1 []"
    "cur st1 = CurSection (length S)"
    using open_section [OF assms(1,3) name(2)] by blast
  have "\<forall>k \<in> fst ` set (entries (snd s)). (SectionId_of (cur st1), k) \<notin> dups (work st1)"
    using doc_dups [OF st1(2,4)] by simp
  from read_open_section [OF st1(3) opts assms(4) this] obtain st2 where
    st2: "read_lines lower allow sc (n + 1) (map (\<lambda>l. l @ [10]) (concat (map (option_lines delim) (entries (snd s))) @ [[]])) st1 = Inr st2"
      "open_opts st2 (entries (snd s))" "same_elsewhere st1 st2 (fst ` set (entries (snd s)))" by blast
  have "doc_ok st2 D (S @ [(fst s, entries (snd s))])"
    by (rule doc_fill_section [OF st1(2,4) st2(3,2)])
  moreover have "read_lines lower allow sc n (map (\<lambda>l. l @ [10]) (section_lines delim s)) st = Inr st2"
    using st2(1) st1(1) read_header_line [OF name(1), of lower allow sc n st] by (simp add: section_lines_def)
  ultimately show ?thesis by blast
qed

lemma read_written_sections:
  assumes "doc_ok st D S" "list_all (section_ok lower allow) ss" "distinct (map fst S @ map fst ss)" "is_delimiter delim"
  shows "\<exists>st'. read_lines lower allow sc n (map (\<lambda>l. l @ [10]) (concat (map (section_lines delim) ss))) st = Inr st'
    \<and> doc_ok st' D (S @ map (\<lambda>(n, m). (n, entries m)) ss)"
  using assms
proof (induction ss arbitrary: st S n)
  case (Cons s ss)
  have "section_ok lower allow s" "fst s \<notin> fst ` set S" using Cons.prems(2,3) by auto
  from read_written_section [OF Cons.prems(1) this assms(4)] obtain st1 where
    st1: "read_lines lower allow sc n (map (\<lambda>l. l @ [10]) (section_lines delim s)) st = Inr st1"
      "doc_ok st1 D (S @ [(fst s, entries (snd s))])" by blast
  have ss: "list_all (section_ok lower allow) ss" "distinct (map fst (S @ [(fst s, entries (snd s))]) @ map fst ss)"
    using Cons.prems(2,3) by auto
  from Cons.IH [OF st1(2) ss assms(4), of "n + length (section_lines delim s)"] obtain st2 where
    "read_lines lower allow sc (n + length (section_lines delim s)) (map (\<lambda>l. l @ [10]) (concat (map (section_lines delim) ss))) st1 = Inr st2"
    "doc_ok st2 D ((S @ [(fst s, entries (snd s))]) @ map (\<lambda>(n, m). (n, entries m)) ss)" by blast
  with st1 show ?case by (cases s) (auto simp: read_lines_append)
qed auto

lemma read_written_default:
  assumes "opts_ok lower allow m" "is_delimiter delim"
  shows "\<exists>st'. read_lines lower allow sc n (map (\<lambda>l. l @ [10]) (section_lines delim (DEFAULT_SECTION, m))) Reading_start = Inr st'
    \<and> doc_ok st' (entries m) []"
proof -
  let ?st = "Reading_start\<lparr>cur := CurDefault, optname := None\<rparr>"
  have name: "DEFAULT_SECTION \<noteq> []" by (simp add: DEFAULT_SECTION_def)
  have doc: "doc_ok ?st [] []" using doc_ok_start by (simp add: doc_ok_def)
  then have "open_opts ?st []"
    by (simp add: open_opts_def cur_valid_def cur_opts_def doc_ok_def Let_def)
  moreover have "\<forall>k \<in> fst ` set (entries m). (SectionId_of (cur ?st), k) \<notin> dups (work ?st)"
    by (simp add: Reading_start_def)
  ultimately obtain st1 where
    st1: "read_lines lower allow sc (n + 1) (map (\<lambda>l. l @ [10]) (concat (map (option_lines delim) (entries m)) @ [[]])) ?st = Inr st1"
      "open_opts st1 (entries m)" "same_elsewhere ?st st1 (fst ` set (entries m))"
    using read_open_section [of ?st lower allow m delim sc "n + 1"] assms by blast
  have "doc_ok st1 (entries m) []" using doc_fill_default [OF doc _ st1(3,2)] by simp
  moreover have "read_lines lower allow sc n (map (\<lambda>l. l @ [10]) (section_lines delim (DEFAULT_SECTION, m))) Reading_start = Inr st1"
    using st1(1) read_header_line [OF name, of lower allow sc n Reading_start]
    by (simp add: section_lines_def read_header_def)
  ultimately show ?thesis by blast
qed

text \<open>Merging into an empty configuration.\<close>

lemma merge_opts_new:
  assumes "Ordered_ok m" "Ordered_ok t" "absopts m = entries t"
  shows "merge_opts m Ordered_new = t"
  using assms ordered.ok_put_all [OF ordered.ok_empty] ordered.list_put_all_empty [of "absopts m"]
  by (intro Ordered_ext) (simp_all add: merge_opts_put_all entries_distinct)

lemma merge_section_new:
  assumes "Ordered_ok secs" "fst s \<notin> fst ` set (entries secs)"
  shows "entries (merge_section s secs) = entries secs @ [(fst s, merge_opts (snd s) Ordered_new)]
    \<and> Ordered_ok (merge_section s secs)"
proof -
  have "\<not> Ordered_contains secs (fst s)"
    using assms key_index_None [of "entries secs" "fst s"] by (simp add: Ordered_contains_def Ordered_ok_def indexed_def)
  moreover have "Ordered_get_mut (store (fst s) Ordered_new secs) (fst s) (merge_opts (snd s))
      = Some (store (fst s) (merge_opts (snd s) Ordered_new) (store (fst s) Ordered_new secs))"
    using assms(1) by (intro get_mut_store) (simp_all add: ordered.ok_put ordered.look_put)
  ultimately have "merge_section s secs = store (fst s) (merge_opts (snd s) Ordered_new) secs"
    by (simp add: merge_section_def store_store [OF assms(1)])
  with assms show ?thesis by (simp add: Ordered_insert_entries upsert_list_new)
qed

lemma merge_sections_new:
  assumes "Ordered_ok secs" "distinct (map fst (entries secs) @ map fst ss)"
  shows "entries (fold merge_section ss secs) = entries secs @ map (\<lambda>(n, m). (n, merge_opts m Ordered_new)) ss
    \<and> Ordered_ok (fold merge_section ss secs)"
  using assms
proof (induction ss arbitrary: secs)
  case (Cons s ss)
  have "fst s \<notin> fst ` set (entries secs)" using Cons.prems(2) by auto
  note step = merge_section_new [OF Cons.prems(1) this]
  with Cons.IH [of "merge_section s secs"] Cons.prems(2) show ?case by (cases s) auto
qed simp

lemma to_string_lines:
  assumes "cfg_ok lower cfg"
  defines "delim sp \<equiv> (if sp then lit '' = '' else lit ''='')"
  shows "to_string cfg sp = concat (map (\<lambda>l. l @ [10])
      ((if Ordered_is_empty (defaults cfg) then [] else section_lines (delim sp) (DEFAULT_SECTION, defaults cfg))
       @ concat (map (section_lines (delim sp)) (entries (sections cfg)))))"
proof -
  have ok: "opts_ok lower (allow_no_value cfg) (defaults cfg)"
    and "\<forall>s \<in> set (entries (sections cfg)). opts_ok lower (allow_no_value cfg) (snd s)"
    using assms by (auto simp: cfg_ok_def section_ok_def list_all_iff)
  then have sec: "map (write_section (delim sp) (allow_no_value cfg)) (entries (sections cfg))
      = map (\<lambda>s. concat (map (\<lambda>l. l @ [10]) (section_lines (delim sp) s))) (entries (sections cfg))"
    by (auto simp: write_section_lines)
  have def: "write_section (delim sp) (allow_no_value cfg) (DEFAULT_SECTION, defaults cfg)
      = concat (map (\<lambda>l. l @ [10]) (section_lines (delim sp) (DEFAULT_SECTION, defaults cfg)))"
    using write_section_lines [of lower] ok by simp
  show ?thesis
    unfolding to_string_def Let_def delim_def [symmetric] sec def by (simp add: concat_map_concat comp_def)
qed

lemma document_no_lf:
  assumes "cfg_ok lower cfg" "is_delimiter delim"
    and "l \<in> set ((if Ordered_is_empty (defaults cfg) then [] else section_lines delim (DEFAULT_SECTION, defaults cfg))
       @ concat (map (section_lines delim) (entries (sections cfg))))"
  shows "10 \<notin> set l"
proof -
  from assms(3) consider "l \<in> set (section_lines delim (DEFAULT_SECTION, defaults cfg))"
    | s where "s \<in> set (entries (sections cfg))" "l \<in> set (section_lines delim s)"
    by (auto split: if_splits)
  then show ?thesis
  proof cases
    case 1
    moreover have "10 \<notin> set DEFAULT_SECTION" by (simp add: DEFAULT_SECTION_def)
    ultimately show ?thesis
      using assms(1,2) section_lines_no_lf [of lower "allow_no_value cfg" "(DEFAULT_SECTION, defaults cfg)"]
      by (simp add: cfg_ok_def)
  next
    case 2
    then have "section_ok lower (allow_no_value cfg) s" using assms(1) by (simp add: cfg_ok_def list_all_iff)
    then show ?thesis
      using 2(2) assms(2) section_lines_no_lf [of lower "allow_no_value cfg" s] section_fault_None
      by (simp add: section_ok_def)
  qed
qed

lemma merged_sections:
  assumes "doc_ok st D S" "S = map (\<lambda>(n, m). (n, entries m)) (entries secs)" "Ordered_ok secs"
    and "\<forall>s \<in> set (entries secs). Ordered_ok (snd s)"
  shows "fold merge_section (entries (w_sections (work st))) Ordered_new = secs"
proof (rule Ordered_ext)
  let ?ws = "entries (w_sections (work st))"
  have ws: "map (\<lambda>(n, m). (n, absopts m)) ?ws = map (\<lambda>(n, m). (n, entries m)) (entries secs)"
    and ok: "\<forall>s \<in> set ?ws. Ordered_ok (snd s)" "distinct (map fst ?ws)"
    using assms(1,2) entries_distinct by (auto simp: doc_ok_def Let_def)
  note new = merge_sections_new [OF Ordered_ok_new, of ?ws]
  have "map (\<lambda>(n, m). (n, merge_opts m Ordered_new)) ?ws = entries secs"
  proof (rule nth_equalityI)
    show len: "length (map (\<lambda>(n, m). (n, merge_opts m Ordered_new)) ?ws) = length (entries secs)"
      using arg_cong [OF ws, of length] by simp
    fix i
    assume i: "i < length (map (\<lambda>(n, m). (n, merge_opts m Ordered_new)) ?ws)"
    then have i': "i < length ?ws" "i < length (entries secs)" using len by simp_all
    have "(\<lambda>(n, m). (n, absopts m)) (?ws ! i) = (\<lambda>(n, m). (n, entries m)) (entries secs ! i)"
      using arg_cong [OF ws, of "\<lambda>xs. xs ! i"] i' by simp
    moreover have "Ordered_ok (snd (?ws ! i))" "Ordered_ok (snd (entries secs ! i))"
      using ok(1) assms(4) i' by (simp_all add: nth_mem)
    ultimately show "map (\<lambda>(n, m). (n, merge_opts m Ordered_new)) ?ws ! i = entries secs ! i"
      using i' merge_opts_new [of "snd (?ws ! i)" "snd (entries secs ! i)"]
      by (cases "?ws ! i"; cases "entries secs ! i") simp
  qed
  with new ok(2) show "entries (fold merge_section ?ws Ordered_new) = entries secs" by simp
  show "Ordered_ok (fold merge_section ?ws Ordered_new)" using new ok(2) by simp
qed (rule assms(3))

lemma read_to_string:
  assumes "cfg_ok lower cfg"
  shows "read lower (cfg\<lparr>defaults := Ordered_new, sections := Ordered_new\<rparr>) (to_string cfg sp) = Inr cfg"
proof -
  define delim where "delim = (if sp then lit '' = '' else lit ''='')"
  have d: "is_delimiter delim" by (simp add: is_delimiter_def delim_def)
  let ?def = "if Ordered_is_empty (defaults cfg) then [] else section_lines delim (DEFAULT_SECTION, defaults cfg)"
  let ?ss = "entries (sections cfg)"
  let ?lines = "?def @ concat (map (section_lines delim) ?ss)"
  let ?read = "read_lines lower (allow_no_value cfg) (scrub cfg)"
  have opts: "opts_ok lower (allow_no_value cfg) (defaults cfg)" and secs: "Ordered_ok (sections cfg)"
    and ss: "list_all (section_ok lower (allow_no_value cfg)) ?ss"
    using assms by (simp_all add: cfg_ok_def)
  have split: "split_inclusive 10 (to_string cfg sp) = map (\<lambda>l. l @ [10]) ?lines"
    unfolding to_string_lines [OF assms] delim_def [symmetric]
    by (rule split_inclusive_lines) (use document_no_lf [OF assms d] in blast)
  obtain st1 where st1: "?read 1 (map (\<lambda>l. l @ [10]) ?def) Reading_start = Inr st1" "doc_ok st1 (entries (defaults cfg)) []"
    using read_written_default [OF opts d, of "scrub cfg" 1] doc_ok_start
    by (cases "Ordered_is_empty (defaults cfg)") (auto simp: Ordered_is_empty_def)
  obtain st2 where st2: "?read (1 + length ?def) (map (\<lambda>l. l @ [10]) (concat (map (section_lines delim) ?ss))) st1 = Inr st2"
    "doc_ok st2 (entries (defaults cfg)) (map (\<lambda>(n, m). (n, entries m)) ?ss)"
    using read_written_sections [OF st1(2) ss _ d] entries_distinct [OF secs] by auto
  have "?read 1 (map (\<lambda>l. l @ [10]) ?lines) Reading_start = Inr st2"
    using st1(1) st2(1) by (simp add: read_lines_append)
  moreover have "merge_opts (w_default (work st2)) Ordered_new = defaults cfg"
    using st2(2) opts by (intro merge_opts_new) (simp_all add: doc_ok_def Let_def opts_ok_def)
  moreover have "fold merge_section (entries (w_sections (work st2))) Ordered_new = sections cfg"
    using st2(2) secs ss by (intro merged_sections [OF st2(2) refl]) (auto simp: section_ok_def opts_ok_def list_all_iff)
  ultimately show ?thesis
    using st2(2) by (simp add: read_def split merge_def doc_ok_def Let_def)
qed

section \<open>Properties\<close>

text \<open>
  What a configuration writes is what a reader gets: every configuration whose names passed the screens
  of \<^verbatim>\<open>set\<close> and \<^verbatim>\<open>add_section\<close> and whose values are ones the format can hold, multi-line values, empty values
  and keys without a value included, is read back from its own text as the same configuration, entry for
  entry and in the same order, with either delimiter style.
\<close>

theorem config_roundtrip:
  assumes "cfg_ok lower cfg"
  shows "read lower (cfg\<lparr>defaults := Ordered_new, sections := Ordered_new\<rparr>) (to_string cfg sp) = Inr cfg"
  by (rule read_to_string [OF assms])

text \<open>A value of three lines, the second empty, and an inherited default.\<close>

definition sample_config :: ConfigFile where
  "sample_config = ConfigFile_new
     \<lparr>defaults := store (lit ''base'') (Some (lit ''/mnt'')) Ordered_new,
      sections := store (lit ''share'') (store (lit ''path'') (Some (lit ''one'' @ [10, 10] @ lit ''two'')) Ordered_new) Ordered_new\<rparr>"

theorem config_roundtrip_witness:
  "read (\<lambda>s. s) ConfigFile_new (to_string sample_config True) = Inr sample_config"
proof -
  have "cfg_ok (\<lambda>s. s) sample_config"
  proof -
    have "list_all (option_ok (\<lambda>s. s) False) (entries (defaults sample_config))"
      "list_all (\<lambda>s. section_fault (fst s) = None \<and> fst s \<noteq> DEFAULT_SECTION
         \<and> list_all (option_ok (\<lambda>s. s) False) (entries (snd s))) (entries (sections sample_config))"
      by code_simp+
    moreover have "Ordered_ok (defaults sample_config)" "Ordered_ok (sections sample_config)"
      "\<forall>s \<in> set (entries (sections sample_config)). Ordered_ok (snd s)"
      by (simp_all add: sample_config_def Ordered_insert_entries Ordered_ok_new ordered.ok_put)
    moreover have "allow_no_value sample_config = False" by (simp add: sample_config_def ConfigFile_new_def)
    ultimately show ?thesis by (simp add: cfg_ok_def opts_ok_def section_ok_def list_all_iff)
  qed
  from config_roundtrip [OF this, of True] show ?thesis
    by (simp add: sample_config_def ConfigFile_new_def)
qed

end
