(* ===== verification/Config_Interp.thy ===== *)
theory Config_Interp
  imports Config_Parse "HOL-Library.Sublist"
begin

text \<open>
  Interpolation of option values (\<^verbatim>\<open>src/configfile/interp.rs\<close>): the recursive expansion of \<^verbatim>\<open>%(name)s\<close> with its
  depth and output bounds, and the screen \<^verbatim>\<open>set\<close> applies to a value. \<open>look\<close> is the merged view of the section
  the value belongs to.
\<close>

section \<open>Model\<close>

definition MAX_INTERPOLATION_DEPTH :: nat where "MAX_INTERPOLATION_DEPTH = 10"
definition MAX_INTERPOLATION_OUTPUT :: nat where "MAX_INTERPOLATION_OUTPUT = 2 ^ 20"

text \<open>The errors carry what their message quotes, \<open>None\<close> where it is withheld.\<close>

datatype interp_error =
    TooDeep "ustr option"
  | TooLong "ustr option"
  | BadReference "ustr option"
  | MissingOption "ustr option"
  | StrayPercent "ustr option"
  | InvalidSyntax "ustr option"

definition quote :: "bool \<Rightarrow> ustr \<Rightarrow> ustr option" where
  "quote sc s = (if sc then None else Some s)"

definition key_ref :: "ustr \<Rightarrow> (ustr \<times> nat) option" where
  "key_ref s =
     (case position (\<lambda>c. c = 0x29) (drop 2 s) of
        None \<Rightarrow> None
      | Some i \<Rightarrow>
          let close = i + 2
          in if close = 2 then None
             else if \<not> (close + 1 < length s \<and> s ! (close + 1) = 0x73) then None
             else Some (slice s 2 close, close + 2))"

lemma key_ref_end: "key_ref s = Some (name, n) \<Longrightarrow> 2 < n \<and> n \<le> length s \<and> 0 < length s"
  by (auto simp: key_ref_def Let_def split: option.splits if_splits)

text \<open>
  The loop over a value at some depth. A value with a \<^verbatim>\<open>%\<close> is interpolated one level deeper, which \<^verbatim>\<open>interpolate\<close>
  refuses beyond the bound.
\<close>

function interp_loop ::
  "(ustr \<Rightarrow> ustr) \<Rightarrow> (ustr \<Rightarrow> ustr option option) \<Rightarrow> bool \<Rightarrow> ustr \<Rightarrow> nat \<Rightarrow> ustr \<Rightarrow> ustr \<Rightarrow> interp_error + ustr" where
  "interp_loop lower look sc opt depth rest out =
     (if rest = [] then Inr out
      else if ulen out > MAX_INTERPOLATION_OUTPUT then Inl (TooLong (quote sc opt))
      else case position (\<lambda>c. c = 0x25) rest of
          None \<Rightarrow> Inr (out @ rest)
        | Some p \<Rightarrow>
            let out = out @ take p rest; rest = drop p rest
            in if length rest > 1 \<and> rest ! 1 = 0x25 then interp_loop lower look sc opt depth (drop 2 rest) (out @ [0x25])
               else if length rest > 1 \<and> rest ! 1 = 0x28 then
                 (case key_ref rest of
                    None \<Rightarrow> Inl (BadReference (quote sc rest))
                  | Some (name, end) \<Rightarrow>
                      (case look (optionxform lower name) of
                         Some (Some v) \<Rightarrow>
                           if 0x25 \<in> set v then
                             (if depth + 1 > MAX_INTERPOLATION_DEPTH then Inl (TooDeep (quote sc opt))
                              else case interp_loop lower look sc opt (depth + 1) v out of
                                  Inl e \<Rightarrow> Inl e
                                | Inr out \<Rightarrow> interp_loop lower look sc opt depth (drop end rest) out)
                           else interp_loop lower look sc opt depth (drop end rest) (out @ v)
                       | _ \<Rightarrow> Inl (MissingOption (quote sc (optionxform lower name)))))
               else Inl (StrayPercent (quote sc rest)))"
  by pat_completeness auto
termination
  by (relation "measures [\<lambda>(lower, look, sc, opt, depth, rest, out). MAX_INTERPOLATION_DEPTH - depth,
        \<lambda>(lower, look, sc, opt, depth, rest, out). length rest]")
    (auto dest!: key_ref_end simp: position_Some)

declare interp_loop.simps [simp del]

definition interpolate ::
  "(ustr \<Rightarrow> ustr) \<Rightarrow> (ustr \<Rightarrow> ustr option option) \<Rightarrow> bool \<Rightarrow> ustr \<Rightarrow> nat \<Rightarrow> ustr \<Rightarrow> ustr \<Rightarrow> interp_error + ustr" where
  "interpolate lower look sc opt depth rest out =
     (if depth > MAX_INTERPOLATION_DEPTH then Inl (TooDeep (quote sc opt))
      else interp_loop lower look sc opt depth rest out)"

definition before_get ::
  "(ustr \<Rightarrow> ustr) \<Rightarrow> ustr \<Rightarrow> ustr \<Rightarrow> (ustr \<Rightarrow> ustr option option) \<Rightarrow> bool \<Rightarrow> interp_error + ustr" where
  "before_get lower opt v look sc = interpolate lower look sc opt 1 v []"

text \<open>\<^verbatim>\<open>replace("%%", "")\<close>, and the scan of what is left.\<close>

fun remove_escapes :: "ustr \<Rightarrow> ustr" where
  "remove_escapes (a # b # s) = (if a = 0x25 \<and> b = 0x25 then remove_escapes s else a # remove_escapes (b # s))"
| "remove_escapes s = s"

function only_refs :: "ustr \<Rightarrow> bool" where
  "only_refs rest =
     (case position (\<lambda>c. c = 0x25) rest of
        None \<Rightarrow> True
      | Some p \<Rightarrow>
          let at_ref = drop p rest
          in if length at_ref > 1 \<and> at_ref ! 1 = 0x28 then
               (case key_ref at_ref of None \<Rightarrow> False | Some (_, end) \<Rightarrow> only_refs (drop end at_ref))
             else False)"
  by pat_completeness auto
termination by (relation "measure length") (auto dest!: key_ref_end dest: position_Some)

declare only_refs.simps [simp del]

definition validate_set :: "ustr \<Rightarrow> bool \<Rightarrow> interp_error + unit" where
  "validate_set v sc = (if only_refs (remove_escapes v) then Inr () else Inl (InvalidSyntax (quote sc v)))"

section \<open>Specification\<close>

text \<open>
  A value is a sequence of literal pieces and references. Its meaning at a level is the concatenation of the
  meanings of the pieces; a referenced value without a \<^verbatim>\<open>%\<close> stands for itself, any other is taken one level
  down, and there is no level below the last.
\<close>

datatype piece = Text ustr | Ref ustr

function pieces :: "ustr \<Rightarrow> piece list option" where
  "pieces [] = Some []"
| "pieces (c # s) =
     (if c \<noteq> 0x25 then map_option ((#) (Text [c])) (pieces s)
      else case s of
          [] \<Rightarrow> None
        | d # r \<Rightarrow>
            if d = 0x25 then map_option ((#) (Text [0x25])) (pieces r)
            else if d = 0x28 then
              (case key_ref (c # s) of None \<Rightarrow> None | Some (name, end) \<Rightarrow> map_option ((#) (Ref name)) (pieces (drop end (c # s))))
            else None)"
  by pat_completeness auto
termination by (relation "measure length") (auto dest!: key_ref_end)

fun cat_options :: "ustr option list \<Rightarrow> ustr option" where
  "cat_options [] = Some []"
| "cat_options (x # xs) = (case (x, cat_options xs) of (Some s, Some t) \<Rightarrow> Some (s @ t) | _ \<Rightarrow> None)"

fun meaning :: "(ustr \<Rightarrow> ustr option) \<Rightarrow> (ustr \<Rightarrow> ustr) \<Rightarrow> (ustr \<Rightarrow> ustr option option) \<Rightarrow> piece \<Rightarrow> ustr option" where
  "meaning deeper lower look (Text s) = Some s"
| "meaning deeper lower look (Ref name) =
     (case look (lower name) of Some (Some v) \<Rightarrow> if 0x25 \<in> set v then deeper v else Some v | _ \<Rightarrow> None)"

definition expand_with :: "(ustr \<Rightarrow> ustr option) \<Rightarrow> (ustr \<Rightarrow> ustr) \<Rightarrow> (ustr \<Rightarrow> ustr option option) \<Rightarrow> ustr \<Rightarrow> ustr option" where
  "expand_with deeper lower look v =
     (case pieces v of None \<Rightarrow> None | Some ps \<Rightarrow> cat_options (map (meaning deeper lower look) ps))"

primrec expand :: "nat \<Rightarrow> (ustr \<Rightarrow> ustr) \<Rightarrow> (ustr \<Rightarrow> ustr option option) \<Rightarrow> ustr \<Rightarrow> ustr option" where
  "expand 0 lower look v = None"
| "expand (Suc n) lower look v = expand_with (expand n lower look) lower look v"

section \<open>The loop computes the meaning\<close>

lemma expand_with_simps:
  "expand_with d lower look [] = Some []"
  "c \<noteq> 0x25 \<Longrightarrow> expand_with d lower look (c # s) = map_option ((#) c) (expand_with d lower look s)"
  "expand_with d lower look (0x25 # 0x25 # s) = map_option ((#) 0x25) (expand_with d lower look s)"
  "key_ref (0x25 # 0x28 # s) = Some (name, n) \<Longrightarrow> expand_with d lower look (0x25 # 0x28 # s) =
     (case meaning d lower look (Ref name) of None \<Rightarrow> None
      | Some t \<Rightarrow> map_option ((@) t) (expand_with d lower look (drop n (0x25 # 0x28 # s))))"
  "key_ref (0x25 # 0x28 # s) = None \<Longrightarrow> expand_with d lower look (0x25 # 0x28 # s) = None"
  "c \<noteq> 0x25 \<Longrightarrow> c \<noteq> 0x28 \<Longrightarrow> expand_with d lower look (0x25 # c # s) = None"
  "expand_with d lower look [0x25] = None"
  by (auto simp: expand_with_def split: option.splits)

lemma expand_with_literal:
  "\<forall>c \<in> set t. c \<noteq> 0x25 \<Longrightarrow> expand_with d lower look (t @ s) = map_option ((@) t) (expand_with d lower look s)"
  by (induction t; cases "expand_with d lower look s") (auto simp: expand_with_simps)

text \<open>One turn of the loop, on a rest cut at its first \<^verbatim>\<open>%\<close>.\<close>

lemma percent_split:
  assumes "position (\<lambda>c. c = 0x25) rest = Some p"
  obtains t r where "rest = t @ 0x25 # r" "take p rest = t" "drop p rest = 0x25 # r" "\<forall>c \<in> set t. c \<noteq> 0x25"
proof
  from position_Some [OF assms] have p: "p < length rest" "rest ! p = 0x25" by auto
  then show "drop p rest = 0x25 # drop (Suc p) rest" by (metis Cons_nth_drop_Suc)
  then show "rest = take p rest @ 0x25 # drop (Suc p) rest" by (metis append_take_drop_id)
  show "\<forall>c \<in> set (take p rest). c \<noteq> 0x25" using position_take [OF assms] by simp
qed simp

lemma interp_loop_sound:
  "interp_loop lower look sc opt depth rest out = Inr res \<Longrightarrow> depth \<le> MAX_INTERPOLATION_DEPTH \<Longrightarrow>
     \<exists>s. expand_with (expand (MAX_INTERPOLATION_DEPTH - depth) lower look) lower look rest = Some s \<and> res = out @ s"
proof (induction lower look sc opt depth rest out arbitrary: res rule: interp_loop.induct)
  case (1 lower look sc opt depth rest out)
  let ?d = "expand (MAX_INTERPOLATION_DEPTH - depth) lower look"
  show ?case
  proof (cases "rest = []")
    case True
    with "1.prems" show ?thesis by (simp add: interp_loop.simps expand_with_simps)
  next
    case ne: False
    with "1.prems"(1) have short: "\<not> ulen out > MAX_INTERPOLATION_OUTPUT" by (auto simp: interp_loop.simps)
    show ?thesis
    proof (cases "position (\<lambda>c. c = 0x25) rest")
      case None
      then have "\<forall>c \<in> set rest. c \<noteq> 0x25" by (simp add: position_None)
      with expand_with_literal [of rest ?d lower look "[]"] have "expand_with ?d lower look rest = Some rest"
        by (simp add: expand_with_simps)
      with "1.prems"(1) ne short None show ?thesis by (simp add: interp_loop.simps)
    next
      case (Some p)
      then obtain t r where tr: "rest = t @ 0x25 # r" "take p rest = t" "drop p rest = 0x25 # r" "\<forall>c \<in> set t. c \<noteq> 0x25"
        by (rule percent_split)
      note loop = "1.prems"(1) [unfolded interp_loop.simps [of lower look sc opt depth rest out]]
      have lit: "expand_with ?d lower look rest = map_option ((@) t) (expand_with ?d lower look (0x25 # r))"
        unfolding tr(1) by (rule expand_with_literal [OF tr(4)])
      consider (esc) r' where "r = 0x25 # r'" | (ref) r' where "r = 0x28 # r'"
        | (stray) "r = [] \<or> hd r \<noteq> 0x25 \<and> hd r \<noteq> 0x28"
        by (cases r) auto
      then show ?thesis
      proof cases
        case esc
        then have "interp_loop lower look sc opt depth r' (out @ t @ [0x25]) = Inr res"
          using loop ne short Some tr(2,3) by (simp add: Let_def)
        moreover note "1.IH"(1) [OF ne short Some refl refl, unfolded tr(2,3)]
        ultimately obtain s where "expand_with ?d lower look r' = Some s" "res = (out @ t @ [0x25]) @ s"
          using "1.prems"(2) esc by auto
        with lit esc show ?thesis by (simp add: expand_with_simps)
      next
        case ref
        obtain name n where kr: "key_ref (0x25 # r) = Some (name, n)"
          using loop ne short Some tr(2,3) ref by (auto simp: Let_def split: option.splits)
        obtain v where v: "look (lower name) = Some (Some v)"
          using loop ne short Some tr(2,3) ref kr by (auto simp: Let_def optionxform_def split: option.splits)
        then have lk: "look (optionxform lower name) = Some (Some v)" by (simp add: optionxform_def)
        have cond: "\<not> (1 < length (0x25 # r) \<and> (0x25 # r) ! 1 = 0x25)" "1 < length (0x25 # r) \<and> (0x25 # r) ! 1 = 0x28"
          using ref by simp_all
        show ?thesis
        proof (cases "0x25 \<in> set v")
          case False
          then have run: "interp_loop lower look sc opt depth (drop n (0x25 # r)) (out @ t @ v) = Inr res"
            using loop ne short Some tr(2,3) ref kr v by (simp add: Let_def optionxform_def)
          have "\<exists>s. expand_with ?d lower look (drop n (0x25 # r)) = Some s \<and> res = (out @ t @ v) @ s"
            using "1.IH"(4) [OF ne short Some refl refl, unfolded tr(2,3), OF cond kr refl lk refl False _ "1.prems"(2)] run by simp
          with lit ref kr v False show ?thesis by (auto simp: expand_with_simps)
        next
          case True
          then obtain mid where deep: "depth + 1 \<le> MAX_INTERPOLATION_DEPTH"
            and inner: "interp_loop lower look sc opt (depth + 1) v (out @ t) = Inr mid"
            and run: "interp_loop lower look sc opt depth (drop n (0x25 # r)) mid = Inr res"
            using loop ne short Some tr(2,3) ref kr v by (auto simp: Let_def optionxform_def split: if_splits sum.splits)
          obtain u where u: "expand_with (expand (MAX_INTERPOLATION_DEPTH - (depth + 1)) lower look) lower look v = Some u" "mid = (out @ t) @ u"
            using "1.IH"(2) [OF ne short Some refl refl, unfolded tr(2,3), OF cond kr refl lk refl True _ inner deep] deep by auto
          have "\<exists>s. expand_with ?d lower look (drop n (0x25 # r)) = Some s \<and> res = mid @ s"
            using "1.IH"(3) [OF ne short Some refl refl, unfolded tr(2,3), OF cond kr refl lk refl True _ inner run "1.prems"(2)] deep by simp
          moreover have "?d v = Some u"
            using u(1) deep by (simp add: Suc_diff_le [symmetric] flip: expand.simps(2)) 
          ultimately show ?thesis using lit ref kr v True u(2) by (auto simp: expand_with_simps)
        qed
      next
        case stray
        with loop ne short Some tr(2,3) show ?thesis by (cases r) (auto simp: Let_def split: option.splits)
      qed
    qed
  qed
qed

lemma interp_loop_complete:
  "expand_with (expand (MAX_INTERPOLATION_DEPTH - depth) lower look) lower look rest = Some s \<Longrightarrow>
     ulen (out @ s) \<le> MAX_INTERPOLATION_OUTPUT \<Longrightarrow> interp_loop lower look sc opt depth rest out = Inr (out @ s)"
proof (induction lower look sc opt depth rest out arbitrary: s rule: interp_loop.induct)
  case (1 lower look sc opt depth rest out)
  let ?d = "expand (MAX_INTERPOLATION_DEPTH - depth) lower look"
  show ?case
  proof (cases "rest = []")
    case True
    with "1.prems" show ?thesis by (simp add: interp_loop.simps expand_with_simps)
  next
    case ne: False
    from "1.prems"(2) have short: "\<not> ulen out > MAX_INTERPOLATION_OUTPUT" by simp
    note unf = interp_loop.simps [of lower look sc opt depth rest out]
    show ?thesis
    proof (cases "position (\<lambda>c. c = 0x25) rest")
      case None
      then have "\<forall>c \<in> set rest. c \<noteq> 0x25" by (simp add: position_None)
      with expand_with_literal [of rest ?d lower look "[]"] "1.prems"(1) have "s = rest"
        by (simp add: expand_with_simps)
      with ne short None show ?thesis by (simp add: interp_loop.simps)
    next
      case (Some p)
      then obtain t r where tr: "rest = t @ 0x25 # r" "take p rest = t" "drop p rest = 0x25 # r" "\<forall>c \<in> set t. c \<noteq> 0x25"
        by (rule percent_split)
      from "1.prems"(1) [unfolded tr(1), unfolded expand_with_literal [OF tr(4)]]
      obtain s' where s': "expand_with ?d lower look (0x25 # r) = Some s'" "s = t @ s'" by auto
      consider (esc) r' where "r = 0x25 # r'" | (ref) r' where "r = 0x28 # r'"
        | (stray) "r = [] \<or> hd r \<noteq> 0x25 \<and> hd r \<noteq> 0x28"
        by (cases r) auto
      then show ?thesis
      proof cases
        case esc
        then obtain w where w: "expand_with ?d lower look r' = Some w" "s' = 0x25 # w"
          using s'(1) by (auto simp: expand_with_simps)
        have "interp_loop lower look sc opt depth r' (out @ t @ [0x25]) = Inr ((out @ t @ [0x25]) @ w)"
          using "1.IH"(1) [OF ne short Some refl refl, unfolded tr(2,3)] "1.prems"(2) esc w s'(2) by simp
        with w s'(2) esc ne short Some tr(2,3) show ?thesis unfolding unf by (simp add: Let_def)
      next
        case ref
        obtain name n where kr: "key_ref (0x25 # r) = Some (name, n)"
          using s'(1) ref by (cases "key_ref (0x25 # r)") (auto simp: expand_with_simps)
        obtain v u w where v: "look (lower name) = Some (Some v)"
          and u: "(if 0x25 \<in> set v then ?d v else Some v) = Some u"
          and w: "expand_with ?d lower look (drop n (0x25 # r)) = Some w" "s' = u @ w"
          using s'(1) ref kr by (auto simp: expand_with_simps split: option.splits)
        then have lk: "look (optionxform lower name) = Some (Some v)" by (simp add: optionxform_def)
        have cond: "\<not> (1 < length (0x25 # r) \<and> (0x25 # r) ! 1 = 0x25)" "1 < length (0x25 # r) \<and> (0x25 # r) ! 1 = 0x28"
          using ref by simp_all
        show ?thesis
        proof (cases "0x25 \<in> set v")
          case False
          with u have "u = v" by simp
          then have "interp_loop lower look sc opt depth (drop n (0x25 # r)) ((out @ t) @ v) = Inr (((out @ t) @ v) @ w)"
            using "1.IH"(4) [OF ne short Some refl refl, unfolded tr(2,3), OF cond kr refl lk refl False w(1)] "1.prems"(2) s'(2) w(2)
            by simp
          with ne short Some tr(2,3) ref kr v False s'(2) w(2) \<open>u = v\<close> show ?thesis
            unfolding unf by (simp add: Let_def optionxform_def)
        next
          case True
          with u obtain k where k: "MAX_INTERPOLATION_DEPTH - depth = Suc k" "expand_with (expand k lower look) lower look v = Some u"
            by (cases "MAX_INTERPOLATION_DEPTH - depth") auto
          then have deep: "\<not> depth + 1 > MAX_INTERPOLATION_DEPTH" and k': "MAX_INTERPOLATION_DEPTH - (depth + 1) = k" by simp_all
          have inner: "interp_loop lower look sc opt (depth + 1) v (out @ t) = Inr ((out @ t) @ u)"
            using "1.IH"(2) [OF ne short Some refl refl, unfolded tr(2,3), OF cond kr refl lk refl True deep, unfolded k', OF k(2)]
              "1.prems"(2) s'(2) w(2) by simp
          have "interp_loop lower look sc opt depth (drop n (0x25 # r)) ((out @ t) @ u) = Inr (((out @ t) @ u) @ w)"
            using "1.IH"(3) [OF ne short Some refl refl, unfolded tr(2,3), OF cond kr refl lk refl True deep inner w(1)]
              "1.prems"(2) s'(2) w(2) by simp
          with ne short Some tr(2,3) ref kr v True s'(2) w(2) deep inner show ?thesis
            unfolding unf by (simp add: Let_def optionxform_def)
        qed
      next
        case stray
        with s'(1) show ?thesis by (cases r) (auto simp: expand_with_simps)
      qed
    qed
  qed
qed

lemma interp_loop_bounded:
  "interp_loop lower look sc opt depth rest out = Inr res \<Longrightarrow> ulen rest \<le> B \<Longrightarrow>
     (\<And>k v. look k = Some (Some v) \<Longrightarrow> ulen v \<le> B) \<Longrightarrow> ulen res \<le> max (ulen out) (MAX_INTERPOLATION_OUTPUT + 2 * B)"
proof (induction lower look sc opt depth rest out arbitrary: res rule: interp_loop.induct)
  case (1 lower look sc opt depth rest out)
  show ?case
  proof (cases "rest = [] \<or> position (\<lambda>c. c = 0x25) rest = None")
    case True
    with "1.prems"(1,2) show ?thesis by (auto simp: interp_loop.simps split: if_splits)
  next
    case False
    then obtain p where ne: "rest \<noteq> []" and Some: "position (\<lambda>c. c = 0x25) rest = Some p" by auto
    from ne "1.prems"(1) have short: "\<not> ulen out > MAX_INTERPOLATION_OUTPUT" by (auto simp: interp_loop.simps)
    from Some obtain t r where tr: "rest = t @ 0x25 # r" "take p rest = t" "drop p rest = 0x25 # r" "\<forall>c \<in> set t. c \<noteq> 0x25"
      by (rule percent_split)
    note loop = "1.prems"(1) [unfolded interp_loop.simps [of lower look sc opt depth rest out]]
    have cut: "ulen (drop n (0x25 # r)) \<le> B" "ulen t + 1 \<le> B" for n
      using ulen_drop [of n "0x25 # r"] "1.prems"(2) tr(1) by (simp_all add: utf8_len_def)
    consider (esc) r' where "r = 0x25 # r'" | (ref) r' where "r = 0x28 # r'"
      | (stray) "r = [] \<or> hd r \<noteq> 0x25 \<and> hd r \<noteq> 0x28"
      by (cases r) auto
    then show ?thesis
    proof cases
      case esc
      then have "interp_loop lower look sc opt depth r' ((out @ t) @ [0x25]) = Inr res"
        using loop ne short Some tr(2,3) by (simp add: Let_def)
      moreover note "1.IH"(1) [OF ne short Some refl refl, unfolded tr(2,3), of res]
      ultimately have "ulen res \<le> max (ulen ((out @ t) @ [0x25])) (MAX_INTERPOLATION_OUTPUT + 2 * B)"
        using esc cut(1) [of 2] "1.prems"(3) by simp
      with short cut(2) show ?thesis by (simp add: utf8_len_def)
    next
      case ref
      obtain name n where kr: "key_ref (0x25 # r) = Some (name, n)"
        using loop ne short Some tr(2,3) ref by (auto simp: Let_def split: option.splits)
      obtain v where lk: "look (optionxform lower name) = Some (Some v)"
        using loop ne short Some tr(2,3) ref kr by (auto simp: Let_def split: option.splits)
      have cond: "\<not> (1 < length (0x25 # r) \<and> (0x25 # r) ! 1 = 0x25)" "1 < length (0x25 # r) \<and> (0x25 # r) ! 1 = 0x28"
        using ref by simp_all
      note vB = "1.prems"(3) [OF lk]
      show ?thesis
      proof (cases "0x25 \<in> set v")
        case False
        then have "interp_loop lower look sc opt depth (drop n (0x25 # r)) ((out @ t) @ v) = Inr res"
          using loop ne short Some tr(2,3) ref kr lk by (simp add: Let_def)
        from "1.IH"(4) [OF ne short Some refl refl, unfolded tr(2,3), OF cond kr refl lk refl False this cut(1) "1.prems"(3)]
        show ?thesis using short cut(2) vB by simp
      next
        case True
        then obtain mid where deep: "\<not> depth + 1 > MAX_INTERPOLATION_DEPTH"
          and inner: "interp_loop lower look sc opt (depth + 1) v (out @ t) = Inr mid"
          and run: "interp_loop lower look sc opt depth (drop n (0x25 # r)) mid = Inr res"
          using loop ne short Some tr(2,3) ref kr lk by (auto simp: Let_def split: if_splits sum.splits)
        from "1.IH"(2) [OF ne short Some refl refl, unfolded tr(2,3), OF cond kr refl lk refl True deep inner vB "1.prems"(3)]
          "1.IH"(3) [OF ne short Some refl refl, unfolded tr(2,3), OF cond kr refl lk refl True deep inner run cut(1) "1.prems"(3)]
        show ?thesis using short cut(2) by simp
      qed
    next
      case stray
      with loop ne short Some tr(2,3) show ?thesis by (cases r) (auto simp: Let_def split: option.splits)
    qed
  qed
qed

section \<open>The screen of \<^verbatim>\<open>set\<close>\<close>

lemma remove_escapes_id: "\<not> sublist [0x25, 0x25] v \<Longrightarrow> remove_escapes v = v"
  by (induction v rule: remove_escapes.induct) (auto simp: sublist_Cons_right split: if_splits)

lemma pieces_literal: "\<forall>c \<in> set t. c \<noteq> 0x25 \<Longrightarrow> (pieces (t @ s) = None) = (pieces s = None)"
  by (induction t) auto

lemma only_refs_pieces: "\<not> sublist [0x25, 0x25] v \<Longrightarrow> only_refs v = (pieces v \<noteq> None)"
proof (induction v rule: only_refs.induct)
  case (1 v)
  show ?case
  proof (cases "position (\<lambda>c. c = 0x25) v")
    case None
    then have "\<forall>c \<in> set v. c \<noteq> 0x25" by (simp add: position_None)
    with pieces_literal [of v "[]"] None show ?thesis by (simp add: only_refs.simps)
  next
    case (Some p)
    then obtain t r where tr: "v = t @ 0x25 # r" "take p v = t" "drop p v = 0x25 # r" "\<forall>c \<in> set t. c \<noteq> 0x25"
      by (rule percent_split)
    have lit: "(pieces v = None) = (pieces (0x25 # r) = None)" unfolding tr(1) by (rule pieces_literal [OF tr(4)])
    have no: "\<not> (\<exists>r'. r = 0x25 # r')"
    proof
      assume "\<exists>r'. r = 0x25 # r'"
      then obtain r' where "v = t @ [0x25, 0x25] @ r'" using tr(1) by auto
      with "1.prems" show False by (auto simp: sublist_def)
    qed
    show ?thesis
    proof (cases "1 < length (0x25 # r) \<and> (0x25 # r) ! 1 = 0x28")
      case False
      with Some tr(3) lit no show ?thesis by (cases r) (auto simp: only_refs.simps [of v])
    next
      case True
      show ?thesis
      proof (cases "key_ref (0x25 # r)")
        case None
        with Some tr(3) lit True show ?thesis by (cases r) (auto simp: only_refs.simps [of v])
      next
        case kr: (Some q)
        obtain name n where q: "q = (name, n)" by (cases q)
        have "\<not> sublist [0x25, 0x25] (drop n (drop p v))"
          using "1.prems" sublist_drop [of "n + p" v] sublist_order.order_trans by (metis drop_drop)
        with "1.IH" [OF Some refl, unfolded tr(3), OF True kr q [symmetric]] tr(3)
        have "only_refs (drop n (0x25 # r)) = (pieces (drop n (0x25 # r)) \<noteq> None)" by simp
        with Some tr(3) lit True kr q show ?thesis by (cases r) (auto simp: only_refs.simps [of v])
      qed
    qed
  qed
qed

text \<open>
  \<^verbatim>\<open>before_get\<close> gives a value exactly its meaning: what it returns is the expansion of the value with at most
  \<^verbatim>\<open>MAX_INTERPOLATION_DEPTH\<close> levels of references, and every value whose expansion fits
  \<^verbatim>\<open>MAX_INTERPOLATION_OUTPUT\<close> bytes is returned. The single accumulator, the shared length check and the
  early returns of the loop change nothing else.
\<close>

lemma before_get_expand:
  "before_get lower opt v look sc = Inr s \<Longrightarrow> expand MAX_INTERPOLATION_DEPTH lower look v = Some s"
  "expand MAX_INTERPOLATION_DEPTH lower look v = Some s \<Longrightarrow> ulen s \<le> MAX_INTERPOLATION_OUTPUT \<Longrightarrow>
     before_get lower opt v look sc = Inr s"
proof -
  have "expand MAX_INTERPOLATION_DEPTH lower look v = expand_with (expand (MAX_INTERPOLATION_DEPTH - 1) lower look) lower look v"
    unfolding MAX_INTERPOLATION_DEPTH_def by (simp add: numeral_eq_Suc)
  then show "before_get lower opt v look sc = Inr s \<Longrightarrow> expand MAX_INTERPOLATION_DEPTH lower look v = Some s"
    "expand MAX_INTERPOLATION_DEPTH lower look v = Some s \<Longrightarrow> ulen s \<le> MAX_INTERPOLATION_OUTPUT \<Longrightarrow>
      before_get lower opt v look sc = Inr s"
    using interp_loop_sound [of lower look sc opt 1 v "[]" s] interp_loop_complete [of 1 lower look v s "[]" sc opt]
    by (auto simp: before_get_def interpolate_def MAX_INTERPOLATION_DEPTH_def)
qed

text \<open>A value without \<^verbatim>\<open>%\<close> stands for itself.\<close>

lemma before_get_plain: "0x25 \<notin> set v \<Longrightarrow> before_get lower opt v look sc = Inr v"
  using position_None [of "\<lambda>c. c = 0x25" v]
  by (auto simp: before_get_def interpolate_def interp_loop.simps [of lower look sc opt "Suc 0" v] MAX_INTERPOLATION_DEPTH_def)

lemma validate_set_plain: "0x25 \<notin> set v \<Longrightarrow> validate_set v sc = Inr ()"
proof -
  assume no: "0x25 \<notin> set v"
  then have "\<not> sublist [0x25, 0x25] v" by (auto simp: sublist_def)
  moreover have "pieces v \<noteq> None" using pieces_literal [of v "[]"] no by auto
  ultimately show ?thesis by (simp add: validate_set_def remove_escapes_id only_refs_pieces)
qed

section \<open>What an error quotes\<close>

primrec quoted :: "interp_error \<Rightarrow> ustr option" where
  "quoted (TooDeep q) = q"
| "quoted (TooLong q) = q"
| "quoted (BadReference q) = q"
| "quoted (MissingOption q) = q"
| "quoted (StrayPercent q) = q"
| "quoted (InvalidSyntax q) = q"

lemma interp_loop_withheld: "interp_loop lower look sc opt depth rest out = Inl e \<Longrightarrow> sc \<Longrightarrow> quoted e = None"
proof (induction lower look sc opt depth rest out arbitrary: e rule: interp_loop.induct)
  case (1 lower look sc opt depth rest out)
  note loop = "1.prems"(1) [unfolded interp_loop.simps [of lower look sc opt depth rest out]]
  show ?case
  proof (cases "rest = [] \<or> ulen out > MAX_INTERPOLATION_OUTPUT \<or> position (\<lambda>c. c = 0x25) rest = None")
    case True
    with loop "1.prems"(2) show ?thesis by (auto simp: quote_def split: if_splits)
  next
    case False
    then obtain p where ne: "rest \<noteq> []" and short: "\<not> ulen out > MAX_INTERPOLATION_OUTPUT"
      and p: "position (\<lambda>c. c = 0x25) rest = Some p" by auto
    note IH = "1.IH" [OF ne short p refl refl]
    let ?r = "drop p rest" and ?out = "out @ take p rest"
    let ?esc = "length ?r > 1 \<and> ?r ! 1 = 0x25" and ?ref = "length ?r > 1 \<and> ?r ! 1 = 0x28"
    note turn = loop [unfolded Let_def, simplified ne short p if_False option.case]
    show ?thesis
    proof (cases "\<not> ?esc \<and> ?ref \<and> (\<exists>name n v. key_ref ?r = Some (name, n) \<and> look (optionxform lower name) = Some (Some v))")
      case False
      then show ?thesis
        using turn "1.prems"(2) IH(1) [of e] by (auto simp: quote_def split: if_splits option.splits)
    next
      case True
      then obtain name n v where kr: "key_ref ?r = Some (name, n)" and lk: "look (optionxform lower name) = Some (Some v)" by auto
      from True have esc: "\<not> ?esc" and ref: "?ref" by auto
      note IH = IH(2-4) [OF esc ref kr refl lk refl]
      show ?thesis
        using turn esc ref kr lk "1.prems"(2) IH(1) [of e] IH(2) [of _ e] IH(3) [of e]
        by (auto simp: quote_def split: if_splits sum.splits)
    qed
  qed
qed

lemma before_get_withheld: "before_get lower opt v look True = Inl e \<Longrightarrow> quoted e = None"
  using interp_loop_withheld by (auto simp: before_get_def interpolate_def quote_def split: if_splits)

lemma validate_set_withheld: "validate_set v True = Inl e \<Longrightarrow> quoted e = None"
  by (auto simp: validate_set_def quote_def split: if_splits)

section \<open>Properties\<close>

definition demo_look :: "ustr \<Rightarrow> ustr option option" where
  "demo_look k = (if k = lit ''root'' then Some (Some (lit ''/mnt''))
     else if k = lit ''home'' then Some (Some (lit ''%(root)s/home'')) else None)"

text \<open>
  C33. Interpolation cannot exhaust memory: whatever the references, a value and a view whose values have at most
  \<open>B\<close> bytes expand to at most \<^verbatim>\<open>MAX_INTERPOLATION_OUTPUT\<close> plus \<open>2 * B\<close> bytes.
\<close>

theorem before_get_bounded:
  assumes "before_get lower opt v look sc = Inr s" "ulen v \<le> B" "\<And>k w. look k = Some (Some w) \<Longrightarrow> ulen w \<le> B"
  shows "ulen s \<le> MAX_INTERPOLATION_OUTPUT + 2 * B"
  using interp_loop_bounded [of lower look sc opt 1 v "[]" s B] assms
  by (auto simp: before_get_def interpolate_def split: if_splits)

theorem before_get_bounded_witness: "ulen (lit ''/mnt/home/a%'') \<le> MAX_INTERPOLATION_OUTPUT + 2 * 20"
proof (rule before_get_bounded)
  show "before_get (\<lambda>s. s) (lit ''dir'') (lit ''%(home)s/a%%'') demo_look False = Inr (lit ''/mnt/home/a%'')" by code_simp
  show "ulen (lit ''%(home)s/a%%'') \<le> 20" by code_simp
  show "\<And>k w. demo_look k = Some (Some w) \<Longrightarrow> ulen w \<le> 20"
    by (auto simp: demo_look_def lit_def ulen_def utf8_len_def split: if_splits)
qed

text \<open>
  On a value without \<^verbatim>\<open>%%\<close>, the screen \<^verbatim>\<open>set\<close> applies is the syntax \<^verbatim>\<open>get\<close> reads: it accepts exactly the
  values that cut into text and references.
\<close>

theorem validate_set_exact:
  "\<not> sublist [0x25, 0x25] v \<Longrightarrow> (validate_set v sc = Inr ()) = (pieces v \<noteq> None)"
  by (simp add: validate_set_def remove_escapes_id only_refs_pieces)

theorem validate_set_exact_witness:
  "validate_set (lit ''%(home)s/a'') True = Inr () \<and> validate_set (lit ''5% off'') True \<noteq> Inr ()"
proof -
  have "\<not> sublist [0x25, 0x25] (lit ''%(home)s/a'')" "pieces (lit ''%(home)s/a'') \<noteq> None"
    "\<not> sublist [0x25, 0x25] (lit ''5% off'')" "pieces (lit ''5% off'') = None"
    by code_simp+
  with validate_set_exact [of "lit ''%(home)s/a''" True] validate_set_exact [of "lit ''5% off''" True] show ?thesis by blast
qed

end
