(* ===== verification/Config_File.thy ===== *)
theory Config_File
  imports Config_Roundtrip Config_Interp
begin

text \<open>
  The operations of \<^verbatim>\<open>ConfigFile\<close> (\<^verbatim>\<open>src/configfile/mod.rs\<close>) on a configuration in memory: the getters and the
  changes. The lemmas show an invariant of every configuration a program can build, what each change leaves of
  every other entry, that the merged view answers as a direct lookup, the round trips of the typed setters and
  what the errors of a scrubbed configuration carry.
\<close>

section \<open>Errors\<close>

datatype config_error =
    OptionNameRefused ustr NameFault
  | SectionNameRefused ustr NameFault
  | InvalidSectionName ustr
  | SectionExists ustr
  | NoSuchSection ustr
  | InterpFailed interp_error
  | NotAnInteger "ustr option"
  | NotABoolean "ustr option"
  | ReadFailed read_error
  | NotUtf8
  | GrewWhileRead
  | NotRegularFile
  | SymlinkInPath
  | SecretMemRefused
  | ConfigErrno errno

section \<open>Settings\<close>

definition set_allow_no_value :: "ConfigFile \<Rightarrow> bool \<Rightarrow> ConfigFile" where
  "set_allow_no_value cfg yes = cfg\<lparr>allow_no_value := yes\<rparr>"

definition scrubbed :: "ConfigFile \<Rightarrow> bool \<Rightarrow> ConfigFile" where
  "scrubbed cfg yes = cfg\<lparr>scrub := yes\<rparr>"

section \<open>Access\<close>

definition section_names :: "ConfigFile \<Rightarrow> ustr list" where
  "section_names cfg = Ordered_keys (sections cfg)"

definition has_section :: "ConfigFile \<Rightarrow> ustr \<Rightarrow> bool" where
  "has_section cfg section = Ordered_contains (sections cfg) section"

definition options :: "ConfigFile \<Rightarrow> ustr \<Rightarrow> ustr list option" where
  "options cfg section =
     (case Ordered_get (sections cfg) section of
        None \<Rightarrow> None
      | Some opts \<Rightarrow>
          Some (Ordered_keys opts @ filter (\<lambda>k. \<not> Ordered_contains opts k) (Ordered_keys (defaults cfg))))"

definition has_option :: "(ustr \<Rightarrow> ustr) \<Rightarrow> ConfigFile \<Rightarrow> ustr \<Rightarrow> ustr \<Rightarrow> bool" where
  "has_option lower cfg section option =
     (let key = optionxform lower option
      in case Ordered_get (sections cfg) section of
          Some opts \<Rightarrow> Ordered_contains opts key \<or> Ordered_contains (defaults cfg) key
        | None \<Rightarrow> section = DEFAULT_SECTION \<and> Ordered_contains (defaults cfg) key)"

definition raw_lookup :: "ConfigFile \<Rightarrow> ustr \<Rightarrow> ustr \<Rightarrow> ustr option option" where
  "raw_lookup cfg section key =
     (case Ordered_get (sections cfg) section of
        Some opts \<Rightarrow> (case Ordered_get opts key of Some v \<Rightarrow> Some v | None \<Rightarrow> Ordered_get (defaults cfg) key)
      | None \<Rightarrow> if section = DEFAULT_SECTION then Ordered_get (defaults cfg) key else None)"

definition get_raw :: "(ustr \<Rightarrow> ustr) \<Rightarrow> ConfigFile \<Rightarrow> ustr \<Rightarrow> ustr \<Rightarrow> ustr option" where
  "get_raw lower cfg section option =
     (case raw_lookup cfg section (optionxform lower option) of Some v \<Rightarrow> v | None \<Rightarrow> None)"

definition require_section :: "ConfigFile \<Rightarrow> ustr \<Rightarrow> config_error + unit" where
  "require_section cfg section =
     (if section = DEFAULT_SECTION \<or> Ordered_contains (sections cfg) section then Inr ()
      else Inl (NoSuchSection section))"

definition merged_view :: "ConfigFile \<Rightarrow> ustr \<Rightarrow> MergedView" where
  "merged_view cfg section =
     (let view = fold (\<lambda>(k, v). upsert k v) (entries (defaults cfg)) MergedView_default
      in case Ordered_get (sections cfg) section of
          Some opts \<Rightarrow> fold (\<lambda>(k, v). upsert k v) (entries opts) view
        | None \<Rightarrow> view)"

definition ConfigFile_get :: "(ustr \<Rightarrow> ustr) \<Rightarrow> ConfigFile \<Rightarrow> ustr \<Rightarrow> ustr \<Rightarrow> config_error + ustr option" where
  "ConfigFile_get lower cfg section option =
     (case require_section cfg section of
        Inl e \<Rightarrow> Inl e
      | Inr _ \<Rightarrow>
          let key = optionxform lower option
          in case raw_lookup cfg section key of
              Some (Some raw) \<Rightarrow>
                (case interp cfg of
                   NoInterp \<Rightarrow> Inr (Some raw)
                 | Basic \<Rightarrow>
                     (case before_get lower key raw (view_get (merged_view cfg section)) (scrub cfg) of
                        Inl e \<Rightarrow> Inl (InterpFailed e)
                      | Inr s \<Rightarrow> Inr (Some s)))
            | _ \<Rightarrow> Inr None)"

text \<open>\<^verbatim>\<open>str::parse::<i64>\<close>: an optional sign, at least one digit, a value in range.\<close>

definition parse_digits :: "ustr \<Rightarrow> nat option" where
  "parse_digits s =
     (if s = [] \<or> \<not> list_all (\<lambda>c. 0x30 \<le> c \<and> c \<le> 0x39) s then None
      else Some (foldl (\<lambda>n c. n * 10 + (c - 0x30)) 0 s))"

definition in_i64 :: "int \<Rightarrow> bool" where
  "in_i64 i \<longleftrightarrow> - (2 ^ 63) \<le> i \<and> i < 2 ^ 63"

definition parse_i64 :: "ustr \<Rightarrow> int option" where
  "parse_i64 s =
     (case (if first_is (\<lambda>c. c = 0x2D) s then map_option (\<lambda>n. - int n) (parse_digits (tl s))
            else if first_is (\<lambda>c. c = 0x2B) s then map_option int (parse_digits (tl s))
            else map_option int (parse_digits s)) of
        Some i \<Rightarrow> if in_i64 i then Some i else None
      | None \<Rightarrow> None)"

definition get_int :: "(ustr \<Rightarrow> ustr) \<Rightarrow> ConfigFile \<Rightarrow> ustr \<Rightarrow> ustr \<Rightarrow> config_error + int option" where
  "get_int lower cfg section option =
     (case ConfigFile_get lower cfg section option of
        Inl e \<Rightarrow> Inl e
      | Inr None \<Rightarrow> Inr None
      | Inr (Some v) \<Rightarrow>
          (case parse_i64 (utrim v) of
             Some i \<Rightarrow> Inr (Some i)
           | None \<Rightarrow> Inl (NotAnInteger (quote (scrub cfg) v))))"

definition get_bool :: "(ustr \<Rightarrow> ustr) \<Rightarrow> ConfigFile \<Rightarrow> ustr \<Rightarrow> ustr \<Rightarrow> config_error + bool option" where
  "get_bool lower cfg section option =
     (case ConfigFile_get lower cfg section option of
        Inl e \<Rightarrow> Inl e
      | Inr None \<Rightarrow> Inr None
      | Inr (Some v) \<Rightarrow>
          if lower v \<in> {lit ''1'', lit ''yes'', lit ''true'', lit ''on''} then Inr (Some True)
          else if lower v \<in> {lit ''0'', lit ''no'', lit ''false'', lit ''off''} then Inr (Some False)
          else Inl (NotABoolean (quote (scrub cfg) v)))"

fun items_loop ::
  "(ustr \<Rightarrow> ustr) \<Rightarrow> ConfigFile \<Rightarrow> MergedView \<Rightarrow> (ustr \<times> ustr option) list \<Rightarrow> config_error + (ustr \<times> ustr) list" where
  "items_loop lower cfg view [] = Inr []"
| "items_loop lower cfg view ((k, v) # es) =
     (case (case v of
              None \<Rightarrow> Inr []
            | Some s \<Rightarrow> (case interp cfg of NoInterp \<Rightarrow> Inr s | Basic \<Rightarrow> before_get lower k s (view_get view) (scrub cfg))) of
        Inl e \<Rightarrow> Inl (InterpFailed e)
      | Inr s \<Rightarrow> (case items_loop lower cfg view es of Inl e \<Rightarrow> Inl e | Inr out \<Rightarrow> Inr ((k, s) # out)))"

definition items :: "(ustr \<Rightarrow> ustr) \<Rightarrow> ConfigFile \<Rightarrow> ustr \<Rightarrow> config_error + (ustr \<times> ustr) list option" where
  "items lower cfg section =
     (if \<not> Ordered_contains (sections cfg) section \<and> section \<noteq> DEFAULT_SECTION then Inr None
      else let view = merged_view cfg section
        in case items_loop lower cfg view (view_entries view) of Inl e \<Rightarrow> Inl e | Inr out \<Rightarrow> Inr (Some out))"

section \<open>Changes\<close>

definition add_section :: "ConfigFile \<Rightarrow> ustr \<Rightarrow> config_error + ConfigFile" where
  "add_section cfg name =
     (case section_fault name of
        Some why \<Rightarrow> Inl (SectionNameRefused name why)
      | None \<Rightarrow>
          if name = DEFAULT_SECTION then Inl (InvalidSectionName name)
          else if Ordered_contains (sections cfg) name then Inl (SectionExists name)
          else Inr (cfg\<lparr>sections := store name Ordered_new (sections cfg)\<rparr>))"

definition ConfigFile_set :: "(ustr \<Rightarrow> ustr) \<Rightarrow> ConfigFile \<Rightarrow> ustr \<Rightarrow> ustr \<Rightarrow> ustr option \<Rightarrow> config_error + ConfigFile" where
  "ConfigFile_set lower cfg section option v =
     (let key = optionxform lower option
      in case key_fault key of
          Some why \<Rightarrow> Inl (OptionNameRefused option why)
        | None \<Rightarrow>
            (case (case v of Some s \<Rightarrow> if interp cfg = Basic then validate_set s (scrub cfg) else Inr () | None \<Rightarrow> Inr ()) of
               Inl e \<Rightarrow> Inl (InterpFailed e)
             | Inr _ \<Rightarrow>
                 if section = DEFAULT_SECTION then Inr (cfg\<lparr>defaults := store key v (defaults cfg)\<rparr>)
                 else case Ordered_get_mut (sections cfg) section (store key v) of
                     Some secs \<Rightarrow> Inr (cfg\<lparr>sections := secs\<rparr>)
                   | None \<Rightarrow> Inl (NoSuchSection section)))"

definition set_int :: "(ustr \<Rightarrow> ustr) \<Rightarrow> ConfigFile \<Rightarrow> ustr \<Rightarrow> ustr \<Rightarrow> int \<Rightarrow> config_error + ConfigFile" where
  "set_int lower cfg section option i = ConfigFile_set lower cfg section option (Some (lit (show_int i)))"

definition set_bool :: "(ustr \<Rightarrow> ustr) \<Rightarrow> ConfigFile \<Rightarrow> ustr \<Rightarrow> ustr \<Rightarrow> bool \<Rightarrow> config_error + ConfigFile" where
  "set_bool lower cfg section option b =
     ConfigFile_set lower cfg section option (Some (if b then lit ''True'' else lit ''False''))"

definition remove_section :: "ConfigFile \<Rightarrow> ustr \<Rightarrow> bool \<times> ConfigFile" where
  "remove_section cfg name =
     (case Ordered_remove name (sections cfg) of
        (Some _, secs) \<Rightarrow> (True, cfg\<lparr>sections := secs\<rparr>)
      | (None, _) \<Rightarrow> (False, cfg))"

definition remove_option :: "(ustr \<Rightarrow> ustr) \<Rightarrow> ConfigFile \<Rightarrow> ustr \<Rightarrow> ustr \<Rightarrow> config_error + (bool \<times> ConfigFile)" where
  "remove_option lower cfg section option =
     (let key = optionxform lower option
      in if section = DEFAULT_SECTION then
           (case Ordered_remove key (defaults cfg) of
              (Some _, m) \<Rightarrow> Inr (True, cfg\<lparr>defaults := m\<rparr>)
            | (None, _) \<Rightarrow> Inr (False, cfg))
         else case Ordered_get (sections cfg) section of
             None \<Rightarrow> Inl (NoSuchSection section)
           | Some opts \<Rightarrow>
               (case fst (Ordered_remove key opts) of
                  Some _ \<Rightarrow>
                    Inr (True, cfg\<lparr>sections := the (Ordered_get_mut (sections cfg) section (\<lambda>m. snd (Ordered_remove key m)))\<rparr>)
                | None \<Rightarrow> Inr (False, cfg)))"

section \<open>Well-formed configurations\<close>

text \<open>
  What every configuration the operations build satisfies: sound maps, no section of the name \<^verbatim>\<open>DEFAULT\<close>, and only
  keys in the form lookups ask for.
\<close>

definition key_form :: "(ustr \<Rightarrow> ustr) \<Rightarrow> ustr \<Rightarrow> bool" where
  "key_form lower k \<longleftrightarrow> k \<noteq> [] \<and> k \<in> range lower"

definition keys_in :: "(ustr \<Rightarrow> bool) \<Rightarrow> 'v Ordered \<Rightarrow> bool" where
  "keys_in P m \<longleftrightarrow> (\<forall>e \<in> set (entries m). P (fst e))"

definition cfg_inv :: "(ustr \<Rightarrow> ustr) \<Rightarrow> ConfigFile \<Rightarrow> bool" where
  "cfg_inv lower cfg \<longleftrightarrow>
     cfg_maps_ok cfg \<and> keys_in (key_form lower) (defaults cfg)
     \<and> (\<forall>n m. Ordered_get (sections cfg) n = Some m \<longrightarrow> n \<noteq> [] \<and> n \<noteq> DEFAULT_SECTION \<and> keys_in (key_form lower) m)"

lemma keys_in_new [simp]: "keys_in P Ordered_new"
  by (simp add: keys_in_def Ordered_new_def)

lemma keys_in_set_at: "keys_in P m \<Longrightarrow> keys_in P (set_at i f m)"
proof (cases "i < length (entries m)")
  case True
  assume "keys_in P m"
  with True have "P (fst (entries m ! i))" by (simp add: keys_in_def)
  with \<open>keys_in P m\<close> show ?thesis
    using set_update_subset_insert [of "entries m" i "(fst (entries m ! i), f (snd (entries m ! i)))"]
    by (fastforce simp: keys_in_def set_at_def)
qed (simp add: keys_in_def set_at_def list_update_beyond)

lemma keys_in_store: "keys_in P m \<Longrightarrow> P k \<Longrightarrow> keys_in P (store k v m)"
  using keys_in_set_at [of P m] by (auto simp: Ordered_insert_def split: option.split) (auto simp: keys_in_def)

lemma keys_in_remove: "Ordered_ok m \<Longrightarrow> keys_in P m \<Longrightarrow> keys_in P (snd (Ordered_remove k m))"
  by (auto simp: keys_in_def Ordered_remove_entries remove_key_def)

lemma cfg_invD:
  assumes "cfg_inv lower cfg"
  shows "Ordered_ok (defaults cfg)" "Ordered_ok (sections cfg)" "Ordered_get (sections cfg) DEFAULT_SECTION = None"
    "Ordered_get (sections cfg) n = Some m \<Longrightarrow> Ordered_ok m"
  using assms by (auto simp: cfg_inv_def cfg_maps_ok_def) (metis not_None_eq)

section \<open>Lookup\<close>

text \<open>A section answers with its own value and falls back to \<^verbatim>\<open>DEFAULT\<close>; nothing else is addressable.\<close>

definition addressable :: "ConfigFile \<Rightarrow> ustr \<Rightarrow> bool" where
  "addressable cfg s \<longleftrightarrow> s = DEFAULT_SECTION \<or> Ordered_get (sections cfg) s \<noteq> None"

lemma raw_lookup_own:
  "raw_lookup cfg s k =
     (if addressable cfg s then over (own (sections cfg) s k) (Ordered_get (defaults cfg) k) else None)"
  by (auto simp: raw_lookup_def addressable_def own_def over_def split: option.splits)

lemma require_section_iff: "require_section cfg s = (if addressable cfg s then Inr () else Inl (NoSuchSection s))"
  by (auto simp: require_section_def addressable_def Ordered_contains_get)

lemma merged_view_put_all:
  "merged_view cfg s = (let view = merged.put_all (entries (defaults cfg)) MergedView_default
     in case Ordered_get (sections cfg) s of Some opts \<Rightarrow> merged.put_all (entries opts) view | None \<Rightarrow> view)"
  unfolding merged_view_def merged.put_all_def by simp

lemma merged_view_ok: "view_ok (merged_view cfg s)"
  by (auto simp: merged_view_put_all Let_def merged.ok_put_all merged.ok_empty split: option.split)

lemma merged_view_get:
  assumes "cfg_inv lower cfg" "addressable cfg s"
  shows "view_get (merged_view cfg s) k = raw_lookup cfg s k"
proof -
  note ok = cfg_invD [OF assms(1)]
  have d: "view_get (merged.put_all (entries (defaults cfg)) MergedView_default) k = Ordered_get (defaults cfg) k" for k
    using ok(1) by (simp add: merged.look_put_all merged.ok_empty map_of_rev entries_distinct Ordered_get_map_of
        merged.look_list merged.list_empty split: option.split)
  show ?thesis
  proof (cases "Ordered_get (sections cfg) s")
    case None
    with assms(2) d show ?thesis by (simp add: merged_view_put_all raw_lookup_own own_def addressable_def)
  next
    case (Some m)
    with ok(4) [OF Some] assms(2) show ?thesis
      by (simp add: merged_view_put_all raw_lookup_own own_def over_def merged.look_put_all merged.ok_put_all merged.ok_empty d
          map_of_rev entries_distinct Ordered_get_map_of split: option.split)
  qed
qed

section \<open>What a change changes\<close>

lemma own_store:
  "Ordered_ok secs \<Longrightarrow> own (store n m secs) s k = (if s = n then Ordered_get m k else own secs s k)"
  by (simp add: own_def ordered.look_put)

lemma set_cases:
  assumes "cfg_inv lower cfg" "ConfigFile_set lower cfg section option v = Inr cfg'"
  obtains "section = DEFAULT_SECTION" "cfg' = cfg\<lparr>defaults := store (lower option) v (defaults cfg)\<rparr>" "key_fault (lower option) = None"
  | m where "section \<noteq> DEFAULT_SECTION" "Ordered_get (sections cfg) section = Some m" "key_fault (lower option) = None"
    "cfg' = cfg\<lparr>sections := store section (store (lower option) v m) (sections cfg)\<rparr>"
proof -
  note ok = cfg_invD [OF assms(1)]
  have key: "key_fault (lower option) = None"
    using assms(2) by (auto simp: ConfigFile_set_def Let_def optionxform_def split: option.splits)
  show thesis
  proof (cases "section = DEFAULT_SECTION")
    case True
    with assms(2) key that(1) show thesis
      by (auto simp: ConfigFile_set_def Let_def optionxform_def split: option.splits sum.splits if_splits)
  next
    case False
    then obtain secs where g: "Ordered_get_mut (sections cfg) section (store (lower option) v) = Some secs"
      and cfg': "cfg' = cfg\<lparr>sections := secs\<rparr>"
      using assms(2) by (auto simp: ConfigFile_set_def Let_def optionxform_def split: option.splits sum.splits if_splits)
    then obtain m where m: "Ordered_get (sections cfg) section = Some m"
      by (auto simp: Ordered_get_mut_def Ordered_get_def Ordered_position_def)
    with get_mut_store [OF ok(2) m] g cfg' that(2) [OF False m key] show thesis by simp
  qed
qed

lemma cfg_inv_sections:
  assumes "cfg_inv lower cfg" "s \<noteq> []" "s \<noteq> DEFAULT_SECTION" "Ordered_ok m" "keys_in (key_form lower) m"
  shows "cfg_inv lower (cfg\<lparr>sections := store s m (sections cfg)\<rparr>)"
  using assms cfg_invD [OF assms(1)]
  by (auto simp: cfg_inv_def cfg_maps_ok_def ordered.ok_put ordered.look_put split: if_splits)

lemma cfg_inv_section:
  "cfg_inv lower cfg \<Longrightarrow> Ordered_get (sections cfg) s = Some m \<Longrightarrow> s \<noteq> [] \<and> s \<noteq> DEFAULT_SECTION \<and> Ordered_ok m \<and> keys_in (key_form lower) m"
  by (auto simp: cfg_inv_def cfg_maps_ok_def)

lemma cfg_inv_set:
  assumes "cfg_inv lower cfg" "ConfigFile_set lower cfg section option v = Inr cfg'"
  shows "cfg_inv lower cfg'"
  using assms
proof (cases rule: set_cases)
  case 1
  then have "key_form lower (lower option)" by (auto simp: key_form_def key_fault_def)
  with 1 assms(1) show ?thesis by (simp add: cfg_inv_def cfg_maps_ok_def ordered.ok_put keys_in_store)
next
  case (2 m)
  then have "key_form lower (lower option)" by (auto simp: key_form_def key_fault_def)
  with 2 cfg_inv_section [OF assms(1) 2(2)] show ?thesis
    by (auto intro!: cfg_inv_sections [OF assms(1)] ordered.ok_put keys_in_store)
qed

lemma cfg_inv_add_section: "cfg_inv lower cfg \<Longrightarrow> add_section cfg name = Inr cfg' \<Longrightarrow> cfg_inv lower cfg'"
  by (auto simp: add_section_def section_fault_def Ordered_ok_new intro!: cfg_inv_sections split: if_splits option.splits)

lemma Ordered_get_remove:
  "Ordered_ok m \<Longrightarrow> Ordered_get (snd (Ordered_remove k m)) k' = (if k' = k then None else Ordered_get m k')"
proof -
  have "map_of (remove_key k es) k' = (if k' = k then None else map_of es k')" for es :: "(ustr \<times> 'a) list"
    by (induction es) (auto simp: remove_key_def)
  then show "Ordered_ok m \<Longrightarrow> ?thesis" by (simp add: Ordered_get_map_of Ordered_remove_entries)
qed

lemma Ordered_remove_gone: "fst (Ordered_remove k m) = None \<Longrightarrow> snd (Ordered_remove k m) = m"
  by (auto simp: Ordered_remove_def split: option.splits prod.splits)

lemma Ordered_remove_found: "Ordered_ok m \<Longrightarrow> (fst (Ordered_remove k m) \<noteq> None) = (Ordered_get m k \<noteq> None)"
  by (auto simp: Ordered_remove_entries Ordered_get_map_of)

lemma remove_section_eq:
  "cfg_inv lower cfg \<Longrightarrow> remove_section cfg name =
     (has_section cfg name, cfg\<lparr>sections := snd (Ordered_remove name (sections cfg))\<rparr>)"
  using Ordered_remove_gone [of name "sections cfg"] Ordered_remove_found [OF cfg_invD(2), of lower cfg name]
  by (auto simp: remove_section_def has_section_def Ordered_contains_get split: prod.splits option.splits)

lemma cfg_inv_remove_section:
  assumes "cfg_inv lower cfg"
  shows "cfg_inv lower (snd (remove_section cfg name))"
  unfolding remove_section_eq [OF assms] using assms
  by (auto simp: cfg_inv_def cfg_maps_ok_def Ordered_get_remove Ordered_remove_entries split: if_splits)

lemma remove_option_cases:
  assumes "cfg_inv lower cfg" "remove_option lower cfg section option = Inr (found, cfg')"
  obtains "section = DEFAULT_SECTION" "cfg' = cfg\<lparr>defaults := snd (Ordered_remove (lower option) (defaults cfg))\<rparr>"
    "found \<longleftrightarrow> Ordered_get (defaults cfg) (lower option) \<noteq> None"
  | m where "section \<noteq> DEFAULT_SECTION" "Ordered_get (sections cfg) section = Some m"
    "cfg' = cfg\<lparr>sections := store section (snd (Ordered_remove (lower option) m)) (sections cfg)\<rparr>"
    "found \<longleftrightarrow> Ordered_get m (lower option) \<noteq> None"
proof -
  note ok = cfg_invD [OF assms(1)]
  show thesis
  proof (cases "section = DEFAULT_SECTION")
    case True
    with assms(2) Ordered_remove_gone [of "lower option" "defaults cfg"] Ordered_remove_found [OF ok(1), of "lower option"] that(1) [OF True] show thesis
      by (auto simp: remove_option_def optionxform_def Let_def split: prod.splits option.splits)
  next
    case False
    with assms(2) obtain m where m: "Ordered_get (sections cfg) section = Some m"
      by (auto simp: remove_option_def Let_def split: option.splits)
    let ?m = "snd (Ordered_remove (lower option) m)"
    have "cfg' = cfg\<lparr>sections := store section ?m (sections cfg)\<rparr> \<and> (found \<longleftrightarrow> Ordered_get m (lower option) \<noteq> None)"
      using assms(2) False m Ordered_remove_gone [of "lower option" m] Ordered_remove_found [OF ok(4) [OF m], of "lower option"] get_mut_store [OF ok(2) m]
        store_same [OF ok(2) m]
      by (auto simp: remove_option_def optionxform_def Let_def split: option.splits)
    with that(2) [OF False m] show thesis by blast
  qed
qed

lemma cfg_inv_remove_option:
  assumes "cfg_inv lower cfg" "remove_option lower cfg section option = Inr (found, cfg')"
  shows "cfg_inv lower cfg'"
  using assms
proof (cases rule: remove_option_cases)
  case 1
  with assms(1) show ?thesis by (simp add: cfg_inv_def cfg_maps_ok_def Ordered_remove_entries keys_in_remove)
next
  case (2 m)
  with cfg_inv_section [OF assms(1) 2(2)] show ?thesis
    by (auto intro!: cfg_inv_sections [OF assms(1)] keys_in_remove simp: Ordered_remove_entries)
qed

section \<open>What a read leaves\<close>

definition reading_keys :: "(ustr \<Rightarrow> ustr) \<Rightarrow> Work \<Rightarrow> bool" where
  "reading_keys lower w \<longleftrightarrow>
     keys_in (key_form lower) (w_default w) \<and> keys_in (\<lambda>n. n \<noteq> [] \<and> n \<noteq> DEFAULT_SECTION) (w_sections w)
     \<and> (\<forall>s \<in> set (entries (w_sections w)). keys_in (key_form lower) (snd s))"

lemma reading_keys_put:
  assumes "reading_keys lower w" "keys_in (key_form lower) m"
  shows "reading_keys lower (put_opts w c m)"
proof (cases c)
  case (CurSection i)
  let ?es = "entries (w_sections w)"
  have "\<forall>s \<in> set (?es[i := (fst (?es ! i), m)]). keys_in (key_form lower) (snd s)"
    using assms set_update_subset_insert by (fastforce simp: reading_keys_def)
  with CurSection assms show ?thesis
    by (simp add: reading_keys_def put_opts_def keys_in_set_at) (simp add: set_at_def)
qed (use assms in \<open>simp_all add: reading_keys_def put_opts_def\<close>)

lemma reading_keys_cur:
  "reading_ok st \<Longrightarrow> reading_keys lower (work st) \<Longrightarrow> cur_opts (work st) (cur st) = Some m \<Longrightarrow> keys_in (key_form lower) m"
  by (auto simp: reading_ok_def reading_keys_def cur_opts_def cur_valid_def split: Cur.splits)

lemma reading_keys_push:
  assumes "reading_ok st" "reading_keys lower (work st)" "push_line (work st) (cur st) k l = Some w"
  shows "reading_keys lower w"
proof -
  from assms(3) obtain m k' where m: "cur_opts (work st) (cur st) = Some m"
    and w: "map_option (put_opts (work st) (cur st)) (Ordered_get_mut m k' (map_option (\<lambda>ls. ls @ [l]))) = Some w"
    by (auto simp: push_line_def split: option.splits)
  have "keys_in (key_form lower) m" by (rule reading_keys_cur [OF assms(1,2) m])
  with w assms(2) show ?thesis
    by (auto simp: Ordered_get_mut_def intro: reading_keys_put keys_in_set_at)
qed

lemma section_header_nonempty: "section_header clean = Some h \<Longrightarrow> h \<noteq> []"
  by (cases clean) (auto simp: section_header_def rposition_def slice_def split: if_splits option.splits)

lemma reading_keys_line:
  assumes "reading_ok st" "reading_keys lower (work st)" "read_line lower allow sc n l st = Inr st'"
  shows "reading_keys lower (work st')"
  using assms(3)
proof (cases rule: read_lineE)
  case (blank c)
  then show ?thesis
    using assms(2) reading_keys_push [OF assms(1,2)] by (auto simp: read_blank_def split: option.splits)
next
  case (push clean w)
  then show ?thesis using reading_keys_push [OF assms(1,2)] by simp
next
  case (header clean h)
  from header(1) have h: "h \<noteq> []" by (rule section_header_nonempty)
  have "set (entries (store h Ordered_new m)) \<subseteq> insert (h, Ordered_new) (set (entries m))" if "Ordered_ok m" for m :: "Acc Ordered Ordered"
  proof -
    have "set (upsert_list k v es) \<subseteq> insert (k, v) (set es)" for k and v :: "Acc Ordered" and es by (induction es) auto
    with that show ?thesis by (simp add: Ordered_insert_entries)
  qed
  then have "\<forall>s \<in> set (entries (store h Ordered_new (w_sections (work st)))). keys_in (key_form lower) (snd s)"
    using assms(1,2) by (fastforce simp: reading_ok_def reading_keys_def)
  with header(2) h assms(2) show ?thesis
    by (auto simp: read_header_def reading_keys_def Let_def intro: keys_in_store split: if_splits)
next
  case (option clean i)
  obtain m where m: "cur_opts (work st) (cur st) = Some m"
    using option(1) by (cases "cur st") (auto simp: cur_opts_def)
  have km: "keys_in (key_form lower) m" by (rule reading_keys_cur [OF assms(1,2) m])
  from option(2) m consider "work st' = work st"
    | d raw acc where "lower raw \<noteq> []" "work st' = put_opts ((work st)\<lparr>dups := d\<rparr>) (cur st) (store (lower raw) acc m)"
    by (auto simp: read_option_def optionxform_def Let_def split: option.splits if_splits)
  then show ?thesis
  proof cases
    case 1
    with assms(2) show ?thesis by simp
  next
    case 2
    have "keys_in (key_form lower) (store (lower raw) acc m)" using km 2(1) by (simp add: keys_in_store key_form_def)
    moreover have "reading_keys lower ((work st)\<lparr>dups := d\<rparr>)" using assms(2) by (simp add: reading_keys_def)
    ultimately show ?thesis unfolding 2(2) by (intro reading_keys_put)
  qed
qed

lemma reading_keys_lines:
  "reading_ok st \<Longrightarrow> reading_keys lower (work st) \<Longrightarrow> read_lines lower allow sc n ls st = Inr st' \<Longrightarrow>
     reading_ok st' \<and> reading_keys lower (work st')"
proof (induction ls arbitrary: n st)
  case (Cons l ls)
  then obtain st1 where l: "read_line lower allow sc n l st = Inr st1" "read_lines lower allow sc (n + 1) ls st1 = Inr st'"
    by (auto split: sum.splits)
  show ?case
    by (rule Cons.IH [OF read_line_ok [OF Cons.prems(1) l(1)] reading_keys_line [OF Cons.prems(1,2) l(1)] l(2)])
qed simp

lemma keys_in_merge_opts: "keys_in P m \<Longrightarrow> keys_in P t \<Longrightarrow> keys_in P (merge_opts m t)"
proof -
  have "\<forall>e \<in> set es. P (fst e) \<Longrightarrow> keys_in P t \<Longrightarrow> keys_in P (fold (\<lambda>(k, acc) t. store k (join_acc acc) t) es t)" for es
    by (induction es arbitrary: t) (auto simp: keys_in_store)
  then show "keys_in P m \<Longrightarrow> keys_in P t \<Longrightarrow> ?thesis" by (simp add: merge_opts_def keys_in_def [of P m])
qed

lemma cfg_inv_merge:
  assumes "cfg_inv lower cfg" "reading_ok st" "reading_keys lower (work st)"
  shows "cfg_inv lower (merge (work st) cfg)"
proof -
  let ?ws = "w_sections (work st)"
  note ok = cfg_invD [OF assms(1)]
  have wk: "Ordered_ok (w_default (work st))" "Ordered_ok ?ws" "\<forall>s \<in> set (entries ?ws). Ordered_ok (snd s)"
    using assms(2) by (simp_all add: reading_ok_def)
  note look = merge_sections_look [OF ok(2) entries_distinct [OF wk(2)]]
  have sec: "n \<noteq> [] \<and> n \<noteq> DEFAULT_SECTION \<and> Ordered_ok m \<and> keys_in (key_form lower) m"
    if get: "Ordered_get (fold merge_section (entries ?ws) (sections cfg)) n = Some m" for n m
  proof (cases "map_of (entries ?ws) n")
    case None
    with get look [of n] cfg_inv_section [OF assms(1)] show ?thesis by simp
  next
    case (Some w)
    then have w: "(n, w) \<in> set (entries ?ws)" by (rule map_of_SomeD)
    let ?old = "case Ordered_get (sections cfg) n of Some m \<Rightarrow> m | None \<Rightarrow> Ordered_new"
    have "Ordered_ok ?old" "keys_in (key_form lower) ?old"
      using cfg_inv_section [OF assms(1), of n] Ordered_ok_new by (auto split: option.split)
    moreover have "m = merge_opts w ?old" using get look [of n] Some by simp
    moreover have "Ordered_ok w" "keys_in (key_form lower) w" "n \<noteq> []" "n \<noteq> DEFAULT_SECTION"
      using w wk(3) assms(3) by (auto simp: reading_keys_def keys_in_def)
    ultimately show ?thesis by (simp add: merge_opts_look keys_in_merge_opts)
  qed
  then show ?thesis
    using assms(1,3) look wk(1) ok(1)
    by (auto simp: cfg_inv_def cfg_maps_ok_def merge_def merge_opts_look keys_in_merge_opts reading_keys_def dest: sec)
qed

lemma cfg_inv_read:
  assumes "cfg_inv lower cfg" "read lower cfg text = Inr cfg'"
  shows "cfg_inv lower cfg'"
proof -
  from assms(2) obtain st where
    st: "read_lines lower (allow_no_value cfg) (scrub cfg) 1 (split_inclusive 10 text) Reading_start = Inr st"
    and cfg': "cfg' = merge (work st) cfg"
    by (auto simp: read_def split: sum.splits if_splits)
  have "reading_ok Reading_start" "reading_keys lower (work Reading_start)"
    by (auto simp: reading_ok_def reading_keys_def Reading_start_def Ordered_ok_new ordered.list_empty)
  from reading_keys_lines [OF this st] show ?thesis unfolding cfg' by (intro cfg_inv_merge [OF assms(1)]) simp_all
qed

section \<open>Reachable configurations\<close>

text \<open>Every configuration a program can hold: built empty, then read into and changed in any order.\<close>

inductive config_reach :: "(ustr \<Rightarrow> ustr) \<Rightarrow> ConfigFile \<Rightarrow> bool" for lower where
  new: "config_reach lower ConfigFile_new"
| raw: "config_reach lower ConfigFile_raw"
| allow: "config_reach lower cfg \<Longrightarrow> config_reach lower (set_allow_no_value cfg yes)"
| scrubbed: "config_reach lower cfg \<Longrightarrow> config_reach lower (scrubbed cfg yes)"
| read: "config_reach lower cfg \<Longrightarrow> read lower cfg text = Inr cfg' \<Longrightarrow> config_reach lower cfg'"
| add: "config_reach lower cfg \<Longrightarrow> add_section cfg name = Inr cfg' \<Longrightarrow> config_reach lower cfg'"
| set: "config_reach lower cfg \<Longrightarrow> ConfigFile_set lower cfg section option v = Inr cfg' \<Longrightarrow> config_reach lower cfg'"
| remove_section: "config_reach lower cfg \<Longrightarrow> config_reach lower (snd (remove_section cfg name))"
| remove_option: "config_reach lower cfg \<Longrightarrow> remove_option lower cfg section option = Inr (found, cfg') \<Longrightarrow> config_reach lower cfg'"

lemma config_reach_inv: "config_reach lower cfg \<Longrightarrow> cfg_inv lower cfg"
proof (induction rule: config_reach.induct)
  case (set cfg n k v cfg')
  then show ?case by (blast intro: cfg_inv_set)
next
  case (remove_option cfg n k found cfg')
  then show ?case by (blast intro: cfg_inv_remove_option)
qed (auto simp: set_allow_no_value_def scrubbed_def intro: cfg_inv_read cfg_inv_add_section cfg_inv_remove_section,
    auto simp: cfg_inv_def cfg_maps_ok_def ConfigFile_new_def ConfigFile_raw_def Ordered_ok_new)

section \<open>Numbers\<close>

lemma foldl_digits_append: "foldl (\<lambda>n c. n * 10 + (c - 0x30)) (m :: nat) (s @ [c]) = foldl (\<lambda>n c. n * 10 + (c - 0x30)) m s * 10 + (c - 0x30)"
  by simp

lemma lit_append: "lit (s @ t) = lit s @ lit t"
  by (simp add: lit_def)

lemma lit_digit: "d < 10 \<Longrightarrow> lit [char_of (48 + d)] = [48 + d]"
  by (simp add: lit_def of_char_of)

lemma parse_digits_show: "parse_digits (lit (show_nat n)) = Some n"
proof (induction n rule: show_nat.induct)
  case (1 n)
  show ?case
  proof (cases "n < 10")
    case True
    then show ?thesis by (simp add: show_nat.simps [of n] lit_digit parse_digits_def del: lit_Cons)
  next
    case False
    with 1 have IH: "parse_digits (lit (show_nat (n div 10))) = Some (n div 10)" by simp
    have "lit (show_nat n) = lit (show_nat (n div 10)) @ [48 + n mod 10]"
      using False by (simp add: show_nat.simps [of n] lit_append lit_digit del: lit_Cons)
    with IH show ?thesis by (auto simp: parse_digits_def split: if_splits)
  qed
qed

lemma parse_digits_Some: "parse_digits s = Some n \<Longrightarrow> s \<noteq> [] \<and> (\<forall>c \<in> set s. 0x30 \<le> c \<and> c \<le> 0x39)"
  by (auto simp: parse_digits_def list_all_iff split: if_splits)

lemma show_int_chars: "lit (show_int i) \<noteq> []" "\<forall>c \<in> set (lit (show_int i)). c = 0x2D \<or> 0x30 \<le> c \<and> c \<le> 0x39"
  using parse_digits_Some [OF parse_digits_show, of "nat i"] parse_digits_Some [OF parse_digits_show, of "nat (- i)"]
  by (auto simp: show_int_def of_char_def)

lemma parse_i64_show:
  assumes "in_i64 i"
  shows "parse_i64 (lit (show_int i)) = Some i"
proof (cases "i < 0")
  case True
  then have "lit (show_int i) = 0x2D # lit (show_nat (nat (- i)))" by (simp add: show_int_def of_char_def)
  with True assms show ?thesis by (simp add: parse_i64_def parse_digits_show)
next
  case False
  have d: "lit (show_nat (nat i)) \<noteq> []" "\<forall>c \<in> set (lit (show_nat (nat i))). 0x30 \<le> c \<and> c \<le> 0x39"
    using parse_digits_Some [OF parse_digits_show, of "nat i"] by auto
  then have "\<not> first_is (\<lambda>c. c = 0x2D) (lit (show_nat (nat i)))" "\<not> first_is (\<lambda>c. c = 0x2B) (lit (show_nat (nat i)))"
    by (cases "lit (show_nat (nat i))"; auto)+
  with False assms show ?thesis by (simp add: parse_i64_def parse_digits_show show_int_def)
qed

lemma utrim_show_int: "utrim (lit (show_int i)) = lit (show_int i)"
proof -
  have "\<not> is_whitespace c" if "c \<in> set (lit (show_int i))" for c
    using show_int_chars(2) [of i] that by (auto simp: is_whitespace_def)
  then show ?thesis unfolding utrim_def
    by (intro trim_matches_id disjI2) (simp add: show_int_chars(1))
qed

lemma get_plain:
  assumes "raw_lookup cfg s (lower k) = Some (Some v)" "0x25 \<notin> set v"
  shows "ConfigFile_get lower cfg s k = Inr (Some v)"
proof -
  have "addressable cfg s" using assms(1) by (auto simp: raw_lookup_own split: if_splits)
  with assms show ?thesis
    by (simp add: ConfigFile_get_def require_section_iff optionxform_def before_get_plain split: Interp.split)
qed

section \<open>What an error carries\<close>

definition withheld :: "config_error \<Rightarrow> bool" where
  "withheld e =
     (case e of
        InterpFailed e \<Rightarrow> quoted e = None
      | NotAnInteger q \<Rightarrow> q = None
      | NotABoolean q \<Rightarrow> q = None
      | ReadFailed e \<Rightarrow> withhold e = e
      | _ \<Rightarrow> True)"

lemma get_withheld: "scrub cfg \<Longrightarrow> ConfigFile_get lower cfg s k = Inl e \<Longrightarrow> withheld e"
  by (auto simp: ConfigFile_get_def require_section_iff Let_def withheld_def
      split: sum.splits option.splits Interp.splits if_splits dest: before_get_withheld)

lemma items_loop_withheld: "scrub cfg \<Longrightarrow> items_loop lower cfg view es = Inl e \<Longrightarrow> withheld e"
  by (induction lower cfg view es arbitrary: e rule: items_loop.induct)
    (auto simp: withheld_def split: sum.splits option.splits Interp.splits dest: before_get_withheld)

lemma get_int_withheld: "scrub cfg \<Longrightarrow> get_int lower cfg s k = Inl e \<Longrightarrow> withheld e"
  using get_withheld [of cfg lower s k] by (auto simp: get_int_def withheld_def quote_def split: sum.splits option.splits)

lemma get_bool_withheld: "scrub cfg \<Longrightarrow> get_bool lower cfg s k = Inl e \<Longrightarrow> withheld e"
proof -
  assume sc: "scrub cfg" and e: "get_bool lower cfg s k = Inl e"
  show ?thesis
  proof (cases "ConfigFile_get lower cfg s k")
    case (Inl e')
    with e get_withheld [OF sc Inl] show ?thesis by (simp add: get_bool_def)
  next
    case (Inr v)
    with e sc show ?thesis by (cases v) (auto simp: get_bool_def quote_def withheld_def simp del: lit_Cons split: if_splits)
  qed
qed

lemma set_withheld: "scrub cfg \<Longrightarrow> ConfigFile_set lower cfg s k v = Inl e \<Longrightarrow> withheld e"
  by (auto simp: ConfigFile_set_def Let_def withheld_def split: sum.splits option.splits if_splits dest: validate_set_withheld)

lemma read_withheld: "scrub cfg \<Longrightarrow> read lower cfg text = Inl e \<Longrightarrow> withheld (ReadFailed e)"
proof -
  have idem: "withhold (withhold e) = withhold e" for e by (cases e) simp_all
  assume "scrub cfg" "read lower cfg text = Inl e"
  then show ?thesis
    using idem by (auto simp: read_def read_lines_scrub withheld_def split: sum.splits if_splits)
qed

section \<open>Properties\<close>

text \<open>
  C29. Whatever sequence of reads and changes built it, a configuration is well formed: every index agrees with
  its entries, no section is named \<^verbatim>\<open>DEFAULT\<close>, every key is in the form a lookup asks for; and the view
  interpolation works on answers every key of an addressable section as a direct lookup does.
\<close>

theorem config_reach_sound:
  "config_reach lower cfg \<Longrightarrow>
     cfg_inv lower cfg \<and> (addressable cfg s \<longrightarrow> view_get (merged_view cfg s) k = raw_lookup cfg s k)"
  using config_reach_inv merged_view_get by blast

definition demo_base :: ConfigFile where
  "demo_base = projr (ConfigFile_set (\<lambda>s. s) (projr (add_section ConfigFile_new (lit ''a''))) DEFAULT_SECTION (lit ''root'')
     (Some (lit ''/mnt'')))"

definition demo_cfg :: ConfigFile where
  "demo_cfg = projr (ConfigFile_set (\<lambda>s. s) demo_base (lit ''a'') (lit ''dir'') (Some (lit ''%(root)s/x'')))"

lemma demo_base_reach: "config_reach (\<lambda>s. s) demo_base"
proof -
  have "\<not> isl (add_section ConfigFile_new (lit ''a''))" by code_simp
  then have "add_section ConfigFile_new (lit ''a'') = Inr (projr (add_section ConfigFile_new (lit ''a'')))" by simp
  note a = config_reach.add [OF config_reach.new this]
  let ?r = "ConfigFile_set (\<lambda>s. s) (projr (add_section ConfigFile_new (lit ''a''))) DEFAULT_SECTION (lit ''root'') (Some (lit ''/mnt''))"
  have "\<not> isl ?r" by code_simp
  then have "?r = Inr demo_base" by (simp add: demo_base_def)
  from config_reach.set [OF a this] show ?thesis .
qed

lemma demo_set: "ConfigFile_set (\<lambda>s. s) demo_base (lit ''a'') (lit ''dir'') (Some (lit ''%(root)s/x'')) = Inr demo_cfg"
proof -
  have "\<not> isl (ConfigFile_set (\<lambda>s. s) demo_base (lit ''a'') (lit ''dir'') (Some (lit ''%(root)s/x'')))" by code_simp
  then show ?thesis by (simp add: demo_cfg_def)
qed

lemma demo_reach: "config_reach (\<lambda>s. s) demo_cfg"
  by (rule config_reach.set [OF demo_base_reach demo_set])

theorem config_reach_sound_witness:
  "view_get (merged_view demo_cfg (lit ''a'')) (lit ''root'') = raw_lookup demo_cfg (lit ''a'') (lit ''root'')"
proof -
  have "addressable demo_cfg (lit ''a'')" by code_simp
  with config_reach_sound [OF demo_reach] show ?thesis by blast
qed

text \<open>
  C31. \<^verbatim>\<open>set\<close> changes one entry: afterwards the section it named answers the new value for that option, a value set
  in \<^verbatim>\<open>DEFAULT\<close> is inherited by exactly the sections that have none of their own, and every other lookup
  answers as before.
\<close>

theorem set_changes_one:
  assumes "config_reach lower cfg" "ConfigFile_set lower cfg n opt v = Inr cfg'"
  shows "raw_lookup cfg' s k =
    (if k = lower opt \<and> (s = n \<or> n = DEFAULT_SECTION \<and> has_section cfg s \<and> own (sections cfg) s k = None) then Some v
     else raw_lookup cfg s k)"
proof -
  note inv = config_reach_inv [OF assms(1)]
  note ok = cfg_invD [OF inv]
  from inv assms(2) show ?thesis
  proof (cases rule: set_cases)
    case 1
    then have "own (sections cfg) n k = None" using ok(3) by (simp add: own_def)
    with 1 ok(1) show ?thesis
      by (auto simp: raw_lookup_own addressable_def ordered.look_put over_def has_section_def Ordered_contains_get own_def
          split: option.splits)
  next
    case (2 m)
    with ok(2) ordered.look_put [OF ok(4) [OF 2(2)], of "lower opt" v k] show ?thesis
      by (auto simp: raw_lookup_own addressable_def own_store ordered.look_put over_def split: option.splits)
        (auto simp: own_def)
  qed
qed

theorem set_changes_one_witness:
  "raw_lookup demo_cfg (lit ''a'') (lit ''dir'') = Some (Some (lit ''%(root)s/x''))
   \<and> raw_lookup demo_cfg (lit ''a'') (lit ''root'') = raw_lookup demo_base (lit ''a'') (lit ''root'')"
  using set_changes_one [OF demo_base_reach demo_set, of "lit ''a''"] by (simp add: DEFAULT_SECTION_def)

text \<open>
  C30. Under basic interpolation \<^verbatim>\<open>get\<close> returns exactly the meaning of the stored value: the expansion of its
  references, resolved in the section over \<^verbatim>\<open>DEFAULT\<close>, at most \<^verbatim>\<open>MAX_INTERPOLATION_DEPTH\<close> levels deep; and every
  expansion of at most \<^verbatim>\<open>MAX_INTERPOLATION_OUTPUT\<close> bytes is returned.
\<close>

theorem get_expands:
  assumes "config_reach lower cfg" "interp cfg = Basic" "raw_lookup cfg s (lower opt) = Some (Some raw)"
  shows "(ConfigFile_get lower cfg s opt = Inr (Some t) \<longrightarrow> expand MAX_INTERPOLATION_DEPTH lower (raw_lookup cfg s) raw = Some t)
    \<and> (expand MAX_INTERPOLATION_DEPTH lower (raw_lookup cfg s) raw = Some t \<and> ulen t \<le> MAX_INTERPOLATION_OUTPUT
        \<longrightarrow> ConfigFile_get lower cfg s opt = Inr (Some t))"
proof -
  have a: "addressable cfg s" using assms(3) by (auto simp: raw_lookup_own split: if_splits)
  have "view_get (merged_view cfg s) = raw_lookup cfg s"
    using merged_view_get [OF config_reach_inv [OF assms(1)] a] by blast
  with assms(2,3) a have "ConfigFile_get lower cfg s opt =
      (case before_get lower (lower opt) raw (raw_lookup cfg s) (scrub cfg) of Inl e \<Rightarrow> Inl (InterpFailed e) | Inr s \<Rightarrow> Inr (Some s))"
    by (simp add: ConfigFile_get_def require_section_iff optionxform_def)
  then show ?thesis
    using before_get_expand(1) [of lower "lower opt" raw "raw_lookup cfg s" "scrub cfg" t]
      before_get_expand(2) [of lower "raw_lookup cfg s" raw t "lower opt" "scrub cfg"]
    by (cases "before_get lower (lower opt) raw (raw_lookup cfg s) (scrub cfg)") auto
qed

theorem get_expands_witness:
  "ConfigFile_get (\<lambda>s. s) demo_cfg (lit ''a'') (lit ''dir'') = Inr (Some (lit ''/mnt/x''))"
proof -
  have "interp demo_cfg = Basic" "raw_lookup demo_cfg (lit ''a'') (lit ''dir'') = Some (Some (lit ''%(root)s/x''))"
    "expand MAX_INTERPOLATION_DEPTH (\<lambda>s. s) (raw_lookup demo_cfg (lit ''a'')) (lit ''%(root)s/x'') = Some (lit ''/mnt/x'')"
    "ulen (lit ''/mnt/x'') \<le> MAX_INTERPOLATION_OUTPUT"
    by code_simp+
  with get_expands [OF demo_reach, of "lit ''a''" "lit ''dir''" "lit ''%(root)s/x''" "lit ''/mnt/x''"] show ?thesis by blast
qed

text \<open>
  The typed setters and getters are inverse: every 64-bit integer and every boolean set is read back, with
  interpolation or without, in a section or in \<^verbatim>\<open>DEFAULT\<close>.
\<close>

theorem typed_roundtrip:
  assumes "config_reach lower cfg" "in_i64 i" "lower (lit ''True'') = lit ''true''" "lower (lit ''False'') = lit ''false''"
  shows "(set_int lower cfg n opt i = Inr cfg' \<longrightarrow> get_int lower cfg' n opt = Inr (Some i))
    \<and> (set_bool lower cfg n opt b = Inr cfg' \<longrightarrow> get_bool lower cfg' n opt = Inr (Some b))"
proof -
  have set: "raw_lookup cfg' n (lower opt) = Some v" if "ConfigFile_set lower cfg n opt v = Inr cfg'" for v
    using config_reach_inv [OF assms(1)] that
  proof (cases rule: set_cases)
    case 1
    with cfg_invD [OF config_reach_inv [OF assms(1)]] show ?thesis
      by (simp add: raw_lookup_def ordered.look_put)
  next
    case (2 m)
    with cfg_invD(2) [OF config_reach_inv [OF assms(1)]] cfg_invD(4) [OF config_reach_inv [OF assms(1)] 2(2)] show ?thesis
      by (simp add: raw_lookup_def ordered.look_put)
  qed
  have "0x25 \<notin> set (lit (show_int i))" using show_int_chars(2) [of i] by auto
  then have int: "set_int lower cfg n opt i = Inr cfg' \<Longrightarrow> ConfigFile_get lower cfg' n opt = Inr (Some (lit (show_int i)))"
    unfolding set_int_def by (intro get_plain set)
  have "0x25 \<notin> set (if b then lit ''True'' else lit ''False'')" by (simp add: of_char_def)
  then have bool: "set_bool lower cfg n opt b = Inr cfg' \<Longrightarrow>
      ConfigFile_get lower cfg' n opt = Inr (Some (if b then lit ''True'' else lit ''False''))"
    unfolding set_bool_def by (intro get_plain set)
  have "lit ''false'' \<noteq> lit ''1''" "lit ''false'' \<noteq> lit ''yes''" "lit ''false'' \<noteq> lit ''true''" "lit ''false'' \<noteq> lit ''on''"
    by code_simp+
  then show ?thesis
    using int bool assms(2-4) by (auto simp: get_int_def get_bool_def utrim_show_int parse_i64_show)
qed

theorem typed_roundtrip_witness:
  "get_int (map (\<lambda>c. if c = 0x54 then 0x74 else if c = 0x46 then 0x66 else c))
     (projr (set_int (map (\<lambda>c. if c = 0x54 then 0x74 else if c = 0x46 then 0x66 else c)) ConfigFile_new DEFAULT_SECTION (lit ''n'') (- 42)))
     DEFAULT_SECTION (lit ''n'') = Inr (Some (- 42))"
proof -
  let ?lower = "map (\<lambda>c :: nat. if c = 0x54 then 0x74 else if c = 0x46 then 0x66 else c)"
  have "\<not> isl (set_int ?lower ConfigFile_new DEFAULT_SECTION (lit ''n'') (- 42))" "in_i64 (- 42)"
    "?lower (lit ''True'') = lit ''true''" "?lower (lit ''False'') = lit ''false''"
    by code_simp+
  moreover from this(1) have "set_int ?lower ConfigFile_new DEFAULT_SECTION (lit ''n'') (- 42)
      = Inr (projr (set_int ?lower ConfigFile_new DEFAULT_SECTION (lit ''n'') (- 42)))" by simp
  ultimately show ?thesis using typed_roundtrip [OF config_reach.new] by blast
qed

text \<open>
  C32. No error of a scrubbed configuration carries anything of the file: not the value a typed getter could not
  convert, not the fragment or the option name an interpolation failed on, not the name a document repeats.
\<close>

theorem scrubbed_withholds:
  assumes "scrub cfg"
    and "ConfigFile_get lower cfg s k = Inl e \<or> get_int lower cfg s k = Inl e \<or> get_bool lower cfg s k = Inl e
      \<or> items lower cfg s = Inl e \<or> ConfigFile_set lower cfg s k v = Inl e
      \<or> (\<exists>e'. read lower cfg text = Inl e' \<and> e = ReadFailed e')"
  shows "withheld e"
  using assms(2)
proof (elim disjE exE conjE)
  assume "get_int lower cfg s k = Inl e"
  then show ?thesis by (rule get_int_withheld [OF assms(1)])
next
  assume "get_bool lower cfg s k = Inl e"
  then show ?thesis by (rule get_bool_withheld [OF assms(1)])
next
  assume "items lower cfg s = Inl e"
  then show ?thesis using items_loop_withheld [OF assms(1)] by (auto simp: items_def Let_def split: if_splits sum.splits)
qed (use assms(1) get_withheld set_withheld read_withheld in blast)+

theorem scrubbed_withholds_witness:
  "withheld (NotAnInteger None)
   \<and> get_int (\<lambda>s. s) (scrubbed demo_cfg True) (lit ''a'') (lit ''dir'') = Inl (NotAnInteger None)"
proof -
  have "scrub (scrubbed demo_cfg True)" by (simp add: scrubbed_def)
  moreover have e: "get_int (\<lambda>s. s) (scrubbed demo_cfg True) (lit ''a'') (lit ''dir'') = Inl (NotAnInteger None)" by code_simp
  ultimately have "withheld (NotAnInteger None)" using scrubbed_withholds by blast
  with e show ?thesis by blast
qed

end
