(* ===== verification/Config_Path.thy ===== *)
theory Config_Path
  imports Config_File
begin

text \<open>
  The file entry points of \<^verbatim>\<open>ConfigFile\<close> (\<^verbatim>\<open>src/configfile/mod.rs\<close>): universal newlines, the fixed-size read of
  a scrubbed or staged file, \<^verbatim>\<open>read_path\<close>, \<^verbatim>\<open>read_paths\<close> and \<^verbatim>\<open>read_secret_path\<close>. What the kernel answers is
  an \<open>opened\<close> file, and \<open>open_at\<close> is \<^verbatim>\<open>safe_open\<close>: parameters. The lemmas show that the in-place translation
  is the reference one and does not touch what UTF-8 decoding decides, that the fixed-size read returns the
  whole file or refuses a file that grew, however its reads are cut, and that all ways to read a file give
  the configuration its decoded text gives.
\<close>

section \<open>Newlines\<close>

function newline_loop :: "bytes \<Rightarrow> nat \<Rightarrow> nat \<Rightarrow> nat \<times> bytes" where
  "newline_loop buf w r =
     (if r < length buf then
        if buf ! r = CR then
          newline_loop (buf[w := LF]) (w + 1) (r + (if r + 1 < length buf \<and> buf ! (r + 1) = LF then 2 else 1))
        else newline_loop (buf[w := buf ! r]) (w + 1) (r + 1)
      else (w, buf))"
  by pat_completeness auto
termination by (relation "measure (\<lambda>(buf, w, r). length buf - r)") auto

declare newline_loop.simps [simp del]

text \<open>The new length, and the buffer as the rewrite leaves it.\<close>

definition normalize_newlines_slice :: "bytes \<Rightarrow> nat \<times> bytes" where
  "normalize_newlines_slice buf = (if CR \<notin> set buf then (length buf, buf) else newline_loop buf 0 0)"

definition normalize_newlines :: "bytes \<Rightarrow> bytes" where
  "normalize_newlines buf = (let (len, buf) = normalize_newlines_slice buf in take len buf)"

section \<open>Files\<close>

record StagedIdentity =
  ino :: "64 word"
  change_cookie :: "64 word option"

definition same_image :: "StagedIdentity \<Rightarrow> StagedIdentity \<Rightarrow> bool" where
  "same_image a b \<longleftrightarrow> ino a = ino b \<and> change_cookie a \<noteq> None \<and> change_cookie a = change_cookie b"

text \<open>
  How the kernel answers a read of an open file: with at most so many bytes, interrupted, or with an error.
  Once the listed answers are used up every read gets all it asks for.
\<close>

datatype read_answer = AtMost nat | Interrupted | Failed errno

record opened =
  f_stat :: "errno + bool \<times> nat"
  f_identity :: "errno + StagedIdentity"
  f_content :: bytes
  f_answers :: "read_answer list"

definition regular_file_len :: "opened \<Rightarrow> config_error + nat" where
  "regular_file_len f =
     (case f_stat f of
        Inl e \<Rightarrow> Inl (ConfigErrno e)
      | Inr (is_file, len) \<Rightarrow> if \<not> is_file then Inl NotRegularFile else Inr len)"

text \<open>The read loop into a region of \<open>cap\<close> bytes: \<open>got\<close> is what stands there, \<open>rest\<close> what the file still has.\<close>

function read_filled :: "nat \<Rightarrow> read_answer list \<Rightarrow> bytes \<Rightarrow> bytes \<Rightarrow> config_error + bytes" where
  "read_filled cap answers rest got =
     (case answers of
        Interrupted # answers \<Rightarrow> read_filled cap answers rest got
      | Failed e # _ \<Rightarrow> Inl (ConfigErrno e)
      | _ \<Rightarrow>
          let room = cap - length got;
              n = min (length rest) (case answers of AtMost k # _ \<Rightarrow> min k room | _ \<Rightarrow> room)
          in if n = 0 then Inr got
             else if length got + n = cap then Inl GrewWhileRead
             else read_filled cap (tl answers) (drop n rest) (got @ take n rest))"
  by pat_completeness auto
termination
  by (relation "measures [\<lambda>(cap, answers, rest, got). length answers, \<lambda>(cap, answers, rest, got). length rest]")
    (auto split: list.splits read_answer.splits)

declare read_filled.simps [simp del]

text \<open>\<^verbatim>\<open>Read::read_to_end\<close> on the same file.\<close>

fun read_to_end :: "read_answer list \<Rightarrow> bytes \<Rightarrow> errno + bytes" where
  "read_to_end [] rest = Inr rest"
| "read_to_end (Interrupted # answers) rest = read_to_end answers rest"
| "read_to_end (Failed e # answers) rest = Inl e"
| "read_to_end (AtMost k # answers) rest =
     (if min k (length rest) = 0 then Inr []
      else case read_to_end answers (drop k rest) of Inl e \<Rightarrow> Inl e | Inr bs \<Rightarrow> Inr (take k rest @ bs))"

definition read_file_to_string :: "('p \<Rightarrow> config_error + opened) \<Rightarrow> 'p \<Rightarrow> config_error + ustr" where
  "read_file_to_string open_at path =
     (case open_at path of
        Inl e \<Rightarrow> Inl e
      | Inr f \<Rightarrow>
          (case read_to_end (f_answers f) (f_content f) of
             Inl e \<Rightarrow> Inl (ConfigErrno e)
           | Inr buf \<Rightarrow>
               (case from_utf8 (normalize_newlines buf) of
                  None \<Rightarrow> Inl NotUtf8
                | Some t \<Rightarrow> Inr (decode_utf8 t))))"

definition parse_read :: "(ustr \<Rightarrow> ustr) \<Rightarrow> ConfigFile \<Rightarrow> ustr \<Rightarrow> config_error + ConfigFile" where
  "parse_read lower cfg t = (case read lower cfg t of Inl e \<Rightarrow> Inl (ReadFailed e) | Inr cfg \<Rightarrow> Inr cfg)"

definition read_path_scrubbed :: "(ustr \<Rightarrow> ustr) \<Rightarrow> ('p \<Rightarrow> config_error + opened) \<Rightarrow> ConfigFile \<Rightarrow> 'p \<Rightarrow> config_error + ConfigFile" where
  "read_path_scrubbed lower open_at cfg path =
     (case open_at path of
        Inl e \<Rightarrow> Inl e
      | Inr f \<Rightarrow>
          (case regular_file_len f of
             Inl e \<Rightarrow> Inl e
           | Inr len \<Rightarrow>
               (case read_filled (len + 1) (f_answers f) (f_content f) [] of
                  Inl e \<Rightarrow> Inl e
                | Inr buf \<Rightarrow>
                    (case from_utf8 (normalize_newlines buf) of
                       None \<Rightarrow> Inl NotUtf8
                     | Some t \<Rightarrow> parse_read lower cfg (decode_utf8 t)))))"

definition read_path :: "(ustr \<Rightarrow> ustr) \<Rightarrow> ('p \<Rightarrow> config_error + opened) \<Rightarrow> ConfigFile \<Rightarrow> 'p \<Rightarrow> config_error + ConfigFile" where
  "read_path lower open_at cfg path =
     (if scrub cfg then read_path_scrubbed lower open_at cfg path
      else case read_file_to_string open_at path of Inl e \<Rightarrow> Inl e | Inr t \<Rightarrow> parse_read lower cfg t)"

definition skipped :: "config_error \<Rightarrow> bool" where
  "skipped e \<longleftrightarrow> (case e of ConfigErrno _ \<Rightarrow> True | SymlinkInPath \<Rightarrow> True | NotRegularFile \<Rightarrow> True | _ \<Rightarrow> False)"

text \<open>The paths read, and the configuration as it is when the call returns, by an error too.\<close>

fun read_paths ::
  "(ustr \<Rightarrow> ustr) \<Rightarrow> ('p \<Rightarrow> config_error + opened) \<Rightarrow> ConfigFile \<Rightarrow> 'p list \<Rightarrow> (config_error + 'p list) \<times> ConfigFile" where
  "read_paths lower open_at cfg [] = (Inr [], cfg)"
| "read_paths lower open_at cfg (path # paths) =
     (case read_path lower open_at cfg path of
        Inr cfg \<Rightarrow>
          (case read_paths lower open_at cfg paths of
             (Inr ps, cfg) \<Rightarrow> (Inr (path # ps), cfg)
           | (Inl e, cfg) \<Rightarrow> (Inl e, cfg))
      | Inl e \<Rightarrow> if skipped e then read_paths lower open_at cfg paths else (Inl e, cfg))"

text \<open>
  \<open>secret_mem\<close> is \<^verbatim>\<open>SecretMem::with_capacity\<close>: whether a region of that many bytes can be had. The staged
  image is \<open>None\<close> for an empty file.
\<close>

definition stage_secret_image ::
  "('p \<Rightarrow> config_error + opened) \<Rightarrow> (nat \<Rightarrow> errno + unit) \<Rightarrow> 'p \<Rightarrow> config_error + StagedIdentity \<times> bytes option" where
  "stage_secret_image open_at secret_mem path =
     (case open_at path of
        Inl e \<Rightarrow> Inl e
      | Inr f \<Rightarrow>
          (case regular_file_len f of
             Inl e \<Rightarrow> Inl e
           | Inr len \<Rightarrow>
               (case f_identity f of
                  Inl e \<Rightarrow> Inl (ConfigErrno e)
                | Inr i \<Rightarrow>
                    if len = 0 then Inr (i, None)
                    else case secret_mem (len + 1) of
                        Inl e \<Rightarrow> Inl (if e = OtherErrno 14 then SecretMemRefused else ConfigErrno e)
                      | Inr _ \<Rightarrow>
                          (case read_filled (len + 1) (f_answers f) (f_content f) [] of
                             Inl e \<Rightarrow> Inl e
                           | Inr buf \<Rightarrow> Inr (i, Some (normalize_newlines buf))))))"

definition read_secret_path ::
  "(ustr \<Rightarrow> ustr) \<Rightarrow> ('p \<Rightarrow> config_error + opened) \<Rightarrow> (nat \<Rightarrow> errno + unit) \<Rightarrow> ConfigFile \<Rightarrow> 'p \<Rightarrow>
     (config_error + StagedIdentity) \<times> ConfigFile" where
  "read_secret_path lower open_at secret_mem cfg path =
     (case stage_secret_image open_at secret_mem path of
        Inl e \<Rightarrow> (Inl e, cfg)
      | Inr (i, staged) \<Rightarrow>
          let cfg = cfg\<lparr>scrub := True, interp := NoInterp\<rparr>
          in case (case staged of
                     None \<Rightarrow> parse_read lower cfg []
                   | Some img \<Rightarrow>
                       (case from_utf8 img of None \<Rightarrow> Inl NotUtf8 | Some t \<Rightarrow> parse_read lower cfg (decode_utf8 t))) of
              Inl e \<Rightarrow> (Inl e, cfg)
            | Inr cfg \<Rightarrow> (Inr i, cfg))"

definition of_path :: "('p \<Rightarrow> config_error + opened) \<Rightarrow> 'p \<Rightarrow> config_error + StagedIdentity" where
  "of_path open_at path =
     (case open_at path of
        Inl e \<Rightarrow> Inl e
      | Inr f \<Rightarrow>
          (case regular_file_len f of
             Inl e \<Rightarrow> Inl e
           | Inr _ \<Rightarrow> (case f_identity f of Inl e \<Rightarrow> Inl (ConfigErrno e) | Inr i \<Rightarrow> Inr i)))"

section \<open>The translation is the reference one\<close>

text \<open>Python's universal newlines on any sequence of characters.\<close>

fun universal_newlines :: "'a::numeral list \<Rightarrow> 'a list" where
  "universal_newlines (a # b # s) =
     (if a = 13 then 10 # universal_newlines (if b = 10 then s else b # s) else a # universal_newlines (b # s))"
| "universal_newlines [a] = [if a = 13 then 10 else a]"
| "universal_newlines [] = []"

lemma newline_loop_spec:
  "w \<le> r \<Longrightarrow> r \<le> length buf \<Longrightarrow> newline_loop buf w r = (n, buf') \<Longrightarrow>
     take n buf' = take w buf @ universal_newlines (drop r buf) \<and> length buf' = length buf \<and> n \<le> length buf"
proof (induction buf w r rule: newline_loop.induct)
  case (1 buf w r)
  show ?case
  proof (cases "r < length buf")
    case False
    then have "newline_loop buf w r = (w, buf)" by (simp add: newline_loop.simps [of buf w r])
    with "1.prems" False show ?thesis by simp
  next
    case True
    let ?two = "r + 1 < length buf \<and> buf ! (r + 1) = LF"
    have d: "drop r buf = buf ! r # drop (Suc r) buf" using True by (simp add: Cons_nth_drop_Suc)
    have t: "take (Suc w) (buf[w := x]) = take w buf @ [x]" for x
      using True "1.prems"(1) by (simp add: take_Suc_conv_app_nth)
    have u: "universal_newlines (drop r buf) =
        (if buf ! r = CR then LF # universal_newlines (drop (r + (if ?two then 2 else 1)) buf)
         else buf ! r # universal_newlines (drop (Suc r) buf))"
    proof (cases "Suc r < length buf")
      case more: True
      then have "drop (Suc r) buf = buf ! Suc r # drop (Suc (Suc r)) buf" by (simp add: Cons_nth_drop_Suc)
      with d more show ?thesis by simp
    qed (simp add: d)
    show ?thesis
    proof (cases "buf ! r = CR")
      case cr: True
      let ?r = "r + (if ?two then 2 else 1)"
      have "newline_loop (buf[w := LF]) (w + 1) ?r = (n, buf')"
        using "1.prems"(3) True cr by (simp add: newline_loop.simps [of buf w r])
      from "1.IH"(1) [OF True cr _ _ this] show ?thesis
        using True cr "1.prems"(1) t u by (simp add: drop_update_cancel)
    next
      case False
      have "newline_loop (buf[w := buf ! r]) (w + 1) (r + 1) = (n, buf')"
        using "1.prems"(3) True False by (simp add: newline_loop.simps [of buf w r])
      from "1.IH"(2) [OF True False _ _ this] show ?thesis
        using True False "1.prems"(1) t u by (simp add: drop_update_cancel)
    qed
  qed
qed

lemma newlines_Cons: "a \<noteq> 13 \<Longrightarrow> universal_newlines (a # s) = a # universal_newlines s"
  by (cases s) auto

lemma newlines_CR:
  "universal_newlines (13 # s) = 10 # universal_newlines (case s of b # t \<Rightarrow> if b = 10 then t else s | [] \<Rightarrow> [])"
  by (cases s) auto

lemma newlines_prefix: "13 \<notin> set p \<Longrightarrow> universal_newlines (p @ s) = p @ universal_newlines s"
  by (induction p) (auto simp: newlines_Cons)

lemma newlines_id: "13 \<notin> set s \<Longrightarrow> universal_newlines s = s"
  using newlines_prefix [of s "[]"] by simp

lemma newlines_inv: "universal_newlines r = p @ s' \<Longrightarrow> 10 \<notin> set p \<Longrightarrow> \<exists>s. r = p @ s \<and> s' = universal_newlines s"
proof (induction p arbitrary: r)
  case (Cons x p)
  then obtain a t where r: "r = a # t" by (cases r) auto
  with Cons.prems have "a \<noteq> 13" by (auto simp: newlines_CR)
  with Cons r show ?case by (auto simp: newlines_Cons)
qed auto

lemma normalize_newlines_eq: "normalize_newlines buf = universal_newlines buf"
proof (cases "CR \<in> set buf")
  case True
  obtain n buf' where "newline_loop buf 0 0 = (n, buf')" by fastforce
  with newline_loop_spec [of 0 0 buf n buf'] True show ?thesis
    by (simp add: normalize_newlines_def normalize_newlines_slice_def)
next
  case False
  then show ?thesis by (simp add: normalize_newlines_def normalize_newlines_slice_def newlines_id)
qed

section \<open>The translation and UTF-8\<close>

lemma utf8_valid_cut:
  "utf8_valid (b # r) = (fst (utf8_step b r) \<and> utf8_valid (drop (snd (utf8_step b r) - 1) r))"
proof -
  have lim: "b = 0xF0 \<or> b = 0xF4 \<Longrightarrow> \<not> b \<le> 0xEF" "b = 0xE0 \<or> b = 0xED \<Longrightarrow> \<not> 0xF0 \<le> b \<and> \<not> b \<le> 0xDF"
    "b = 0xF0 \<or> b = 0xF4 \<Longrightarrow> \<not> b \<le> 0xDF" by auto
  consider "b < 0x80" | "\<not> b < 0x80" "0xC2 \<le> b \<and> b \<le> 0xDF"
    | "\<not> b < 0x80" "\<not> (0xC2 \<le> b \<and> b \<le> 0xDF)" "0xE0 \<le> b \<and> b \<le> 0xEF"
    | "\<not> b < 0x80" "\<not> (0xC2 \<le> b \<and> b \<le> 0xDF)" "\<not> (0xE0 \<le> b \<and> b \<le> 0xEF)" "0xF0 \<le> b \<and> b \<le> 0xF4"
    | "\<not> b < 0x80" "\<not> (0xC2 \<le> b \<and> b \<le> 0xDF)" "\<not> (0xE0 \<le> b \<and> b \<le> 0xEF)" "\<not> (0xF0 \<le> b \<and> b \<le> 0xF4)"
    by blast
  then show ?thesis
  proof cases
    case 1
    then show ?thesis by (simp add: utf8_step_ascii)
  next
    case 2
    then have w: "utf8_width b = 2" by (simp add: utf8_width_def)
    have sec: "utf8_second b c = utf8_cont c" for c using 2 lim by (auto simp: utf8_second_def)
    show ?thesis unfolding utf8_valid.simps(2) [of b r] if_not_P [OF 2(1)] if_P [OF 2(2)] sec [symmetric] using w
      by (cases r) (simp_all add: utf8_step_def del: utf8_valid.simps)
  next
    case 3
    then have w: "utf8_width b = 3" by (simp add: utf8_width_def)
    have sec: "utf8_second b c = (if b = 0xE0 then 0xA0 \<le> c \<and> c \<le> 0xBF else if b = 0xED then 0x80 \<le> c \<and> c \<le> 0x9F else utf8_cont c)" for c
      using 3 lim by (auto simp: utf8_second_def)
    show ?thesis unfolding utf8_valid.simps(2) [of b r] if_not_P [OF 3(1)] if_not_P [OF 3(2)] if_P [OF 3(3)] sec [symmetric] using w
      by (cases r; cases "tl r") (simp_all add: utf8_step_def del: utf8_valid.simps)
  next
    case 4
    then have w: "utf8_width b = 4" by (simp add: utf8_width_def)
    have sec: "utf8_second b c = (if b = 0xF0 then 0x90 \<le> c \<and> c \<le> 0xBF else if b = 0xF4 then 0x80 \<le> c \<and> c \<le> 0x8F else utf8_cont c)" for c
      using 4 lim by (auto simp: utf8_second_def)
    show ?thesis
      unfolding utf8_valid.simps(2) [of b r] if_not_P [OF 4(1)] if_not_P [OF 4(2)] if_not_P [OF 4(3)] if_P [OF 4(4)]
        sec [symmetric] using w
      by (cases r; cases "tl r"; cases "tl (tl r)") (simp_all add: utf8_step_def del: utf8_valid.simps)
  next
    case 5
    then have "utf8_width b = 0" by (simp add: utf8_width_def)
    then show ?thesis
      unfolding utf8_valid.simps(2) [of b r] if_not_P [OF 5(1)] if_not_P [OF 5(2)] if_not_P [OF 5(3)] if_not_P [OF 5(4)]
      by (simp add: utf8_step_def)
  qed
qed

lemma utf8_second_high: "utf8_width b \<noteq> 0 \<Longrightarrow> utf8_second b c \<Longrightarrow> 0x80 \<le> c"
  by (auto simp: utf8_second_def utf8_cont_def word_le_nat_alt split: if_splits)

lemma utf8_step_shape:
  assumes "utf8_step b r = (True, n)"
  obtains p s where "r = p @ s" "n = Suc (length p)" "\<forall>x \<in> set p. 0x80 \<le> x"
proof (cases "utf8_width b \<le> 1")
  case True
  with assms that [of "[]" r] show thesis by (auto simp: utf8_step_def Let_def split: if_splits)
next
  case False
  with assms obtain c r' where r: "r = c # r'" "utf8_second b c"
    and k: "length (takeWhile utf8_cont (take (utf8_width b - 2) r')) = utf8_width b - 2" "n = 2 + (utf8_width b - 2)"
    by (auto simp: utf8_step_def Let_def split: if_splits list.splits)
  let ?p = "takeWhile utf8_cont (take (utf8_width b - 2) r')"
  have "?p = take (utf8_width b - 2) r'"
    using takeWhile_eq_take [of utf8_cont "take (utf8_width b - 2) r'"] k(1) by simp
  then have "r = (c # ?p) @ drop (utf8_width b - 2) r'" using r(1) by (metis append_Cons append_take_drop_id)
  moreover have "n = Suc (length (c # ?p))" using k by simp
  moreover have "0x80 \<le> c" using False r(2) utf8_second_high [of b c] by simp
  then have "\<forall>x \<in> set (c # ?p). 0x80 \<le> x" using set_takeWhileD by (fastforce simp: utf8_cont_def)
  ultimately show thesis by (rule that)
qed

lemma utf8_step_local:
  assumes "utf8_step b (p @ s) = (True, Suc (length p))"
  shows "utf8_step b (p @ s') = (True, Suc (length p))"
proof (cases p)
  case Nil
  with assms show ?thesis by (auto simp: utf8_step_def Let_def split: if_splits list.splits)
next
  case (Cons c q)
  with assms have "utf8_width b \<noteq> 0" "utf8_width b \<noteq> 1" "utf8_second b c" "length q = utf8_width b - 2"
    "length (takeWhile utf8_cont (take (utf8_width b - 2) (q @ s))) = utf8_width b - 2"
    by (auto simp: utf8_step_def Let_def split: if_splits)
  with Cons show ?thesis by (simp add: utf8_step_def Let_def)
qed

lemma high_no_newline: "\<forall>x \<in> set p. (0x80 :: byte) \<le> x \<Longrightarrow> 10 \<notin> set p \<and> 13 \<notin> set p"
  by (auto simp: word_le_nat_alt)

text \<open>A character other than CR passes the translation whole.\<close>

lemma newlines_char:
  assumes "b \<noteq> 13" "utf8_step b r = (True, n)"
  obtains p s where "r = p @ s" "n = Suc (length p)" "universal_newlines (b # r) = b # p @ universal_newlines s"
    "utf8_step b (p @ universal_newlines s) = (True, n)"
proof -
  from assms(2) obtain p s where ps: "r = p @ s" "n = Suc (length p)" "\<forall>x \<in> set p. 0x80 \<le> x"
    by (rule utf8_step_shape)
  have "universal_newlines (b # r) = b # p @ universal_newlines s"
    using assms(1) high_no_newline [OF ps(3)] ps(1) by (simp add: newlines_Cons newlines_prefix)
  moreover have "utf8_step b (p @ universal_newlines s) = (True, n)"
    using assms(2) ps(1,2) utf8_step_local by auto
  ultimately show thesis using that ps by blast
qed

lemma newlines_char_inv:
  assumes "b \<noteq> 13" "fst (utf8_step b (universal_newlines r))"
  shows "fst (utf8_step b r)"
proof -
  obtain n where "utf8_step b (universal_newlines r) = (True, n)" using assms(2) by (metis prod.collapse)
  moreover from this obtain p s where ps: "universal_newlines r = p @ s" "n = Suc (length p)" "\<forall>x \<in> set p. 0x80 \<le> x"
    by (rule utf8_step_shape)
  moreover from newlines_inv [OF ps(1)] high_no_newline [OF ps(3)] obtain s' where "r = p @ s'" by auto
  ultimately show ?thesis using utf8_step_local [of b p s s'] by simp
qed

text \<open>Translating before the validity check changes nothing it decides.\<close>

lemma newlines_utf8: "utf8_valid (universal_newlines bs) = utf8_valid bs"
proof (induction bs rule: measure_induct_rule [where f = length])
  case (less bs)
  show ?case
  proof (cases bs)
    case (Cons b r)
    show ?thesis
    proof (cases "b = 13")
      case True
      with less [of r] less [of "tl r"] Cons show ?thesis by (cases r) (auto simp: newlines_CR)
    next
      case False
      show ?thesis
      proof (cases "fst (utf8_step b r)")
        case True
        then obtain n where "utf8_step b r = (True, n)" by (metis prod.collapse)
        with False obtain p s where ps: "r = p @ s" "n = Suc (length p)" "utf8_step b r = (True, n)"
          "universal_newlines (b # r) = b # p @ universal_newlines s" "utf8_step b (p @ universal_newlines s) = (True, n)"
          by (metis newlines_char)
        then show ?thesis
          using less [of s] unfolding Cons ps(4) utf8_valid_cut by (simp add: Cons)
      next
        case no: False
        with newlines_char_inv [OF False, of r] show ?thesis
          unfolding Cons newlines_Cons [OF False] utf8_valid_cut by blast
      qed
    qed
  qed simp
qed

section \<open>The fixed-size read\<close>

text \<open>Reads that make progress: no error, and no answer of nothing before the end of the file.\<close>

definition progressing :: "read_answer list \<Rightarrow> bool" where
  "progressing answers = list_all (\<lambda>a. case a of AtMost k \<Rightarrow> 0 < k | Interrupted \<Rightarrow> True | Failed _ \<Rightarrow> False) answers"

lemma read_filled_end:
  "read_filled cap [] rest got =
     (let n = min (length rest) (cap - length got)
      in if n = 0 then Inr got else if length got + n = cap then Inl GrewWhileRead
         else read_filled cap [] (drop n rest) (got @ take n rest))"
  by (subst read_filled.simps) (simp only: list.case read_answer.case list.sel Let_def)

lemma read_filled_short:
  "read_filled cap (AtMost k # as) rest got =
     (let n = min (length rest) (min k (cap - length got))
      in if n = 0 then Inr got else if length got + n = cap then Inl GrewWhileRead
         else read_filled cap as (drop n rest) (got @ take n rest))"
  by (subst read_filled.simps) (simp only: list.case read_answer.case list.sel Let_def)

lemma read_filled_interrupted: "read_filled cap (Interrupted # as) rest got = read_filled cap as rest got"
  by (subst read_filled.simps) (simp only: list.case read_answer.case)

lemma read_filled_spec:
  "progressing answers \<Longrightarrow> length got < cap \<Longrightarrow>
     read_filled cap answers rest got = (if length (got @ rest) < cap then Inr (got @ rest) else Inl GrewWhileRead)"
proof (induction "length answers + length rest" arbitrary: answers rest got rule: less_induct)
  case less
  have turn: "(if n = 0 then Inr got else if length got + n = cap then Inl GrewWhileRead
        else read_filled cap as (drop n rest) (got @ take n rest))
      = (if length (got @ rest) < cap then Inr (got @ rest) else Inl GrewWhileRead)"
    if "n = 0 \<longleftrightarrow> rest = []" "n \<le> length rest" "length got + n \<le> cap" "progressing as" "length as \<le> length answers" for n as
  proof (cases "n = 0 \<or> length got + n = cap")
    case True
    with that less.prems(2) show ?thesis by (cases "n = 0") auto
  next
    case False
    with that have "length as + length (drop n rest) < length answers + length rest"
      "length (got @ take n rest) < cap" by auto
    with less.hyps [of as "drop n rest" "got @ take n rest"] that(4) False show ?thesis by simp
  qed
  show ?case
  proof (cases answers)
    case Nil
    with turn [of "min (length rest) (cap - length got)" "[]"] less.prems show ?thesis
      by (simp add: read_filled_end [of cap rest] Let_def progressing_def)
  next
    case (Cons a as)
    then have as: "progressing as" using less.prems(1) by (simp add: progressing_def)
    show ?thesis
    proof (cases a)
      case (AtMost k)
      with Cons less.prems(1) have "0 < k" by (simp add: progressing_def)
      let ?n = "min (length rest) (min k (cap - length got))"
      have "?n = 0 \<longleftrightarrow> rest = []" "length got + ?n \<le> cap" using \<open>0 < k\<close> less.prems(2) by (auto simp: min_def split: if_splits)
      then show ?thesis unfolding Cons AtMost read_filled_short Let_def by (intro turn as) (simp_all add: Cons)
    next
      case Interrupted
      with less.hyps [of as rest got] less.prems(2) as Cons show ?thesis by (simp add: read_filled_interrupted)
    qed (use less.prems(1) Cons in \<open>simp add: progressing_def\<close>)
  qed
qed

lemma read_to_end_spec: "progressing answers \<Longrightarrow> read_to_end answers rest = Inr rest"
  by (induction answers rest rule: read_to_end.induct) (auto simp: progressing_def min_def split: if_splits)

lemma read_fixed:
  "progressing (f_answers f) \<Longrightarrow> read_filled (len + 1) (f_answers f) (f_content f) [] =
     (if length (f_content f) \<le> len then Inr (f_content f) else Inl GrewWhileRead)"
  using read_filled_spec [of "f_answers f" "[]" "len + 1" "f_content f"] by auto

section \<open>Properties\<close>

text \<open>
  What a file means to a configuration: its characters, with universal newlines, merged in as a document.
\<close>

definition file_meaning :: "(ustr \<Rightarrow> ustr) \<Rightarrow> ConfigFile \<Rightarrow> bytes \<Rightarrow> config_error + ConfigFile" where
  "file_meaning lower cfg content =
     (if utf8_valid content then parse_read lower cfg (decode_utf8 (universal_newlines content)) else Inl NotUtf8)"

lemma file_meaning_eq:
  "(case from_utf8 (normalize_newlines content) of None \<Rightarrow> Inl NotUtf8 | Some t \<Rightarrow> parse_read lower cfg (decode_utf8 t))
     = file_meaning lower cfg content"
  by (simp add: file_meaning_def normalize_newlines_eq from_utf8_def newlines_utf8)

lemma file_meaning_Nil: "file_meaning lower cfg [] = parse_read lower cfg []"
  by (simp add: file_meaning_def decode_utf8_def)

text \<open>
  C28. However the kernel cuts and interrupts the reads, \<^verbatim>\<open>read_path\<close> of a regular file gives the meaning of the whole
  file: the plain and the scrubbed read agree, the in-place translation of line ends is the universal one, and
  a file that grew past the length the fixed buffer was sized from is refused instead of being read in part.
\<close>

theorem read_path_exact:
  assumes "open_at path = Inr f" "f_stat f = Inr (True, len)" "progressing (f_answers f)"
  shows "read_path lower open_at cfg path =
    (if scrub cfg \<and> len < length (f_content f) then Inl GrewWhileRead else file_meaning lower cfg (f_content f))"
proof -
  note fixed = read_fixed [OF assms(3), of len]
  then show ?thesis
    using assms(1,2) read_to_end_spec [OF assms(3), of "f_content f"] file_meaning_eq [where content = "f_content f" and lower = lower and cfg = cfg]
    by (auto simp: read_path_def read_path_scrubbed_def read_file_to_string_def regular_file_len_def split: option.splits)
qed

definition demo_file :: opened where
  "demo_file = \<lparr>f_stat = Inr (True, 11), f_identity = Inr \<lparr>ino = 7, change_cookie = None\<rparr>,
     f_content = map word_of_nat (lit ''[a]'' @ [13, 10] @ lit ''k = v'' @ [13]), f_answers = [AtMost 3, Interrupted, AtMost 1]\<rparr>"

theorem read_path_exact_witness:
  "read_path (\<lambda>s. s) (\<lambda>p :: nat. Inr demo_file) (scrubbed ConfigFile_raw True) 0
     = parse_read (\<lambda>s. s) (scrubbed ConfigFile_raw True) (lit ''[a]'' @ [10] @ lit ''k = v'' @ [10])"
proof -
  have "f_stat demo_file = Inr (True, 11)" "progressing (f_answers demo_file)" "\<not> 11 < length (f_content demo_file)"
    "utf8_valid (f_content demo_file)"
    "decode_utf8 (universal_newlines (f_content demo_file)) = lit ''[a]'' @ [10] @ lit ''k = v'' @ [10]"
    by code_simp+
  with read_path_exact [of "\<lambda>p :: nat. Inr demo_file" 0 demo_file 11 "\<lambda>s. s" "scrubbed ConfigFile_raw True"]
  show ?thesis by (simp add: file_meaning_def)
qed

text \<open>
  \<^verbatim>\<open>read_secret_path\<close> marks a configuration only for a secret it got: a call that fails before the image is
  staged leaves the configuration as it was, interpolation included; a call that staged it leaves the
  configuration scrubbed and raw, holding on success the meaning of the file and otherwise what it held.
\<close>

theorem read_secret_path_exact:
  assumes "open_at path = Inr f" "f_stat f = Inr (is_file, len)" "progressing (f_answers f)"
  shows "read_secret_path lower open_at secret_mem cfg path =
    (if \<not> is_file then (Inl NotRegularFile, cfg)
     else case f_identity f of
         Inl e \<Rightarrow> (Inl (ConfigErrno e), cfg)
       | Inr i \<Rightarrow>
           (case (if len = 0 then Inr () else secret_mem (len + 1)) of
              Inl e \<Rightarrow> (Inl (if e = OtherErrno 14 then SecretMemRefused else ConfigErrno e), cfg)
            | Inr _ \<Rightarrow>
                if 0 < len \<and> len < length (f_content f) then (Inl GrewWhileRead, cfg)
                else (case file_meaning lower (cfg\<lparr>scrub := True, interp := NoInterp\<rparr>) (if len = 0 then [] else f_content f) of
                        Inl e \<Rightarrow> (Inl e, cfg\<lparr>scrub := True, interp := NoInterp\<rparr>)
                      | Inr cfg' \<Rightarrow> (Inr i, cfg'))))"
proof -
  note fixed = read_fixed [OF assms(3), of len]
  then show ?thesis
    using assms(1,2) file_meaning_eq [where content = "f_content f" and lower = lower and cfg = "cfg\<lparr>scrub := True, interp := NoInterp\<rparr>"]
    by (auto simp: read_secret_path_def stage_secret_image_def regular_file_len_def file_meaning_Nil Let_def split: sum.split)
qed

theorem read_secret_path_exact_witness:
  "read_secret_path (\<lambda>s. s) (\<lambda>p :: nat. Inr demo_file) (\<lambda>n. Inl (OtherErrno 14)) ConfigFile_new 0 = (Inl SecretMemRefused, ConfigFile_new)"
proof -
  have "f_stat demo_file = Inr (True, 11)" "progressing (f_answers demo_file)"
    "f_identity demo_file = Inr \<lparr>ino = 7, change_cookie = None\<rparr>"
    by (simp_all add: demo_file_def progressing_def)
  with read_secret_path_exact [of "\<lambda>p :: nat. Inr demo_file" 0 demo_file True 11 "\<lambda>s. s" "\<lambda>n. Inl (OtherErrno 14)" ConfigFile_new]
  show ?thesis by simp
qed

text \<open>
  C27. A configuration saved to a file is the configuration loaded from it: \<^verbatim>\<open>read_path\<close> of a file that holds the
  text \<^verbatim>\<open>write_path\<close> wrote gives the configuration back, scrubbed or not, however its reads are cut, under these
  conditions on the configuration (\<open>cfg_ok\<close>) and the text. Section and option names are ones \<^verbatim>\<open>add_section\<close> and
  \<^verbatim>\<open>set\<close> accept, option names are lower-case already, and no map has a name twice. An option has no value only
  where \<^verbatim>\<open>allow_no_value\<close> is on. No line of a value begins or ends with white space, no line after the first
  begins with a comment character, and no value ends in a blank line. The text has no carriage return. The
  conditions on values are more than \<^verbatim>\<open>set\<close> asks for: the format does not keep white space around a line, so a
  value set to a blank and an \<^verbatim>\<open>x\<close> is read back as the \<^verbatim>\<open>x\<close> alone.
\<close>

theorem config_file_roundtrip:
  assumes "cfg_ok lower cfg" "open_at path = Inr f" "f_stat f = Inr (True, length (f_content f))" "progressing (f_answers f)"
    and "utf8_valid (f_content f)" "decode_utf8 (f_content f) = to_string cfg True" "CR \<notin> set (f_content f)"
  shows "read_path lower open_at (cfg\<lparr>defaults := Ordered_new, sections := Ordered_new\<rparr>) path = Inr cfg"
proof -
  note fixed = read_fixed [OF assms(4), of "length (f_content f)"]
  moreover have "file_meaning lower (cfg\<lparr>defaults := Ordered_new, sections := Ordered_new\<rparr>) (f_content f) = Inr cfg"
    using assms(5-7) read_to_string [OF assms(1), of True] by (simp add: file_meaning_def newlines_id parse_read_def)
  ultimately show ?thesis
    using assms(2,3) read_to_end_spec [OF assms(4), of "f_content f"]
      file_meaning_eq [where content = "f_content f" and lower = lower and cfg = "cfg\<lparr>defaults := Ordered_new, sections := Ordered_new\<rparr>"]
    by (auto simp: read_path_def read_path_scrubbed_def read_file_to_string_def regular_file_len_def split: option.splits)
qed

definition saved_config :: ConfigFile where
  "saved_config = ConfigFile_new\<lparr>sections := store (lit ''a'') (store (lit ''k'') (Some (lit ''v'')) Ordered_new) Ordered_new\<rparr>"

definition saved_file :: opened where
  "saved_file = \<lparr>f_stat = Inr (True, 11), f_identity = Inl EINVAL,
     f_content = map word_of_nat (lit ''[a]'' @ [10] @ lit ''k = v'' @ [10, 10]), f_answers = [AtMost 4]\<rparr>"

theorem config_file_roundtrip_witness:
  "read_path (\<lambda>s. s) (\<lambda>p :: nat. Inr saved_file) ConfigFile_new 0 = Inr saved_config"
proof -
  have "cfg_ok (\<lambda>s. s) saved_config"
  proof -
    have "list_all (\<lambda>s. section_fault (fst s) = None \<and> fst s \<noteq> DEFAULT_SECTION
         \<and> list_all (option_ok (\<lambda>s. s) False) (entries (snd s))) (entries (sections saved_config))"
      by code_simp
    moreover have "Ordered_ok (defaults saved_config)" "entries (defaults saved_config) = []" "Ordered_ok (sections saved_config)"
      "\<forall>s \<in> set (entries (sections saved_config)). Ordered_ok (snd s)" "allow_no_value saved_config = False"
      by (simp_all add: saved_config_def ConfigFile_new_def Ordered_insert_entries Ordered_ok_new ordered.ok_put ordered.list_empty)
    ultimately show ?thesis by (simp add: cfg_ok_def opts_ok_def section_ok_def list_all_iff)
  qed
  moreover have "f_stat saved_file = Inr (True, length (f_content saved_file))" "progressing (f_answers saved_file)"
    "utf8_valid (f_content saved_file)" "decode_utf8 (f_content saved_file) = to_string saved_config True"
    "CR \<notin> set (f_content saved_file)"
    by code_simp+
  moreover have "saved_config\<lparr>defaults := Ordered_new, sections := Ordered_new\<rparr> = ConfigFile_new"
    by (simp add: saved_config_def ConfigFile_new_def)
  ultimately show ?thesis
    using config_file_roundtrip [of "\<lambda>s. s" saved_config "\<lambda>p :: nat. Inr saved_file" 0 saved_file] by simp
qed

end
