(* ===== verification/Spec2Isabelle.thy ===== *)
theory Spec2Isabelle
  imports Acl_Fs Acl_Lossy Tn_Path Http_Framer Http_Date Conn_Table Body_Pool Ws_Handshake Config_Path
begin

text \<open>
  Verification of the \<^verbatim>\<open>truenas_ros\<close> crate: the parts of the TrueNAS operating-system library that decide
  something about bytes from outside. Four groups of components, from the bottom up; every file name is
  relative to \<^verbatim>\<open>src/\<close> of the crate.

  \<^bold>\<open>Foundations.\<close> \<open>Prelude\<close> has bytes, \<^verbatim>\<open>usize\<close> arithmetic, searching and splitting, and the contracts
  \<open>entry_codec\<close> and \<open>incremental\<close>. \<open>Tn_Error\<close> has the error values (\<^verbatim>\<open>errno.rs\<close>, \<^verbatim>\<open>error.rs\<close>) and the contract
  \<open>tn_enum\<close> of the \<^verbatim>\<open>tn_enum!\<close> macro. \<open>Rust_Str\<close>, \<open>Rust_Utf8\<close> and \<open>Ustr\<close> are what the sources use of Rust's
  \<^verbatim>\<open>u8\<close> and \<^verbatim>\<open>str\<close>: the first two on bytes, the third on characters.

  \<^bold>\<open>Access control.\<close> \<open>Acl_Nfs4\<close> and \<open>Acl_Posix\<close> (\<^verbatim>\<open>sync_fs/acl/nfs4.rs\<close>, \<^verbatim>\<open>posix.rs\<close>) are the two ACL types with
  their codecs, validation and inheritance; \<open>Acl_Lossy\<close> (\<^verbatim>\<open>lossy.rs\<close>) translates between them; \<open>Acl_Fs\<close>
  (\<^verbatim>\<open>acl/mod.rs\<close>) reads and writes them as extended attributes through \<open>Xattr\<close> (\<^verbatim>\<open>sync_fs/xattr.rs\<close>), whose kernel
  is a parameter; \<open>Tn_Path\<close> (\<^verbatim>\<open>path/\<close>) screens the names handed to system calls. Shown: both codecs are inverse on
  validated ACLs; \<open>validate_entries\<close> is a five-state automaton; inheritance is that of ZFS and of the POSIX
  create-mode rules; the translation to NFSv4 decides every request alike, the translation to POSIX never
  grants more; a written ACL is read back, also where the kernel keeps it in the mode bits only, and an error of
  the two-part write leaves the access ACL alone; the paths that pass are exactly the joins of plain names.
  Access is specified by \<open>posix_allows\<close> and \<open>nfs4_verdict\<close>, independently of the translations.

  \<^bold>\<open>Network.\<close> The reactor buffers what a connection received and asks a framer how much of it is one message.
  \<open>Net_Framing\<close> (\<^verbatim>\<open>net/core/protocol.rs\<close>, \<^verbatim>\<open>net/core/reactor/io.rs\<close>) is that dialogue; its locale \<open>framer\<close> is what
  the reactor needs of a framer, and the length-prefix framer, the HTTP framer and the two WebSocket framers are
  its interpretations. \<open>Http_Head\<close> (\<^verbatim>\<open>http/head.rs\<close>), \<open>Http_Chunked\<close> (\<^verbatim>\<open>http/chunked.rs\<close>) and \<open>Http_Framer\<close>
  (\<^verbatim>\<open>http/framer.rs\<close>) are the request side of HTTP; \<open>Http_Date\<close> (\<^verbatim>\<open>http/date.rs\<close>) renders dates, checked against
  \<open>Calendar\<close>, which counts days year by year. \<open>Ws_Frame\<close> and \<open>Ws_Handshake\<close> (\<^verbatim>\<open>ws/mod.rs\<close>) are the WebSocket layer.
  \<open>User_Data\<close> (\<^verbatim>\<open>uring/user_data.rs\<close>, \<^verbatim>\<open>uring/slots.rs\<close>), \<open>Conn_Table\<close> (\<^verbatim>\<open>net/core/table.rs\<close>) and \<open>Body_Pool\<close>
  (\<^verbatim>\<open>net/core/bodypool.rs\<close>) route completions to connections and recycle buffers. Shown: the verdict on a head, on
  a chunked body and on a frame header does not depend on how the bytes were cut; which heads frame which body;
  decoding accepts exactly the chunked grammar; with a cap of \<^verbatim>\<open>min_request_bytes\<close> and one
  scanning read the reactor never cuts off an HTTP connection for what it sends; no
  endpoint text splits an upgrade request, and both ends of the handshake agree; what one WebSocket side encodes
  the other decodes; a stale handle reaches no connection; the pool stays within its budget and empties when
  quiet. One theorem shows a divergence: the status of an oversize chunked body depends on arrival.

  \<^bold>\<open>Configuration files.\<close> \<open>Config_Map\<close> has the ordered maps of \<^verbatim>\<open>configfile/mod.rs\<close> and their contract
  \<open>ordered_dict\<close>; \<open>Config_Parse\<close> (\<^verbatim>\<open>parse.rs\<close>, \<^verbatim>\<open>write.rs\<close>) reads and writes documents; \<open>Config_Roundtrip\<close> relates
  the two; \<open>Config_Interp\<close> (\<^verbatim>\<open>interp.rs\<close>) expands references; \<open>Config_File\<close> has the getters and changes of a
  \<^verbatim>\<open>ConfigFile\<close> and \<open>Config_Path\<close> its file entry points. Shown: every reachable configuration is well formed;
  \<^verbatim>\<open>set\<close> changes one entry; \<^verbatim>\<open>get\<close> returns exactly the expansion of a value, which is bounded; what is written is
  read back, from a text and from a file however its reads are cut, for names and values the format can hold
  (\<open>cfg_ok\<close>); a scrubbed configuration reads the same and
  withholds the file from its errors.

  \<^bold>\<open>Conventions.\<close> A struct is a record, an enum a datatype, a failing function returns a sum with the error on
  the left; where the source panics the model returns \<open>None\<close>. A \<^verbatim>\<open>usize\<close> that only counts bytes of a buffer is a
  natural number; where a sum can overflow the bound \<open>usize_max\<close> is written out; flags, tokens and generations
  are words. Loops are total functions with a measure; the \<^verbatim>\<open>EINTR\<close> loop of \<open>Xattr\<close>, which may not end, is a
  partial function, and when it returns is a theorem. No loop runs on fuel: the recursion of interpolation is
  bounded by the depth the code checks, the reads of a file by the file and the finite list of short answers.
  Parameters, with what is assumed of each as a named hypothesis: the kernel (\<open>Xattr\<close>, \<open>Config_Path\<close>; \<open>keeps_posix_acls\<close>
  is what Linux does with the two POSIX ACL attributes), the tokenizers of \<^verbatim>\<open>httparse\<close> (\<open>httparse_ok\<close>;
  \<open>reads_requests\<close> and \<open>reads_responses\<close> on well-formed heads), digest and base64 of \<^verbatim>\<open>openssl\<close>, the allocator (\<open>Body_Pool\<close>), and
  Unicode lowercasing (\<open>lower\<close>).

  \<^bold>\<open>Not modelled.\<close> The io_uring engine, the asynchronous file operations, the reactor's event loop and the server
  and client runtimes: memory shared with the kernel, threads, wakers and TLS of \<^verbatim>\<open>openssl\<close>, where what matters is
  interleaving and the kernel rather than functions of values. HTTP responses and the API client: handlers,
  futures and third-party JSON values. The remaining file system, mount, audit, log, secrets and signal
  wrappers: thin layers over system calls. Zeroing of released secrets has no effect on values and is left out
  of the models it appears in; \<^verbatim>\<open>get_float\<close> is left out with floating point.
\<close>

end
